(* ===== verification/Prelude.thy ===== *)
theory Prelude
  imports Complex_Main "HOL-Library.Signed_Division"
begin

text \<open>
  Shared by every theory of the development: Go's 64-bit signed arithmetic on \<open>int\<close>
  with the wrap-around written out, truncated division, \<open>time.Time\<close> and
  \<open>time.Duration\<close>, runs of a transition function, and the interface of a
  transition system with an invariant.
\<close>

named_theorems i64_simps "values that stay inside the range of a 64-bit signed integer"
named_theorems inv_intros "introduction rules for the invariants of the components"

subsection \<open>64-bit signed integers\<close>

text \<open>
  Go's \<open>int\<close> (on a 64-bit platform), \<open>int64\<close> and \<open>time.Duration\<close> are
  64-bit two's complement. A value is modelled by the \<open>int\<close> it denotes; an
  operation whose result may leave the range goes through \<open>i64\<close>.
\<close>

abbreviation i64_min :: int where "i64_min \<equiv> - 9223372036854775808"
abbreviation i64_max :: int where "i64_max \<equiv> 9223372036854775807"

definition i64 :: "int \<Rightarrow> int" where
  "i64 x = (x + 9223372036854775808) mod 18446744073709551616 - 9223372036854775808"

definition is_i64 :: "int \<Rightarrow> bool" where
  "is_i64 x \<longleftrightarrow> i64_min \<le> x \<and> x \<le> i64_max"

lemma is_i64_i64 [simp]: "is_i64 (i64 x)"
proof -
  have "0 \<le> (x + 9223372036854775808) mod 18446744073709551616"
    and "(x + 9223372036854775808) mod 18446744073709551616 < 18446744073709551616"
    by simp_all
  then show ?thesis by (simp add: is_i64_def i64_def)
qed

lemma i64_id: "is_i64 x \<Longrightarrow> i64 x = x"
  by (simp add: is_i64_def i64_def)

lemma i64_idI [i64_simps]: "i64_min \<le> x \<Longrightarrow> x \<le> i64_max \<Longrightarrow> i64 x = x"
  by (simp add: is_i64_def i64_id)

lemma i64_bounds: "i64_min \<le> i64 x" "i64 x \<le> i64_max"
  using is_i64_i64 [of x] by (simp_all add: is_i64_def)

lemma i64_wrap_low: "i64_max < x \<Longrightarrow> x \<le> i64_max + 18446744073709551616 \<Longrightarrow>
  i64 x = x - 18446744073709551616"
proof -
  assume a: "i64_max < x" "x \<le> i64_max + 18446744073709551616"
  have "(x + 9223372036854775808) mod 18446744073709551616
      = (x + 9223372036854775808 - 18446744073709551616) mod 18446744073709551616"
    by (simp only: minus_mod_self2)
  also have "\<dots> = x + 9223372036854775808 - 18446744073709551616"
    using a by (intro mod_pos_pos_trivial) auto
  finally show ?thesis by (simp add: i64_def)
qed

text \<open>Go's \<open>/\<close> and \<open>%\<close> truncate towards zero, as \<open>sdiv\<close> and \<open>smod\<close> do.\<close>

lemma sdiv_nonneg: "0 \<le> (a::int) \<Longrightarrow> 0 \<le> b \<Longrightarrow> a sdiv b = a div b"
  by (cases "a = 0"; cases "b = 0") (simp_all add: signed_divide_int_def sgn_if)

lemma smod_nonneg: "0 \<le> (a::int) \<Longrightarrow> 0 \<le> b \<Longrightarrow> a smod b = a mod b"
  by (cases "a = 0") (simp_all add: signed_modulo_int_def sgn_if)

subsection \<open>Time\<close>

text \<open>
  An instant is the number of nanoseconds since Go's zero time, so that
  \<open>IsZero\<close> holds of \<open>0\<close> only. \<open>time.Duration\<close> is a 64-bit count of
  nanoseconds; \<open>Time.Sub\<close> saturates at its ends, as the package documents.
\<close>

type_synonym time = int
type_synonym duration = int

definition zero_time :: time where "zero_time = 0"

definition is_zero :: "time \<Rightarrow> bool" where "is_zero t \<longleftrightarrow> t = 0"

definition time_sub :: "time \<Rightarrow> time \<Rightarrow> duration" where
  "time_sub t u = max i64_min (min i64_max (t - u))"

definition time_add :: "time \<Rightarrow> duration \<Rightarrow> time" where
  "time_add t d = t + d"

definition before :: "time \<Rightarrow> time \<Rightarrow> bool" where "before t u \<longleftrightarrow> t < u"
definition after :: "time \<Rightarrow> time \<Rightarrow> bool" where "after t u \<longleftrightarrow> u < t"

lemmas time_defs = zero_time_def is_zero_def time_add_def before_def after_def

lemma time_sub_eq: "is_i64 (t - u) \<Longrightarrow> time_sub t u = t - u"
  by (auto simp: time_sub_def is_i64_def)

lemma time_sub_less_iff: "d \<le> i64_max \<Longrightarrow> i64_min < d \<Longrightarrow> time_sub t u < d \<longleftrightarrow> t - u < d"
  by (auto simp: time_sub_def)

abbreviation microsecond :: duration where "microsecond \<equiv> 1000"
abbreviation millisecond :: duration where "millisecond \<equiv> 1000000"
abbreviation second :: duration where "second \<equiv> 1000000000"

subsection \<open>Runs and reachable states\<close>

text \<open>A run folds a transition function over the list of its events.\<close>

definition run :: "('e \<Rightarrow> 's \<Rightarrow> 's) \<Rightarrow> 'e list \<Rightarrow> 's \<Rightarrow> 's" where
  "run step es s = fold step es s"

lemma run_Nil [simp]: "run step [] s = s"
  by (simp add: run_def)

lemma run_Cons [simp]: "run step (e # es) s = run step es (step e s)"
  by (simp add: run_def)

lemma run_append: "run step (xs @ ys) s = run step ys (run step xs s)"
  by (simp add: run_def)

lemma run_invariant:
  assumes "\<And>e s. P s \<Longrightarrow> Q e \<Longrightarrow> P (step e s)" and "P s" and "\<forall>e \<in> set es. Q e"
  shows "P (run step es s)"
  using assms(2,3) by (induction es arbitrary: s) (auto intro: assms(1))

inductive reach :: "'s \<Rightarrow> ('s \<Rightarrow> 's \<Rightarrow> bool) \<Rightarrow> 's \<Rightarrow> bool" for s0 step where
  reach_init: "reach s0 step s0"
| reach_step: "reach s0 step s \<Longrightarrow> step s t \<Longrightarrow> reach s0 step t"

lemma reach_trans: "reach t step u \<Longrightarrow> reach s step t \<Longrightarrow> reach s step u"
  by (induction rule: reach.induct) (auto intro: reach.intros)

text \<open>
  The interface of a component whose steps are a relation: an initial state and an
  invariant every step keeps. What it gives is the invariant of every reachable state.
\<close>

locale transition_system =
  fixes init :: 's
    and step :: "'s \<Rightarrow> 's \<Rightarrow> bool"
    and inv :: "'s \<Rightarrow> bool"
  assumes inv_init: "inv init"
    and inv_step: "inv s \<Longrightarrow> step s t \<Longrightarrow> inv t"
begin

lemma inv_reach: "reach init step s \<Longrightarrow> inv s"
  by (induction rule: reach.induct) (auto intro: inv_init inv_step)

lemma inv_from: "reach s step t \<Longrightarrow> inv s \<Longrightarrow> inv t"
  by (induction rule: reach.induct) (auto intro: inv_step)

lemma reach_measure:
  assumes "reach s step t" and "inv s"
    and mono: "\<And>u v. inv u \<Longrightarrow> step u v \<Longrightarrow> (m u :: nat) \<le> m v"
  shows "m s \<le> m t"
  using assms(1,2)
proof (induction rule: reach.induct)
  case reach_init
  then show ?case by simp
next
  case (reach_step u v)
  then have "inv u" by (auto intro: inv_from)
  with reach_step mono [of u v] show ?case by simp
qed

end

fun runs_to :: "('ev \<Rightarrow> 's \<Rightarrow> 's option) \<Rightarrow> 'ev list \<Rightarrow> 's \<Rightarrow> 's option" where
  "runs_to exec [] s = Some s"
| "runs_to exec (ev # evs) s = (case exec ev s of None \<Rightarrow> None | Some t \<Rightarrow> runs_to exec evs t)"

lemma runs_to_append:
  "runs_to exec (xs @ ys) s = (case runs_to exec xs s of None \<Rightarrow> None | Some t \<Rightarrow> runs_to exec ys t)"
  by (induction xs arbitrary: s) (auto split: option.split)

text \<open>
  The interface of a component that drains: each of its own steps leaves less work, and while
  something is left there is one. What it gives is that it can be run dry, and within its work.
\<close>

locale draining =
  fixes exec :: "'ev \<Rightarrow> 's \<Rightarrow> 's option"
    and own :: "'ev \<Rightarrow> bool"
    and good :: "'s \<Rightarrow> bool"
    and left :: "'s \<Rightarrow> bool"
    and work :: "'s \<Rightarrow> nat"
  assumes decreases: "good s \<Longrightarrow> own ev \<Longrightarrow> exec ev s = Some t \<Longrightarrow> work t < work s"
    and keeps: "good s \<Longrightarrow> own ev \<Longrightarrow> exec ev s = Some t \<Longrightarrow> good t"
    and progress: "good s \<Longrightarrow> left s \<Longrightarrow> \<exists>ev t. own ev \<and> exec ev s = Some t"
begin

lemma runs_dry:
  "good s \<Longrightarrow> \<exists>evs t. list_all own evs \<and> length evs \<le> work s \<and> runs_to exec evs s = Some t \<and> good t \<and> \<not> left t"
proof (induction "work s" arbitrary: s rule: less_induct)
  case less
  show ?case
  proof (cases "left s")
    case True
    from progress [OF less.prems True] obtain ev r where ev: "own ev" "exec ev s = Some r" by blast
    note dec = decreases [OF less.prems ev]
    from less.hyps [OF dec keeps [OF less.prems ev]] obtain evs t
      where "list_all own evs" "length evs \<le> work r" "runs_to exec evs r = Some t" "good t" "\<not> left t" by blast
    with ev dec show ?thesis by (intro exI [of _ "ev # evs"] exI [of _ t]) simp
  next
    case False
    with less.prems show ?thesis by (intro exI [of _ "[]"] exI [of _ s]) simp
  qed
qed

text \<open>However its steps are scheduled, they run out, and not before nothing is left.\<close>

lemma runs_bounded:
  "good s \<Longrightarrow> list_all own evs \<Longrightarrow> runs_to exec evs s = Some t \<Longrightarrow> good t \<and> length evs + work t \<le> work s"
proof (induction evs arbitrary: s)
  case (Cons ev evs)
  then obtain r where r: "exec ev s = Some r" "runs_to exec evs r = Some t" by (auto split: option.splits)
  have e: "own ev" "list_all own evs" using Cons.prems(2) by simp_all
  note dec = decreases [OF Cons.prems(1) e(1) r(1)] and k = keeps [OF Cons.prems(1) e(1) r(1)]
  from Cons.IH [OF k e(2) r(2)] dec show ?case by simp
qed simp

lemma runs_until_dry:
  "good s \<Longrightarrow> list_all own evs \<Longrightarrow> runs_to exec evs s = Some t \<Longrightarrow>
     length evs \<le> work s \<and> good t \<and> ((\<exists>ev u. own ev \<and> exec ev t = Some u) \<or> \<not> left t)"
  using runs_bounded [of s evs t] progress [of t] by auto

end

subsection \<open>Lists\<close>

lemma length_butlast_less: "xs \<noteq> [] \<Longrightarrow> length (butlast xs) = length xs - 1"
  by simp

end
