(* ===== verification/Http.thy ===== *)
theory Http
  imports Prelude
begin

text \<open>
  The HTTP layer the middlewares share. A \<open>http.ResponseWriter\<close> is modelled by the calls
  it receives; a downstream handler by the calls it makes and whether it then panics.
  \<open>codeWriter\<close> (queue/response_writer.go, and the same code in gozero/gozero.go and
  concurrencylimits/handler.go) sits between the two and remembers the status.
\<close>

datatype http_call = SetHeader string string | WriteHeader int | Write string

abbreviation StatusOK :: int where "StatusOK \<equiv> 200"
abbreviation StatusInternalServerError :: int where "StatusInternalServerError \<equiv> 500"
abbreviation StatusServiceUnavailable :: int where "StatusServiceUnavailable \<equiv> 503"

text \<open>
  The status a client sees: the first \<open>WriteHeader\<close>, or 200 once a body is written. An
  informational \<open>WriteHeader\<close> (a 1xx code other than 101) sends a response of its own and
  leaves the status open, as \<open>net/http\<close> documents.
\<close>

fun informational :: "http_call \<Rightarrow> bool" where
  "informational (WriteHeader c) \<longleftrightarrow> 100 \<le> c \<and> c \<le> 199 \<and> c \<noteq> 101"
| "informational _ \<longleftrightarrow> False"

fun status_of :: "http_call list \<Rightarrow> int" where
  "status_of [] = StatusOK"
| "status_of (WriteHeader c # cs) = (if informational (WriteHeader c) then status_of cs else c)"
| "status_of (Write _ # _) = StatusOK"
| "status_of (SetHeader _ _ # cs) = status_of cs"

record code_writer =
  cw_inner :: "http_call list"
  cw_code :: int
  cw_wrote :: bool

definition new_code_writer :: "http_call list \<Rightarrow> code_writer" where
  "new_code_writer w = \<lparr>cw_inner = w, cw_code = StatusOK, cw_wrote = False\<rparr>"

definition cw_write_header :: "int \<Rightarrow> code_writer \<Rightarrow> code_writer" where
  "cw_write_header c w =
     (if cw_wrote w then w
      else w\<lparr>cw_wrote := True, cw_code := c, cw_inner := cw_inner w @ [WriteHeader c]\<rparr>)"

definition cw_write :: "string \<Rightarrow> code_writer \<Rightarrow> code_writer" where
  "cw_write b w =
     (let w' = (if \<not> cw_wrote w then cw_write_header StatusOK w else w)
      in w'\<lparr>cw_inner := cw_inner w' @ [Write b]\<rparr>)"

definition cw_unwrap :: "code_writer \<Rightarrow> http_call list" where
  "cw_unwrap w = cw_inner w"

text \<open>\<open>Header()\<close> is promoted from the embedded writer, so header changes pass through.\<close>

fun cw_call :: "http_call \<Rightarrow> code_writer \<Rightarrow> code_writer" where
  "cw_call (WriteHeader c) w = cw_write_header c w"
| "cw_call (Write b) w = cw_write b w"
| "cw_call (SetHeader k v) w = w\<lparr>cw_inner := cw_inner w @ [SetHeader k v]\<rparr>"

text \<open>
  A run of \<open>next.ServeHTTP\<close>: its calls in order, then a normal return or a panic.
\<close>

record 'p handler_run =
  calls :: "http_call list"
  panics :: "'p option"

definition serve :: "'p handler_run \<Rightarrow> http_call list \<Rightarrow> code_writer" where
  "serve h w = run cw_call (calls h) (new_code_writer w)"

text \<open>What every middleware answers when it sheds a request.\<close>

definition shed_response :: "http_call list" where
  "shed_response = [SetHeader ''Connection'' ''close'', WriteHeader StatusServiceUnavailable]"

lemma status_of_shed [simp]: "status_of shed_response = StatusServiceUnavailable"
  by (simp add: shed_response_def)

subsection \<open>The captured code is the status the client sees\<close>

text \<open>For a handler that sends no informational responses; with one, see below.\<close>

definition is_commit :: "http_call \<Rightarrow> bool" where
  "is_commit c \<longleftrightarrow> (case c of SetHeader _ _ \<Rightarrow> False | _ \<Rightarrow> \<not> informational c)"

definition cw_inv :: "code_writer \<Rightarrow> bool" where
  "cw_inv w \<longleftrightarrow> cw_code w = status_of (cw_inner w) \<and> (cw_wrote w \<longleftrightarrow> (\<exists>c \<in> set (cw_inner w). is_commit c))"

lemma status_of_append:
  "status_of (xs @ ys) = (if \<exists>c \<in> set xs. is_commit c then status_of xs else status_of ys)"
  by (induction xs rule: status_of.induct) (auto simp: is_commit_def)

lemma status_of_uncommitted: "\<forall>c \<in> set xs. \<not> is_commit c \<Longrightarrow> status_of xs = StatusOK"
  by (induction xs rule: status_of.induct) (auto simp: is_commit_def)

lemma cw_call_inv [inv_intros]: "cw_inv w \<Longrightarrow> \<not> informational c \<Longrightarrow> cw_inv (cw_call c w)"
  by (cases c)
    (auto simp: cw_inv_def cw_write_header_def cw_write_def Let_def status_of_append is_commit_def
      status_of_uncommitted)

lemma serve_inv:
  assumes "\<forall>c \<in> set w. \<not> is_commit c" "\<forall>c \<in> set (calls h). \<not> informational c"
  shows "cw_inv (serve h w)"
  unfolding serve_def
proof (rule run_invariant [where Q = "\<lambda>c. \<not> informational c"])
  show "cw_inv (new_code_writer w)"
    using assms by (simp add: cw_inv_def new_code_writer_def status_of_uncommitted)
qed (use assms(2) in \<open>simp_all add: cw_call_inv\<close>)

lemma serve_code:
  "\<forall>c \<in> set (calls h). \<not> informational c \<Longrightarrow>
    cw_code (serve h []) = status_of (cw_inner (serve h []))"
  using serve_inv [of "[]" h] by (simp add: cw_inv_def)

subsection \<open>The response the client gets\<close>

text \<open>
  What \<open>net/http\<close> sends for the calls a \<open>ResponseWriter\<close> receives: the header
  changes made before the status is committed, the status, and the body.
\<close>

fun sent_headers :: "http_call list \<Rightarrow> (string \<times> string) list" where
  "sent_headers [] = []"
| "sent_headers (SetHeader k v # cs) = (k, v) # sent_headers cs"
| "sent_headers (c # cs) = (if informational c then sent_headers cs else [])"

fun sent_body :: "http_call list \<Rightarrow> string" where
  "sent_body [] = []"
| "sent_body (Write b # cs) = b @ sent_body cs"
| "sent_body (c # cs) = sent_body cs"

definition client_response :: "http_call list \<Rightarrow> (string \<times> string) list \<times> int \<times> string" where
  "client_response cs = (sent_headers cs, status_of cs, sent_body cs)"

lemma sent_headers_append:
  "sent_headers (xs @ ys) = (if \<exists>c \<in> set xs. is_commit c then sent_headers xs else sent_headers xs @ sent_headers ys)"
  by (induction xs rule: sent_headers.induct) (auto simp: is_commit_def)

lemma sent_body_append: "sent_body (xs @ ys) = sent_body xs @ sent_body ys"
  by (induction xs rule: sent_body.induct) simp_all

definition no_status :: "http_call \<Rightarrow> bool" where
  "no_status c \<longleftrightarrow> (case c of WriteHeader _ \<Rightarrow> False | _ \<Rightarrow> True)"

text \<open>
  \<open>codeWriter\<close> is transparent: it passes every header change and every write on in order,
  and without informational responses the client gets the response the handler gives.
\<close>

lemma serve_passes: "filter no_status (cw_inner (serve h [])) = filter no_status (calls h)"
proof -
  have "filter no_status (cw_inner (run cw_call cs w)) = filter no_status (cw_inner w) @ filter no_status cs" for cs w
  proof (induction cs arbitrary: w)
    case (Cons c cs)
    then show ?case
      by (cases c) (simp_all add: no_status_def cw_write_header_def cw_write_def Let_def)
  qed simp
  then show ?thesis by (simp add: serve_def new_code_writer_def)
qed

definition committed :: "http_call list \<Rightarrow> bool" where
  "committed cs \<longleftrightarrow> list_ex is_commit cs"

lemma committed_append: "committed (xs @ ys) \<longleftrightarrow> committed xs \<or> committed ys"
  by (simp add: committed_def)

lemmas committed_facts =
  sent_headers_append [folded list_ex_iff, folded committed_def]
  status_of_append [folded list_ex_iff, folded committed_def]
  sent_body_append committed_append

definition same_response :: "http_call list \<Rightarrow> code_writer \<Rightarrow> bool" where
  "same_response cs w \<longleftrightarrow> client_response (cw_inner w) = client_response cs
     \<and> committed (cw_inner w) = committed cs \<and> cw_wrote w = committed cs"

lemma same_response_step:
  assumes "same_response cs w" "\<not> informational c"
  shows "same_response (cs @ [c]) (cw_call c w)"
proof -
  have w: "sent_headers (cw_inner w) = sent_headers cs" "status_of (cw_inner w) = status_of cs"
    "sent_body (cw_inner w) = sent_body cs" "committed (cw_inner w) = committed cs" "cw_wrote w = committed cs"
    using assms(1) by (simp_all add: same_response_def client_response_def)
  have one: "committed [SetHeader k v] = False" "committed [Write b] = True"
    "committed [WriteHeader n] = (\<not> informational (WriteHeader n))" for k v b n
    by (simp_all add: committed_def is_commit_def)
  show ?thesis
  proof (cases c)
    case (WriteHeader n)
    with assms(2) w one show ?thesis
      by (cases "committed cs") (simp_all add: same_response_def client_response_def cw_write_header_def committed_facts)
  next
    case (Write b)
    have "committed [WriteHeader StatusOK]" "committed [WriteHeader StatusOK, Write b]" by (simp_all add: committed_def is_commit_def)
    with Write w one show ?thesis
      by (cases "committed cs") (simp_all add: same_response_def client_response_def cw_write_header_def cw_write_def committed_facts)
  next
    case (SetHeader k v)
    with w one show ?thesis
      by (cases "committed cs") (simp_all add: same_response_def client_response_def committed_facts)
  qed
qed

lemma serve_transparent:
  assumes "\<forall>c \<in> set (calls h). \<not> informational c"
  shows "client_response (cw_inner (serve h [])) = client_response (calls h)"
proof -
  have "same_response cs (run cw_call cs (new_code_writer []))" if "\<forall>c \<in> set cs. \<not> informational c" for cs
    using that
  proof (induction cs rule: rev_induct)
    case Nil
    then show ?case by (simp add: same_response_def new_code_writer_def committed_def)
  next
    case (snoc c cs)
    then show ?case by (simp add: run_append same_response_step)
  qed
  from this [OF assms] show ?thesis by (simp add: same_response_def serve_def)
qed

text \<open>
  An informational response blinds \<open>codeWriter\<close>: after \<open>WriteHeader(103)\<close> the
  handler's real status is swallowed, so that a handler that answers 500 is seen as 200 by the
  client and is recorded as 103, a success, although without the wrapper the client sees 500.
\<close>

theorem code_writer_swallows_status:
  "status_of (calls \<lparr>calls = [WriteHeader 103, WriteHeader 500, Write ''x''], panics = None :: unit option\<rparr>) = 500
   \<and> cw_inner (serve \<lparr>calls = [WriteHeader 103, WriteHeader 500, Write ''x''], panics = None :: unit option\<rparr> [])
     = [WriteHeader 103, Write ''x'']
   \<and> cw_code (serve \<lparr>calls = [WriteHeader 103, WriteHeader 500, Write ''x''], panics = None :: unit option\<rparr> []) = 103
   \<and> status_of (cw_inner (serve \<lparr>calls = [WriteHeader 103, WriteHeader 500, Write ''x''], panics = None :: unit option\<rparr> [])) = 200"
  by (simp add: serve_def new_code_writer_def cw_write_header_def cw_write_def)

text \<open>At most one \<open>WriteHeader\<close> ever reaches the underlying writer.\<close>

definition write_headers :: "http_call list \<Rightarrow> nat" where
  "write_headers cs = length (filter (\<lambda>c. case c of WriteHeader _ \<Rightarrow> True | _ \<Rightarrow> False) cs)"

definition cw_single :: "code_writer \<Rightarrow> bool" where
  "cw_single w \<longleftrightarrow> write_headers (cw_inner w) = (if cw_wrote w then 1 else 0)"

lemma cw_call_single: "cw_single w \<Longrightarrow> cw_single (cw_call c w)"
  by (cases c) (auto simp: cw_single_def cw_write_header_def cw_write_def Let_def write_headers_def)

lemma serve_single: "write_headers (cw_inner (serve h [])) \<le> 1"
proof -
  have "cw_single (serve h [])"
    unfolding serve_def
  proof (rule run_invariant [where Q = "\<lambda>_. True"])
    show "cw_single (new_code_writer [])"
      by (simp add: cw_single_def new_code_writer_def write_headers_def)
  qed (simp_all add: cw_call_single)
  then show ?thesis by (simp add: cw_single_def split: if_splits)
qed

end
