(* ===== verification/Gate.thy ===== *)
theory Gate
  imports Prelude
begin

text \<open>
  The admission gate of the queue package (queue/gate.go): the \<open>Gate\<close> interface as a
  record of its methods, as a Go interface value is, with its contract as a locale; the
  static CPU-threshold gate; and \<open>gateFor\<close>, which chooses a pool's gate.
  \<open>Allow\<close> yields a ticket when it admits: it stands for the \<open>done\<close> callback, and
  \<open>g_done\<close> is the call of it.
\<close>

record ('env, 'g, 't) gate_ops =
  g_allow :: "'env \<Rightarrow> 'g \<Rightarrow> 't option \<times> 'g"
  g_done :: "'t \<Rightarrow> bool \<Rightarrow> 'g \<Rightarrow> 'g"
  g_set_enabled :: "bool \<Rightarrow> 'g \<Rightarrow> 'g"
  g_enabled :: "'g \<Rightarrow> bool"

text \<open>
  The contract: the switch reads back what was set, only \<open>SetEnabled\<close> moves it, a
  disabled gate admits everything, and its \<open>done\<close> does nothing.
\<close>

locale gate_contract =
  fixes G :: "('env, 'g, 't) gate_ops"
  assumes set_reads_back: "g_enabled G (g_set_enabled G on g) = on"
    and allow_keeps_switch: "g_enabled G (snd (g_allow G e g)) = g_enabled G g"
    and done_keeps_switch: "g_enabled G (g_done G t b g) = g_enabled G g"
    and disabled_admits: "\<not> g_enabled G g \<Longrightarrow> fst (g_allow G e g) \<noteq> None"
    and disabled_keeps: "\<not> g_enabled G g \<Longrightarrow> snd (g_allow G e g) = g"
    and disabled_done: "\<not> g_enabled G g \<Longrightarrow> fst (g_allow G e g) = Some t \<Longrightarrow> g_done G t b g' = g'"
begin

lemma switched_off_admits:
  "\<exists>t. g_allow G e (g_set_enabled G False g) = (Some t, g_set_enabled G False g)"
proof -
  let ?g = "g_set_enabled G False g"
  have off: "\<not> g_enabled G ?g" by (simp add: set_reads_back)
  then obtain t where "fst (g_allow G e ?g) = Some t" using disabled_admits by fastforce
  then show ?thesis using disabled_keeps [OF off, of e] by (metis prod.collapse)
qed

lemma switched_off_done:
  "g_allow G e (g_set_enabled G False g) = (Some t, g') \<Longrightarrow> g_done G t b h = h"
  using disabled_done [of "g_set_enabled G False g" e t b h] by (simp add: set_reads_back)

end

subsection \<open>The static CPU gate\<close>

record cpu_gate =
  threshold :: int
  enabled :: bool

definition new_cpu_threshold_gate :: "int \<Rightarrow> cpu_gate" where
  "new_cpu_threshold_gate th = \<lparr>threshold = th, enabled = True\<rparr>"

text \<open>The environment of a call is the reading \<open>cpuUsage()\<close> returns.\<close>

definition cpu_allow :: "int \<Rightarrow> cpu_gate \<Rightarrow> unit option \<times> cpu_gate" where
  "cpu_allow cpu g =
     (if \<not> enabled g then (Some (), g)
      else if 0 < threshold g \<and> threshold g \<le> cpu then (None, g)
      else (Some (), g))"

definition noop_done :: "unit \<Rightarrow> bool \<Rightarrow> cpu_gate \<Rightarrow> cpu_gate" where
  "noop_done t b g = g"

definition cpu_set_enabled :: "bool \<Rightarrow> cpu_gate \<Rightarrow> cpu_gate" where
  "cpu_set_enabled on g = g\<lparr>enabled := on\<rparr>"

definition cpu_enabled :: "cpu_gate \<Rightarrow> bool" where
  "cpu_enabled g = enabled g"

definition cpu_ops :: "(int, cpu_gate, unit) gate_ops" where
  "cpu_ops = \<lparr>g_allow = cpu_allow, g_done = noop_done, g_set_enabled = cpu_set_enabled,
     g_enabled = cpu_enabled\<rparr>"

lemmas cpu_gate_defs = cpu_ops_def cpu_allow_def noop_done_def cpu_set_enabled_def cpu_enabled_def

interpretation cpu_gate: gate_contract cpu_ops
  by unfold_locales (auto simp: cpu_gate_defs)

lemma cpu_allow_keeps: "snd (cpu_allow cpu g) = g"
  by (simp add: cpu_allow_def)

lemma cpu_allow_rejects_iff:
  "fst (cpu_allow cpu g) = None \<longleftrightarrow> enabled g \<and> 0 < threshold g \<and> threshold g \<le> cpu"
  by (simp add: cpu_allow_def)

subsection \<open>The gate of a pool\<close>

text \<open>
  An explicit gate wins over the threshold; the result is a value of one of the two
  implementations, and a call on it dispatches to that one. The environment of a call
  carries what either needs.
\<close>

definition gate_for :: "'g option \<Rightarrow> int \<Rightarrow> ('g + cpu_gate) option" where
  "gate_for explicit cpu_threshold =
     (case explicit of
        Some g \<Rightarrow> Some (Inl g)
      | None \<Rightarrow> if 0 < cpu_threshold then Some (Inr (new_cpu_threshold_gate cpu_threshold))
                else None)"

definition sum_ops :: "('env, 'g, 't) gate_ops \<Rightarrow> ('env \<times> int, 'g + cpu_gate, 't + unit) gate_ops" where
  "sum_ops G = \<lparr>
     g_allow = (\<lambda>env g. case g of
         Inl x \<Rightarrow> (let r = g_allow G (fst env) x in (map_option Inl (fst r), Inl (snd r)))
       | Inr y \<Rightarrow> (let r = cpu_allow (snd env) y in (map_option Inr (fst r), Inr (snd r)))),
     g_done = (\<lambda>t b g. case (t, g) of
         (Inl u, Inl x) \<Rightarrow> Inl (g_done G u b x)
       | (Inr u, Inr y) \<Rightarrow> Inr (noop_done u b y)
       | _ \<Rightarrow> g),
     g_set_enabled = (\<lambda>on g. case g of
         Inl x \<Rightarrow> Inl (g_set_enabled G on x) | Inr y \<Rightarrow> Inr (cpu_set_enabled on y)),
     g_enabled = (\<lambda>g. case g of Inl x \<Rightarrow> g_enabled G x | Inr y \<Rightarrow> cpu_enabled y)\<rparr>"

text \<open>Dispatch keeps the contract, so a pool may rely on it whichever gate it got.\<close>

lemma sum_ops_contract:
  assumes "gate_contract G"
  shows "gate_contract (sum_ops G)"
proof -
  note G = gate_contract.set_reads_back [OF assms] gate_contract.allow_keeps_switch [OF assms]
    gate_contract.done_keeps_switch [OF assms]
  note off = gate_contract.disabled_admits [OF assms] gate_contract.disabled_keeps [OF assms]
    gate_contract.disabled_done [OF assms]
  show ?thesis
    by unfold_locales
      (auto simp: sum_ops_def Let_def G off cpu_gate_defs split: sum.splits if_splits
        intro: off(1) [unfolded not_None_eq] dest: off(3))
qed

end
