(* ===== verification/Pool.thy ===== *)
theory Pool
  imports Http Gate "HOL-Library.Multiset"
begin

text \<open>
  The bounded worker pool (queue/pool.go) as a state machine over the goroutines that use it.
  Every statement another goroutine can observe is a step of its own: the gate, the semaphore,
  the critical section of \<open>submitWithOutcome\<close>, the counters, and the stages of a
  worker. A submission is a number \<open>i\<close>; the lists and multisets of the state say where
  each one is. The number also stands for the task it submits.
\<close>

datatype submit_error = ErrQueueFull | ErrQueueTimeout | ErrOverloaded | ErrStopped | ErrNilTask | ErrDropped

subsection \<open>Configuration\<close>

record 'g config =
  Workers :: int
  QueueCapacity :: int
  MaxWait :: duration
  CpuThreshold :: int
  Gate :: "'g option"

record ('g, 't) pool =
  tasks :: "nat list"                    \<comment> \<open>the buffered channel\<close>
  chan_closed :: bool
  closed :: bool                         \<comment> \<open>p.closed\<close>
  sem :: nat                             \<comment> \<open>tokens in the semaphore channel\<close>
  capacity :: nat                        \<comment> \<open>cap(tasks) = cap(sem)\<close>
  max_wait :: duration
  gate :: "'g option"
  active :: int
  accepted :: int
  rejected :: int
  n_workers :: nat
  tickets :: "nat \<Rightarrow> 't option"          \<comment> \<open>the done callback each submission got\<close>
  dones :: "(nat \<times> bool) multiset"       \<comment> \<open>calls of done so far\<close>
  results :: "(nat \<times> submit_error option) multiset" \<comment> \<open>returns of Submit so far\<close>
  submitted :: "nat multiset"            \<comment> \<open>calls of Submit so far\<close>
  asking :: "nat multiset"               \<comment> \<open>past the gate, before a slot\<close>
  holding :: "nat multiset"              \<comment> \<open>slot acquired, before the critical section\<close>
  counting :: "nat multiset"             \<comment> \<open>sent, accepted not yet incremented\<close>
  taken :: "nat multiset"                \<comment> \<open>received by a worker, active not yet incremented\<close>
  running :: "nat multiset"
  finished :: "nat multiset"             \<comment> \<open>ran, slot not yet released\<close>
  completed :: "nat multiset"
  idle :: nat
  exited :: nat
  stopping :: bool                       \<comment> \<open>stopOnce has run\<close>
  stop_returned :: bool

definition new_pool :: "'g config \<Rightarrow> ('g + cpu_gate, 't) pool" where
  "new_pool cfg =
     (let workers = (if Workers cfg < 1 then 1 else Workers cfg);
          qcap = (if QueueCapacity cfg < 0 then 0 else QueueCapacity cfg)
      in \<lparr>tasks = [], chan_closed = False, closed = False, sem = 0,
          capacity = nat (workers + qcap), max_wait = MaxWait cfg,
          gate = gate_for (Gate cfg) (CpuThreshold cfg),
          active = 0, accepted = 0, rejected = 0, n_workers = nat workers,
          tickets = (\<lambda>_. None), dones = {#}, results = {#}, submitted = {#}, asking = {#},
          holding = {#}, counting = {#}, taken = {#}, running = {#}, finished = {#},
          completed = {#}, idle = nat workers, exited = 0, stopping = False,
          stop_returned = False\<rparr>)"

subsection \<open>The stages of a submission\<close>

definition returns :: "nat \<Rightarrow> submit_error option \<Rightarrow> ('g, 't) pool \<Rightarrow> ('g, 't) pool" where
  "returns i r p = p\<lparr>results := add_mset (i, r) (results p)\<rparr>"

text \<open>The call \<open>done(b)\<close>: with no gate the callback is \<open>noopDone\<close>.\<close>

definition call_done ::
  "('env, 'g, 't) gate_ops \<Rightarrow> nat \<Rightarrow> bool \<Rightarrow> ('g, 't) pool \<Rightarrow> ('g, 't) pool" where
  "call_done G i b p =
     p\<lparr>dones := add_mset (i, b) (dones p),
       gate := (case (gate p, tickets p i) of
           (Some g, Some t) \<Rightarrow> Some (g_done G t b g) | _ \<Rightarrow> gate p)\<rparr>"

definition gate_allow ::
  "('env, 'g, 't) gate_ops \<Rightarrow> 'env \<Rightarrow> nat \<Rightarrow> ('g, 't) pool \<Rightarrow> bool \<times> ('g, 't) pool" where
  "gate_allow G e i p =
     (case gate p of
        None \<Rightarrow> (True, p)
      | Some g \<Rightarrow> (case g_allow G e g of
            (None, g') \<Rightarrow> (False, p\<lparr>gate := Some g'\<rparr>)
          | (Some t, g') \<Rightarrow> (True, p\<lparr>gate := Some g', tickets := (tickets p)(i := Some t)\<rparr>)))"

definition submit_gate ::
  "('env, 'g, 't) gate_ops \<Rightarrow> 'env \<Rightarrow> nat \<Rightarrow> ('g, 't) pool \<Rightarrow> ('g, 't) pool" where
  "submit_gate G e i p =
     (let p = p\<lparr>submitted := add_mset i (submitted p)\<rparr>
      in case gate_allow G e i p of
           (False, p') \<Rightarrow> returns i (Some ErrOverloaded) (p'\<lparr>rejected := rejected p' + 1\<rparr>)
         | (True, p') \<Rightarrow> p'\<lparr>asking := add_mset i (asking p')\<rparr>)"

text \<open>\<open>Submit\<close> and \<open>SubmitWait\<close> refuse a nil task before anything else.\<close>

definition pool_submit ::
  "('env, 'g, 't) gate_ops \<Rightarrow> 'env \<Rightarrow> nat \<Rightarrow> 'f option \<Rightarrow> ('g, 't) pool \<Rightarrow> submit_error + ('g, 't) pool" where
  "pool_submit G e i task p = (if task = None then Inl ErrNilTask else Inr (submit_gate G e i p))"

text \<open>\<open>SubmitWait\<close> begins in the same way; when it returns is \<open>submit_wait_returns\<close> below.\<close>

definition pool_submit_wait ::
  "('env, 'g, 't) gate_ops \<Rightarrow> 'env \<Rightarrow> nat \<Rightarrow> 'f option \<Rightarrow> ('g, 't) pool \<Rightarrow> submit_error + ('g, 't) pool" where
  "pool_submit_wait G e i task p = (if task = None then Inl ErrNilTask else Inr (submit_gate G e i p))"

text \<open>\<open>acquire\<close> succeeds when the semaphore channel has room.\<close>

definition submit_acquire :: "nat \<Rightarrow> ('g, 't) pool \<Rightarrow> ('g, 't) pool option" where
  "submit_acquire i p =
     (if i \<in># asking p \<and> sem p < capacity p
      then Some (p\<lparr>sem := sem p + 1, asking := asking p - {#i#}, holding := add_mset i (holding p)\<rparr>)
      else None)"

text \<open>
  It fails at once on a full channel when there is no \<open>MaxWait\<close>, or when the timer
  fires, whatever the channel holds by then.
\<close>

definition submit_no_slot ::
  "('env, 'g, 't) gate_ops \<Rightarrow> nat \<Rightarrow> ('g, 't) pool \<Rightarrow> ('g, 't) pool option" where
  "submit_no_slot G i p =
     (if i \<in># asking p \<and> (0 < max_wait p \<or> sem p = capacity p)
      then (let p' = call_done G i False (p\<lparr>asking := asking p - {#i#}\<rparr>);
                p'' = p'\<lparr>rejected := rejected p' + 1\<rparr>
            in Some (returns i (Some (if 0 < max_wait p then ErrQueueTimeout else ErrQueueFull)) p''))
      else None)"

text \<open>
  The critical section: released slot and \<open>ErrStopped\<close> on a closed pool, otherwise the
  send. A send on a full channel would block, so it is no step; on a closed channel it would
  panic: \<open>send_panics\<close> names that situation, which the invariant excludes.
\<close>

definition submit_enter ::
  "('env, 'g, 't) gate_ops \<Rightarrow> nat \<Rightarrow> ('g, 't) pool \<Rightarrow> ('g, 't) pool option" where
  "submit_enter G i p =
     (if i \<notin># holding p then None
      else if closed p
      then Some (returns i (Some ErrStopped)
             (call_done G i False (p\<lparr>holding := holding p - {#i#}, sem := sem p - 1\<rparr>)))
      else if chan_closed p \<or> capacity p \<le> length (tasks p) then None
      else Some (p\<lparr>holding := holding p - {#i#}, tasks := tasks p @ [i],
                   counting := add_mset i (counting p)\<rparr>))"

definition send_panics :: "nat \<Rightarrow> ('g, 't) pool \<Rightarrow> bool" where
  "send_panics i p \<longleftrightarrow> i \<in># holding p \<and> \<not> closed p \<and> chan_closed p"

definition submit_count :: "nat \<Rightarrow> ('g, 't) pool \<Rightarrow> ('g, 't) pool option" where
  "submit_count i p =
     (if i \<in># counting p
      then Some (returns i None (p\<lparr>counting := counting p - {#i#}, accepted := accepted p + 1\<rparr>))
      else None)"

subsection \<open>The stages of a worker\<close>

datatype task_outcome = Ret bool | Panics

definition worker_take :: "('g, 't) pool \<Rightarrow> ('g, 't) pool option" where
  "worker_take p =
     (case tasks p of
        i # rest \<Rightarrow> (if 0 < idle p
           then Some (p\<lparr>tasks := rest, taken := add_mset i (taken p), idle := idle p - 1\<rparr>)
           else None)
      | [] \<Rightarrow> None)"

definition worker_begin :: "nat \<Rightarrow> ('g, 't) pool \<Rightarrow> ('g, 't) pool option" where
  "worker_begin i p =
     (if i \<in># taken p
      then Some (p\<lparr>taken := taken p - {#i#}, running := add_mset i (running p), active := active p + 1\<rparr>)
      else None)"

text \<open>
  The wrapped task calls \<open>done\<close> with its own result, or with \<open>false\<close> when it
  panics; \<open>runSafe\<close> recovers the re-raised panic, and the deferred decrement runs.
\<close>

definition outcome_success :: "task_outcome \<Rightarrow> bool" where
  "outcome_success out = (case out of Ret b \<Rightarrow> b | Panics \<Rightarrow> False)"

definition worker_end ::
  "('env, 'g, 't) gate_ops \<Rightarrow> nat \<Rightarrow> task_outcome \<Rightarrow> ('g, 't) pool \<Rightarrow> ('g, 't) pool option" where
  "worker_end G i out p =
     (if i \<in># running p
      then Some (call_done G i (outcome_success out)
             (p\<lparr>running := running p - {#i#}, finished := add_mset i (finished p),
                active := active p - 1\<rparr>))
      else None)"

definition worker_release :: "nat \<Rightarrow> ('g, 't) pool \<Rightarrow> ('g, 't) pool option" where
  "worker_release i p =
     (if i \<in># finished p
      then Some (p\<lparr>finished := finished p - {#i#}, completed := add_mset i (completed p),
                   sem := sem p - 1, idle := idle p + 1\<rparr>)
      else None)"

definition worker_exit :: "('g, 't) pool \<Rightarrow> ('g, 't) pool option" where
  "worker_exit p =
     (if chan_closed p \<and> tasks p = [] \<and> 0 < idle p
      then Some (p\<lparr>idle := idle p - 1, exited := exited p + 1\<rparr>)
      else None)"

subsection \<open>Stop, Stats and the gate switch\<close>

text \<open>
  \<open>Stop\<close> takes the write lock, which waits for the readers in the critical section;
  its second half waits for the workers. \<open>stopOnce\<close> makes the first half run once.
\<close>

definition stop_close :: "('g, 't) pool \<Rightarrow> ('g, 't) pool option" where
  "stop_close p =
     (if \<not> stopping p \<and> counting p = {#}
      then Some (p\<lparr>stopping := True, closed := True, chan_closed := True\<rparr>)
      else None)"

definition stop_wait :: "('g, 't) pool \<Rightarrow> ('g, 't) pool option" where
  "stop_wait p =
     (if stopping p \<and> exited p = n_workers p then Some (p\<lparr>stop_returned := True\<rparr>) else None)"

definition set_gate_enabled ::
  "('env, 'g, 't) gate_ops \<Rightarrow> bool \<Rightarrow> ('g, 't) pool \<Rightarrow> ('g, 't) pool" where
  "set_gate_enabled G on p =
     p\<lparr>gate := (case gate p of None \<Rightarrow> None | Some g \<Rightarrow> Some (g_set_enabled G on g))\<rparr>"

text \<open>The accessor \<open>Gate()\<close>.\<close>

definition pool_gate :: "('g, 't) pool \<Rightarrow> 'g option" where
  "pool_gate p = gate p"

record stats =
  Queued :: int
  Active :: int
  Accepted :: int
  Rejected :: int

definition pool_stats :: "('g, 't) pool \<Rightarrow> stats" where
  "pool_stats p = \<lparr>Queued = int (length (tasks p)), Active = active p, Accepted = accepted p,
     Rejected = rejected p\<rparr>"

subsection \<open>The transition system\<close>

datatype 'env pool_event =
    EvSubmit 'env nat | EvAcquire nat | EvNoSlot nat | EvEnter nat | EvCount nat
  | EvTake | EvBegin nat | EvEnd nat task_outcome | EvRelease nat | EvExit
  | EvStop | EvStopped | EvSetGate bool

text \<open>A fresh number identifies each call of \<open>Submit\<close>.\<close>

fun pool_exec ::
  "('env, 'g, 't) gate_ops \<Rightarrow> 'env pool_event \<Rightarrow> ('g, 't) pool \<Rightarrow> ('g, 't) pool option" where
  "pool_exec G (EvSubmit e i) p = (if i \<in># submitted p then None else Some (submit_gate G e i p))"
| "pool_exec G (EvAcquire i) p = submit_acquire i p"
| "pool_exec G (EvNoSlot i) p = submit_no_slot G i p"
| "pool_exec G (EvEnter i) p = submit_enter G i p"
| "pool_exec G (EvCount i) p = submit_count i p"
| "pool_exec G EvTake p = worker_take p"
| "pool_exec G (EvBegin i) p = worker_begin i p"
| "pool_exec G (EvEnd i out) p = worker_end G i out p"
| "pool_exec G (EvRelease i) p = worker_release i p"
| "pool_exec G EvExit p = worker_exit p"
| "pool_exec G EvStop p = stop_close p"
| "pool_exec G EvStopped p = stop_wait p"
| "pool_exec G (EvSetGate on) p = Some (set_gate_enabled G on p)"

inductive pool_step :: "('env, 'g, 't) gate_ops \<Rightarrow> ('g, 't) pool \<Rightarrow> ('g, 't) pool \<Rightarrow> bool" for G where
  pool_stepI: "pool_exec G ev p = Some q \<Longrightarrow> pool_step G p q"

inductive_cases pool_stepE: "pool_step G p q"

lemmas submit_defs = submit_gate_def submit_acquire_def submit_no_slot_def submit_enter_def
  submit_count_def gate_allow_def returns_def call_done_def
lemmas worker_defs = worker_take_def worker_begin_def worker_end_def worker_release_def
  worker_exit_def
lemmas stop_defs = stop_close_def stop_wait_def set_gate_enabled_def
lemmas pool_defs = submit_defs worker_defs stop_defs


subsection \<open>The invariant\<close>

text \<open>
  \<open>slots_inv\<close>: a semaphore token for each submission between its acquisition and the
  release after its task, a goroutine for each worker, and the counters that mirror them.
  \<open>ids_inv\<close>: where each submission is, what it returned and whether its gate
  callback was called.
\<close>

definition in_flight :: "('g, 't) pool \<Rightarrow> nat multiset" where
  "in_flight p = holding p + mset (tasks p) + taken p + running p + finished p"

definition sent :: "('g, 't) pool \<Rightarrow> nat multiset" where
  "sent p = mset (tasks p) + taken p + running p + finished p + completed p"

definition slots_inv :: "('g, 't) pool \<Rightarrow> bool" where
  "slots_inv p \<longleftrightarrow>
     sem p = size (in_flight p) \<and> sem p \<le> capacity p \<and>
     idle p + size (taken p) + size (running p) + size (finished p) + exited p = n_workers p \<and>
     active p = int (size (running p)) \<and>
     accepted p + int (size (counting p)) = int (size (sent p)) \<and>
     1 \<le> n_workers p \<and> n_workers p \<le> capacity p \<and>
     chan_closed p = closed p \<and> stopping p = closed p \<and>
     (0 < exited p \<longrightarrow> closed p \<and> tasks p = []) \<and>
     (closed p \<longrightarrow> counting p = {#}) \<and>
     (stop_returned p \<longrightarrow> closed p \<and> exited p = n_workers p)"

definition result_ids :: "(submit_error option \<Rightarrow> bool) \<Rightarrow> ('g, 't) pool \<Rightarrow> nat multiset" where
  "result_ids P p = image_mset fst (filter_mset (\<lambda>x. P (snd x)) (results p))"

definition done_ids :: "('g, 't) pool \<Rightarrow> nat multiset" where
  "done_ids p = image_mset fst (dones p)"

definition is_shed :: "submit_error option \<Rightarrow> bool" where
  "is_shed r \<longleftrightarrow> r = Some ErrOverloaded \<or> r = Some ErrQueueFull \<or> r = Some ErrQueueTimeout"

definition ids_inv :: "('g, 't) pool \<Rightarrow> bool" where
  "ids_inv p \<longleftrightarrow>
     submitted p = asking p + holding p + sent p + result_ids (\<lambda>r. r \<noteq> None) p \<and>
     sent p = result_ids (\<lambda>r. r = None) p + counting p \<and>
     done_ids p = finished p + completed p
       + result_ids (\<lambda>r. r \<noteq> None \<and> r \<noteq> Some ErrOverloaded) p \<and>
     rejected p = int (size (result_ids is_shed p))"

definition unique_inv :: "('g, 't) pool \<Rightarrow> bool" where
  "unique_inv p \<longleftrightarrow> (\<forall>i. count (submitted p) i \<le> 1)"

definition pool_inv :: "('g, 't) pool \<Rightarrow> bool" where
  "pool_inv p \<longleftrightarrow> slots_inv p \<and> ids_inv p \<and> unique_inv p"

lemmas ids_defs = ids_inv_def result_ids_def done_ids_def sent_def is_shed_def
lemmas slots_defs = slots_inv_def in_flight_def sent_def

lemma new_pool_inv: "pool_inv (new_pool cfg)"
  by (auto simp: pool_inv_def slots_defs ids_defs unique_inv_def new_pool_def Let_def nat_add_distrib)

text \<open>Taking an element out of a multiset it is in.\<close>

lemma member_splitE:
  assumes "x \<in># M"
  obtains N where "M = add_mset x N"
  using assms by (auto dest: multi_member_split)

text \<open>What the callbacks and the results touch is outside the slots.\<close>

lemma slots_frame [simp]:
  "slots_inv (call_done G i b p) = slots_inv p"
  "slots_inv (returns i r p) = slots_inv p"
  "slots_inv (p\<lparr>rejected := x\<rparr>) = slots_inv p"
  "slots_inv (p\<lparr>asking := a\<rparr>) = slots_inv p"
  "slots_inv (p\<lparr>submitted := m\<rparr>) = slots_inv p"
  "slots_inv (set_gate_enabled G on p) = slots_inv p"
  by (simp_all add: slots_defs call_done_def returns_def set_gate_enabled_def)

lemma gate_allow_slots: "slots_inv (snd (gate_allow G e i p)) = slots_inv p"
  by (simp add: gate_allow_def slots_defs split: option.split prod.split)

lemma submit_gate_slots: "slots_inv p \<Longrightarrow> slots_inv (submit_gate G e i p)"
  by (auto simp: submit_gate_def Let_def split: prod.split bool.split
      dest: arg_cong [where f = "\<lambda>r. slots_inv (snd r)"] simp: gate_allow_slots)

lemma submit_acquire_slots: "slots_inv p \<Longrightarrow> submit_acquire i p = Some q \<Longrightarrow> slots_inv q"
  unfolding submit_acquire_def slots_defs by (clarsimp split: if_splits)

lemma submit_no_slot_slots: "slots_inv p \<Longrightarrow> submit_no_slot G i p = Some q \<Longrightarrow> slots_inv q"
  by (auto simp: submit_no_slot_def Let_def split: if_split_asm)

lemma submit_enter_slots:
  assumes "slots_inv p" and "submit_enter G i p = Some q"
  shows "slots_inv q"
proof -
  from assms(2) have "i \<in># holding p" by (auto simp: submit_enter_def split: if_splits)
  then obtain H where H: "holding p = add_mset i H" by (rule member_splitE)
  have "slots_inv (p\<lparr>holding := holding p - {#i#}, sem := sem p - 1\<rparr>)" if "closed p"
    using assms(1) that unfolding slots_defs H by auto
  moreover have "slots_inv (p\<lparr>holding := holding p - {#i#}, tasks := tasks p @ [i],
      counting := add_mset i (counting p)\<rparr>)" if "\<not> closed p"
    using assms(1) that unfolding slots_defs H by auto
  ultimately show ?thesis using assms(2)
    by (auto simp: submit_enter_def split: if_split_asm)
qed

lemma submit_count_slots:
  assumes "slots_inv p" and "submit_count i p = Some q"
  shows "slots_inv q"
proof -
  from assms(2) have i: "i \<in># counting p" by (auto simp: submit_count_def split: if_splits)
  then obtain C where "counting p = add_mset i C" by (rule member_splitE)
  with assms(1) have "slots_inv (p\<lparr>counting := counting p - {#i#}, accepted := accepted p + 1\<rparr>)"
    unfolding slots_defs by auto
  with assms(2) i show ?thesis by (auto simp: submit_count_def)
qed

lemma worker_take_slots: "slots_inv p \<Longrightarrow> worker_take p = Some q \<Longrightarrow> slots_inv q"
  unfolding worker_take_def slots_defs by (clarsimp split: list.splits if_splits)

lemma worker_begin_slots:
  assumes "slots_inv p" and "worker_begin i p = Some q"
  shows "slots_inv q"
proof -
  from assms(2) have "i \<in># taken p" by (auto simp: worker_begin_def split: if_splits)
  then obtain T where "taken p = add_mset i T" by (rule member_splitE)
  with assms show ?thesis unfolding worker_begin_def slots_defs by clarsimp
qed

lemma worker_end_slots:
  assumes "slots_inv p" and "worker_end G i out p = Some q"
  shows "slots_inv q"
proof -
  from assms(2) have i: "i \<in># running p" by (auto simp: worker_end_def split: if_splits)
  then obtain R where "running p = add_mset i R" by (rule member_splitE)
  with assms(1) have "slots_inv (p\<lparr>running := running p - {#i#},
      finished := add_mset i (finished p), active := active p - 1\<rparr>)"
    unfolding slots_defs by clarsimp
  with assms(2) i show ?thesis by (auto simp: worker_end_def)
qed

lemma worker_release_slots:
  assumes "slots_inv p" and "worker_release i p = Some q"
  shows "slots_inv q"
proof -
  from assms(2) have "i \<in># finished p" by (auto simp: worker_release_def split: if_splits)
  then obtain F where "finished p = add_mset i F" by (rule member_splitE)
  with assms show ?thesis unfolding worker_release_def slots_defs by clarsimp
qed

lemma worker_exit_slots: "slots_inv p \<Longrightarrow> worker_exit p = Some q \<Longrightarrow> slots_inv q"
  unfolding worker_exit_def slots_defs by (clarsimp split: if_splits)

lemma stop_slots:
  "slots_inv p \<Longrightarrow> stop_close p = Some q \<Longrightarrow> slots_inv q"
  "slots_inv p \<Longrightarrow> stop_wait p = Some q \<Longrightarrow> slots_inv q"
  "slots_inv p \<Longrightarrow> slots_inv (set_gate_enabled G on p)"
  unfolding stop_close_def stop_wait_def slots_defs
  by (clarsimp split: if_splits)+ (simp add: set_gate_enabled_def)

lemmas step_slots = submit_gate_slots submit_acquire_slots submit_no_slot_slots
  submit_enter_slots submit_count_slots worker_take_slots worker_begin_slots worker_end_slots
  worker_release_slots worker_exit_slots stop_slots

lemma pool_exec_slots: "slots_inv p \<Longrightarrow> pool_exec G ev p = Some q \<Longrightarrow> slots_inv q"
  by (cases ev) (auto intro: step_slots split: if_splits)

lemma submit_gate_ids: "ids_inv p \<Longrightarrow> ids_inv (submit_gate G e i p)"
  by (auto simp: submit_gate_def gate_allow_def returns_def ids_defs Let_def
      split: option.split prod.split bool.split)

lemma submit_acquire_ids:
  assumes "ids_inv p" and "submit_acquire i p = Some q"
  shows "ids_inv q"
proof -
  from assms(2) have "i \<in># asking p" by (auto simp: submit_acquire_def split: if_splits)
  then obtain A where "asking p = add_mset i A" by (rule member_splitE)
  with assms show ?thesis by (auto simp: submit_acquire_def ids_defs ac_simps split: if_splits)
qed

lemma submit_no_slot_ids:
  assumes "ids_inv p" and "submit_no_slot G i p = Some q"
  shows "ids_inv q"
proof -
  from assms(2) have "i \<in># asking p" by (auto simp: submit_no_slot_def split: if_splits)
  then obtain A where "asking p = add_mset i A" by (rule member_splitE)
  with assms show ?thesis
    by (auto simp: submit_no_slot_def returns_def call_done_def ids_defs ac_simps Let_def split: if_splits)
qed

lemma submit_enter_ids:
  assumes "ids_inv p" and "submit_enter G i p = Some q"
  shows "ids_inv q"
proof -
  from assms(2) have "i \<in># holding p" by (auto simp: submit_enter_def split: if_splits)
  then obtain H where "holding p = add_mset i H" by (rule member_splitE)
  with assms show ?thesis
    by (auto simp: submit_enter_def returns_def call_done_def ids_defs ac_simps split: if_splits)
qed

lemma submit_count_ids:
  assumes "ids_inv p" and "submit_count i p = Some q"
  shows "ids_inv q"
proof -
  from assms(2) have "i \<in># counting p" by (auto simp: submit_count_def split: if_splits)
  then obtain C where "counting p = add_mset i C" by (rule member_splitE)
  with assms show ?thesis by (auto simp: submit_count_def returns_def ids_defs ac_simps)
qed

lemma worker_take_ids: "ids_inv p \<Longrightarrow> worker_take p = Some q \<Longrightarrow> ids_inv q"
  by (auto simp: worker_take_def ids_defs ac_simps split: list.splits if_splits)

lemma worker_begin_ids:
  assumes "ids_inv p" and "worker_begin i p = Some q"
  shows "ids_inv q"
proof -
  from assms(2) have "i \<in># taken p" by (auto simp: worker_begin_def split: if_splits)
  then obtain T where "taken p = add_mset i T" by (rule member_splitE)
  with assms show ?thesis by (auto simp: worker_begin_def ids_defs ac_simps)
qed

lemma worker_end_ids:
  assumes "ids_inv p" and "worker_end G i out p = Some q"
  shows "ids_inv q"
proof -
  from assms(2) have "i \<in># running p" by (auto simp: worker_end_def split: if_splits)
  then obtain R where "running p = add_mset i R" by (rule member_splitE)
  with assms show ?thesis by (auto simp: worker_end_def call_done_def ids_defs ac_simps)
qed

lemma worker_release_ids:
  assumes "ids_inv p" and "worker_release i p = Some q"
  shows "ids_inv q"
proof -
  from assms(2) have "i \<in># finished p" by (auto simp: worker_release_def split: if_splits)
  then obtain F where "finished p = add_mset i F" by (rule member_splitE)
  with assms show ?thesis by (auto simp: worker_release_def ids_defs ac_simps)
qed

lemma worker_exit_ids: "ids_inv p \<Longrightarrow> worker_exit p = Some q \<Longrightarrow> ids_inv q"
  by (auto simp: worker_exit_def ids_defs ac_simps split: if_splits)

lemma stop_ids:
  "ids_inv p \<Longrightarrow> stop_close p = Some q \<Longrightarrow> ids_inv q"
  "ids_inv p \<Longrightarrow> stop_wait p = Some q \<Longrightarrow> ids_inv q"
  "ids_inv p \<Longrightarrow> ids_inv (set_gate_enabled G on p)"
  by (auto simp: stop_defs ids_defs split: if_splits)

lemmas step_ids = submit_gate_ids submit_acquire_ids submit_no_slot_ids submit_enter_ids
  submit_count_ids worker_take_ids worker_begin_ids worker_end_ids worker_release_ids
  worker_exit_ids stop_ids

lemma pool_exec_ids: "ids_inv p \<Longrightarrow> pool_exec G ev p = Some q \<Longrightarrow> ids_inv q"
  by (cases ev) (auto intro: step_ids split: if_splits)

lemma submitted_frame:
  "submit_acquire i p = Some q \<Longrightarrow> submitted q = submitted p"
  "submit_no_slot G i p = Some q \<Longrightarrow> submitted q = submitted p"
  "submit_enter G i p = Some q \<Longrightarrow> submitted q = submitted p"
  "submit_count i p = Some q \<Longrightarrow> submitted q = submitted p"
  "worker_take p = Some q \<Longrightarrow> submitted q = submitted p"
  "worker_begin i p = Some q \<Longrightarrow> submitted q = submitted p"
  "worker_end G i out p = Some q \<Longrightarrow> submitted q = submitted p"
  "worker_release i p = Some q \<Longrightarrow> submitted q = submitted p"
  "worker_exit p = Some q \<Longrightarrow> submitted q = submitted p"
  "stop_close p = Some q \<Longrightarrow> submitted q = submitted p"
  "stop_wait p = Some q \<Longrightarrow> submitted q = submitted p"
  "submitted (set_gate_enabled G on p) = submitted p"
  by (auto simp: pool_defs Let_def split: if_splits list.splits)

lemma submit_gate_submitted: "submitted (submit_gate G e i p) = add_mset i (submitted p)"
  by (simp add: submit_gate_def gate_allow_def returns_def Let_def
      split: option.split prod.split bool.split)

lemma pool_exec_unique: "unique_inv p \<Longrightarrow> pool_exec G ev p = Some q \<Longrightarrow> unique_inv q"
  by (cases ev)
    (auto simp: unique_inv_def submitted_frame submit_gate_submitted not_in_iff split: if_splits)

lemma pool_step_inv: "pool_inv p \<Longrightarrow> pool_step G p q \<Longrightarrow> pool_inv q"
  by (auto simp: pool_inv_def elim!: pool_stepE intro: pool_exec_slots pool_exec_ids
      pool_exec_unique)

interpretation pool_sys: transition_system "new_pool cfg" "pool_step G" pool_inv
  for cfg G
  by unfold_locales (auto intro: new_pool_inv pool_step_inv)


subsection \<open>SubmitWait and the HTTP handler\<close>

text \<open>
  \<open>SubmitWait\<close> returns the error of its submission, or nil once the task has closed
  the channel it waits on, which the task does before it reports to the gate.
\<close>

definition submit_wait_returns :: "nat \<Rightarrow> submit_error option \<Rightarrow> ('g, 't) pool \<Rightarrow> bool" where
  "submit_wait_returns i r p \<longleftrightarrow>
     (i, r) \<in># results p \<and> (r \<noteq> None \<or> i \<in># finished p + completed p)"

text \<open>
  The middleware submits a closure that serves the request through a \<open>codeWriter\<close>,
  recovers a panic into a failure, and otherwise succeeds below status 500. The outer
  handler answers 503 when the submission failed and re-raises a recovered panic.
\<close>

definition handler_task :: "'p handler_run \<Rightarrow> task_outcome" where
  "handler_task h =
     Ret (if panics h \<noteq> None then False else cw_code (serve h []) < StatusInternalServerError)"

definition pool_handler ::
  "submit_error option \<Rightarrow> 'p handler_run \<Rightarrow> http_call list \<times> 'p option" where
  "pool_handler err h =
     (if err \<noteq> None then (shed_response, None) else (cw_inner (serve h []), panics h))"

subsection \<open>Facts of every reachable pool\<close>

abbreviation pool_reach ::
  "'g config \<Rightarrow> ('env, 'g + cpu_gate, 't) gate_ops \<Rightarrow> ('g + cpu_gate, 't) pool \<Rightarrow> bool" where
  "pool_reach cfg G \<equiv> reach (new_pool cfg) (pool_step G)"

lemma reach_slots: "pool_reach cfg G p \<Longrightarrow> slots_inv p"
  and reach_ids: "pool_reach cfg G p \<Longrightarrow> ids_inv p"
  and reach_unique: "pool_reach cfg G p \<Longrightarrow> unique_inv p"
  using pool_sys.inv_reach by (auto simp: pool_inv_def)

lemma count_result_ids_mono:
  "(\<And>r. P r \<Longrightarrow> Q r) \<Longrightarrow> count (result_ids P p) i \<le> count (result_ids Q p) i"
  unfolding result_ids_def
  by (intro mset_subset_eq_count image_mset_subseteq_mono filter_mset_mono_strong) simp_all

lemma result_ids_member: "i \<in># result_ids P p \<longleftrightarrow> (\<exists>r. (i, r) \<in># results p \<and> P r)"
  by (force simp: result_ids_def)

text \<open>Each submission is in one place at most, counting a failed return as a place.\<close>

lemma reach_one_place:
  assumes "pool_reach cfg G p"
  shows "count (asking p + holding p + sent p + result_ids (\<lambda>r. r \<noteq> None) p) i \<le> 1"
  using reach_ids [OF assms] reach_unique [OF assms]
  by (simp only: ids_inv_def unique_inv_def)

lemma reach_done_count:
  assumes "pool_reach cfg G p"
  shows "count (done_ids p) i = count (finished p + completed p) i
    + count (result_ids (\<lambda>r. r \<noteq> None \<and> r \<noteq> Some ErrOverloaded) p) i"
  using reach_ids [OF assms] by (simp add: ids_inv_def)

lemma reach_capacity:
  "pool_reach cfg G p \<Longrightarrow> capacity p = capacity (new_pool cfg) \<and> n_workers p = n_workers (new_pool cfg)
    \<and> max_wait p = MaxWait cfg"
proof (induction rule: reach.induct)
  case (reach_step s t)
  from reach_step.hyps(2) obtain ev where "pool_exec G ev s = Some t" by (auto elim: pool_stepE)
  then have "capacity t = capacity s \<and> n_workers t = n_workers s \<and> max_wait t = max_wait s"
    by (cases ev)
      (auto simp: pool_defs Let_def split: if_split_asm list.splits option.splits prod.splits)
  with reach_step.IH show ?case by simp
qed (simp add: new_pool_def Let_def)


subsection \<open>Properties of the pool\<close>

text \<open>
  C1. The gate contract "done exactly once": in every reachable state, the gate callback of
  submission \<open>i\<close> has been called once if its task has run or its submission failed
  past the gate, and not at all otherwise; never twice.
\<close>

theorem pool_done_exactly_once:
  assumes "reach (new_pool cfg) (pool_step G) p"
  shows "count (done_ids p) i =
    (if i \<in># finished p + completed p
        \<or> (\<exists>err. (i, Some err) \<in># results p \<and> err \<noteq> ErrOverloaded) then 1 else 0)"
proof -
  let ?R = "result_ids (\<lambda>r. r \<noteq> None \<and> r \<noteq> Some ErrOverloaded) p"
  have le: "count (finished p + completed p) i + count ?R i \<le> 1"
    using reach_one_place [OF assms, of i]
      count_result_ids_mono [of "\<lambda>r. r \<noteq> None \<and> r \<noteq> Some ErrOverloaded" "\<lambda>r. r \<noteq> None" p i]
    by (simp add: sent_def)
  have r: "i \<in># ?R \<longleftrightarrow> (\<exists>err. (i, Some err) \<in># results p \<and> err \<noteq> ErrOverloaded)"
    by (auto simp: result_ids_member)
  show ?thesis
  proof (cases "i \<in># finished p + completed p \<or> i \<in># ?R")
    case True
    then have "1 \<le> count (finished p + completed p) i + count ?R i"
      by (metis One_nat_def Suc_leI add_gr_0 count_greater_zero_iff)
    with le True r show ?thesis by (simp add: reach_done_count [OF assms])
  next
    case False
    then have "count (finished p + completed p) i = 0" "count ?R i = 0"
      by (meson not_in_iff)+
    with False r show ?thesis by (simp add: reach_done_count [OF assms])
  qed
qed

text \<open>
  C25. A submitter that holds a slot and finds the pool open always sends: the channel is not
  closed (the send cannot panic) and not full (it cannot block), as the comment
  "cap(tasks) == cap(sem) and we hold a token" claims.
\<close>

theorem pool_send_never_blocks:
  assumes "reach (new_pool cfg) (pool_step G) p" and "i \<in># holding p" and "\<not> closed p"
  shows "\<not> send_panics i p \<and> (\<exists>q. submit_enter G i p = Some q \<and> tasks q = tasks p @ [i])"
proof -
  note inv = reach_slots [OF assms(1), unfolded slots_inv_def]
  obtain H where H: "holding p = add_mset i H" using assms(2) by (rule member_splitE)
  have "length (tasks p) < capacity p" using inv by (simp add: in_flight_def H)
  moreover have "\<not> chan_closed p" using inv assms(3) by simp
  ultimately show ?thesis using assms(2,3) by (simp add: send_panics_def submit_enter_def)
qed

text \<open>
  C23. The budget: at most \<open>Workers + QueueCapacity\<close> submissions are between their slot
  and the end of their task, at most \<open>Workers\<close> of them run, and \<open>Active\<close> counts
  exactly those.
\<close>

theorem pool_budget:
  assumes "reach (new_pool cfg) (pool_step G) p"
  shows "int (size (in_flight p)) \<le> max 1 (Workers cfg) + max 0 (QueueCapacity cfg)
    \<and> active p = int (size (running p))
    \<and> int (size (taken p) + size (running p) + size (finished p)) \<le> max 1 (Workers cfg)"
proof -
  note inv = reach_slots [OF assms, unfolded slots_inv_def]
  note cap = reach_capacity [OF assms]
  have c: "int (capacity p) = max 1 (Workers cfg) + max 0 (QueueCapacity cfg)"
    "int (n_workers p) = max 1 (Workers cfg)"
    using cap by (auto simp: new_pool_def Let_def)
  have "size (in_flight p) \<le> capacity p"
    and "size (taken p) + size (running p) + size (finished p) \<le> n_workers p"
    using inv by linarith+
  then show ?thesis using inv c by (intro conjI) linarith+
qed

text \<open>
  A rejected submission's task never runs: once \<open>Submit\<close> has returned an error for
  \<open>i\<close>, its task is in no queue and with no worker, now or in any later state.
\<close>

theorem pool_rejected_never_runs:
  assumes "reach (new_pool cfg) (pool_step G) p" and "(i, Some err) \<in># results p"
    and "reach p (pool_step G) q"
  shows "i \<notin># sent q"
proof -
  have q: "reach (new_pool cfg) (pool_step G) q" using assms(3,1) by (rule reach_trans)
  have "(i, Some err) \<in># results q"
    using assms(3,2)
  proof (induction rule: reach.induct)
    case (reach_step s t)
    then obtain ev where "pool_exec G ev s = Some t" by (auto elim: pool_stepE)
    with reach_step.IH [OF reach_step.prems] show ?case
      by (cases ev)
        (auto simp: pool_defs Let_def split: if_split_asm list.splits option.splits prod.splits
          bool.splits)
  qed
  then have "i \<in># result_ids (\<lambda>r. r \<noteq> None) q" by (auto simp: result_ids_member)
  then have "0 < count (result_ids (\<lambda>r. r \<noteq> None) q) i"
    by (rule count_greater_zero_iff [THEN iffD2])
  then have "count (sent q) i = 0"
    using reach_one_place [OF q, of i] unfolding count_union by linarith
  then show ?thesis by (simp add: not_in_iff)
qed


subsection \<open>Stopping\<close>

fun run_events ::
  "('env, 'g, 't) gate_ops \<Rightarrow> 'env pool_event list \<Rightarrow> ('g, 't) pool \<Rightarrow> ('g, 't) pool option" where
  "run_events G [] p = Some p"
| "run_events G (ev # evs) p =
     (case pool_exec G ev p of None \<Rightarrow> None | Some q \<Rightarrow> run_events G evs q)"

lemma run_events_reach: "run_events G evs p = Some q \<Longrightarrow> reach p (pool_step G) q"
proof (induction evs arbitrary: p)
  case (Cons ev evs)
  then obtain r where r: "pool_exec G ev p = Some r" "run_events G evs r = Some q"
    by (auto split: option.splits)
  have "reach p (pool_step G) r"
    using r(1) by (auto intro: reach.intros pool_stepI)
  with Cons.IH [OF r(2)] show ?case by (rule reach_trans)
qed (simp add: reach.intros)

text \<open>
  The steps the pool and the goroutines already in it take by themselves: everything but a
  new call of \<open>Submit\<close>, \<open>SetGateEnabled\<close> or the return of \<open>Stop\<close>. \<open>work\<close>
  bounds how many of them are left.
\<close>

fun internal :: "'env pool_event \<Rightarrow> bool" where
  "internal (EvSubmit _ _) = False"
| "internal (EvSetGate _) = False"
| "internal EvStopped = False"
| "internal _ = True"

definition work :: "('g, 't) pool \<Rightarrow> nat" where
  "work p = 7 * size (asking p) + 6 * size (holding p) + 4 * length (tasks p) + size (counting p)
     + 3 * size (taken p) + 2 * size (running p) + size (finished p)
     + (n_workers p - exited p) + (if stopping p then 0 else 1)"

lemma work_call_done [simp]: "work (call_done G i b p) = work p"
  and work_returns [simp]: "work (returns i r p) = work p"
  and work_rejected [simp]: "work (p\<lparr>rejected := x\<rparr>) = work p"
  by (simp_all add: work_def call_done_def returns_def)

lemma work_decreases:
  assumes "slots_inv p" and "internal ev" and "pool_exec G ev p = Some q"
  shows "work q < work p"
proof (cases ev)
  case (EvAcquire i)
  with assms show ?thesis
    by (auto simp: submit_acquire_def work_def split: if_split_asm elim!: member_splitE)
next
  case (EvNoSlot i)
  with assms show ?thesis
    by (auto simp: submit_no_slot_def Let_def split: if_split_asm) (auto simp: work_def elim!: member_splitE)
next
  case (EvEnter i)
  with assms show ?thesis
    by (auto simp: submit_enter_def split: if_split_asm) (auto simp: work_def elim!: member_splitE)
next
  case (EvCount i)
  with assms show ?thesis
    by (auto simp: submit_count_def split: if_split_asm) (auto simp: work_def elim!: member_splitE)
next
  case (EvBegin i)
  with assms show ?thesis by (auto simp: worker_begin_def work_def split: if_split_asm elim!: member_splitE)
next
  case (EvEnd i out)
  with assms show ?thesis
    by (auto simp: worker_end_def split: if_split_asm) (auto simp: work_def elim!: member_splitE)
next
  case (EvRelease i)
  with assms show ?thesis by (auto simp: worker_release_def work_def split: if_split_asm elim!: member_splitE)
next
  case EvExit
  with assms show ?thesis by (auto simp: worker_exit_def work_def slots_inv_def split: if_split_asm)
next
  case EvTake
  with assms show ?thesis by (auto simp: worker_take_def work_def split: if_split_asm list.splits)
next
  case EvStop
  with assms show ?thesis by (auto simp: stop_close_def work_def split: if_split_asm)
qed (use assms in simp_all)

text \<open>Progress: a closed pool with work left, or a worker left, has an internal step.\<close>

lemma closed_progress:
  fixes G :: "('env, 'g, 't) gate_ops"
  assumes inv: "slots_inv p" and closed: "closed p"
    and left: "asking p \<noteq> {#} \<or> exited p < n_workers p \<or> holding p \<noteq> {#}"
  shows "\<exists>(ev :: 'env pool_event) q. internal ev \<and> pool_exec G ev p = Some q"
proof -
  note inv' = inv [unfolded slots_inv_def]
  consider i where "i \<in># asking p" | i where "i \<in># holding p" | i where "i \<in># taken p"
    | i where "i \<in># running p" | i where "i \<in># finished p"
    | "asking p = {#}" "holding p = {#}" "taken p = {#}" "running p = {#}" "finished p = {#}"
    by (meson multiset_nonemptyE)
  then show ?thesis
  proof cases
    case (1 i)
    then have "internal (EvAcquire i :: 'env pool_event) \<and> pool_exec G (EvAcquire i) p \<noteq> None
      \<or> internal (EvNoSlot i :: 'env pool_event) \<and> pool_exec G (EvNoSlot i) p \<noteq> None"
      using inv' by (auto simp: submit_acquire_def submit_no_slot_def Let_def)
    then show ?thesis by blast
  next
    case (2 i)
    then have "pool_exec G (EvEnter i) p \<noteq> None" using closed by (simp add: submit_enter_def)
    then show ?thesis by (metis internal.simps(6) not_None_eq)
  next
    case (3 i)
    then have "pool_exec G (EvBegin i) p \<noteq> None" by (simp add: worker_begin_def)
    then show ?thesis by (metis internal.simps(9) not_None_eq)
  next
    case (4 i)
    then have "pool_exec G (EvEnd i (Ret True)) p \<noteq> None" by (simp add: worker_end_def)
    then show ?thesis by (metis internal.simps(10) not_None_eq)
  next
    case (5 i)
    then have "pool_exec G (EvRelease i) p \<noteq> None" by (simp add: worker_release_def)
    then show ?thesis by (metis internal.simps(11) not_None_eq)
  next
    case 6
    then have "0 < idle p" using left inv' by auto
    show ?thesis
    proof (cases "tasks p")
      case Nil
      then have "pool_exec G EvExit p \<noteq> None"
        using \<open>0 < idle p\<close> inv' closed by (simp add: worker_exit_def)
      then show ?thesis by (metis internal.simps(12) not_None_eq)
    next
      case (Cons i rest)
      then have "pool_exec G EvTake p \<noteq> None" using \<open>0 < idle p\<close> by (simp add: worker_take_def)
      then show ?thesis by (metis internal.simps(8) not_None_eq)
    qed
  qed
qed

lemma closed_stays: "pool_exec G ev p = Some q \<Longrightarrow> closed p \<Longrightarrow> closed q"
  by (cases ev)
    (auto simp: pool_defs Let_def split: if_split_asm list.splits option.splits prod.splits bool.splits)

text \<open>Nothing that was accepted is ever lost.\<close>

lemma sent_grows: "pool_exec G ev p = Some q \<Longrightarrow> sent p \<subseteq># sent q"
proof (cases ev)
  case (EvBegin i)
  moreover assume "pool_exec G ev p = Some q"
  ultimately show ?thesis by (auto simp: worker_begin_def sent_def split: if_split_asm elim!: member_splitE)
next
  case (EvEnd i out)
  moreover assume "pool_exec G ev p = Some q"
  ultimately show ?thesis
    by (auto simp: worker_end_def call_done_def sent_def split: if_split_asm elim!: member_splitE)
next
  case (EvRelease i)
  moreover assume "pool_exec G ev p = Some q"
  ultimately show ?thesis
    by (auto simp: worker_release_def sent_def split: if_split_asm elim!: member_splitE)
next
  case EvTake
  moreover assume "pool_exec G ev p = Some q"
  ultimately show ?thesis by (auto simp: worker_take_def sent_def split: if_split_asm list.splits)
next
  case (EvSubmit e i)
  moreover assume "pool_exec G ev p = Some q"
  ultimately show ?thesis
    by (auto simp: submit_gate_def gate_allow_def returns_def sent_def Let_def
        split: if_split_asm option.splits prod.splits bool.splits)
next
  case (EvEnter i)
  moreover assume "pool_exec G ev p = Some q"
  ultimately show ?thesis
    by (auto simp: submit_enter_def returns_def call_done_def sent_def split: if_split_asm)
qed (auto simp: pool_defs sent_def Let_def split: if_split_asm)


lemma run_events_runs_to: "run_events G evs p = runs_to (pool_exec G) evs p"
  by (induction evs arbitrary: p) (auto split: option.split)

interpretation pool_drain: draining "pool_exec G" internal "\<lambda>p. slots_inv p \<and> closed p \<and> s0 \<subseteq># sent p"
    "\<lambda>p. asking p \<noteq> {#} \<or> exited p < n_workers p \<or> holding p \<noteq> {#}" work
  for G s0
proof
  fix s :: "('b, 'c) pool" and ev t
  assume g: "slots_inv s \<and> closed s \<and> s0 \<subseteq># sent s" and e: "internal ev" "pool_exec G ev s = Some t"
  show "work t < work s" using g e by (intro work_decreases) simp_all
  show "slots_inv t \<and> closed t \<and> s0 \<subseteq># sent t"
    using g e by (auto intro: pool_exec_slots closed_stays subset_mset.order_trans [OF _ sent_grows])
qed (use closed_progress in blast)

lemma closed_runs_out:
  fixes G :: "('env, 'g, 't) gate_ops"
  assumes "slots_inv p" and "closed p"
  shows "\<exists>(evs :: 'env pool_event list) q. list_all internal evs \<and> length evs \<le> work p
    \<and> run_events G evs p = Some q \<and> exited q = n_workers q \<and> asking q = {#} \<and> holding q = {#}
    \<and> slots_inv q \<and> closed q \<and> sent p \<subseteq># sent q"
proof -
  obtain evs :: "'env pool_event list" and q where q: "list_all internal evs" "length evs \<le> work p"
    "runs_to (pool_exec G) evs p = Some q" "slots_inv q" "closed q" "sent p \<subseteq># sent q"
    "asking q = {#}" "holding q = {#}" "\<not> exited q < n_workers q"
    using pool_drain.runs_dry [of p "sent p" G] assms by auto
  moreover have "exited q \<le> n_workers q" using q(4) unfolding slots_inv_def by linarith
  ultimately show ?thesis unfolding run_events_runs_to by (intro exI [of _ evs] exI [of _ q]) simp
qed

lemma all_exited_drained:
  assumes "slots_inv p" and "exited p = n_workers p"
  shows "tasks p = []" "sent p = completed p" "active p = 0" "counting p = {#}"
    "accepted p = int (size (completed p))" "sem p = size (holding p)"
proof -
  note inv = assms(1) [unfolded slots_inv_def]
  have z: "size (taken p) = 0" "size (running p) = 0" "size (finished p) = 0"
    and e: "0 < exited p" using inv assms(2) by linarith+
  show t: "tasks p = []" and c: "counting p = {#}" using inv e by blast+
  show s: "sent p = completed p" using z t by (simp add: sent_def)
  show "active p = 0" using inv z by simp
  show "accepted p = int (size (completed p))" using inv s c by simp
  show "sem p = size (holding p)" using inv z t by (simp add: in_flight_def)
qed

text \<open>
  \<open>Stop\<close> drains: when it has returned, no task is queued or running, and every
  submission \<open>Submit\<close> accepted has had its task run to the end.
\<close>

theorem pool_stop_drains:
  assumes "reach (new_pool cfg) (pool_step G) p" and "stop_returned p"
  shows "tasks p = [] \<and> running p = {#} \<and> accepted p = int (size (completed p))
    \<and> (\<forall>i. (i, None) \<in># results p \<longrightarrow> i \<in># completed p)"
proof -
  note inv = reach_slots [OF assms(1)]
  have e: "exited p = n_workers p" using inv assms(2) unfolding slots_inv_def by blast
  note d = all_exited_drained [OF inv e]
  have "running p = {#}" using d(3) inv unfolding slots_inv_def by simp
  moreover have "i \<in># completed p" if "(i, None) \<in># results p" for i
  proof -
    have "i \<in># result_ids (\<lambda>r. r = None) p" using that by (auto simp: result_ids_member)
    then have "i \<in># sent p" using reach_ids [OF assms(1)] unfolding ids_inv_def by simp
    then show ?thesis using d(2) by simp
  qed
  ultimately show ?thesis using d by simp
qed

text \<open>
  C10. \<open>Stop\<close> returns: from every reachable state of a closed pool, any sequence of the
  pool's own steps is shorter than \<open>work\<close> and, as long as something is left, can be
  continued; a complete one lets \<open>Stop\<close> return with every accepted task completed.
\<close>

theorem pool_stop_terminates:
  fixes G :: "('env, 'g + cpu_gate, 't) gate_ops"
  assumes "reach (new_pool cfg) (pool_step G) p" and "closed p"
  shows "(\<forall>(ev :: 'env pool_event) q. internal ev \<and> pool_exec G ev p = Some q \<longrightarrow> work q < work p)
    \<and> (\<exists>(evs :: 'env pool_event list) q. list_all internal evs \<and> length evs \<le> work p
         \<and> run_events G evs p = Some q \<and> stop_wait q \<noteq> None \<and> completed q = sent q
         \<and> sent p \<subseteq># completed q)"
proof (intro conjI allI impI)
  fix ev :: "'env pool_event" and q
  assume "internal ev \<and> pool_exec G ev p = Some q"
  then show "work q < work p" using work_decreases [OF reach_slots [OF assms(1)]] by blast
next
  from closed_runs_out [OF reach_slots [OF assms(1)] assms(2), of G]
  obtain evs :: "'env pool_event list" and q
    where q: "list_all internal evs" "length evs \<le> work p" "run_events G evs p = Some q"
      "exited q = n_workers q" "slots_inv q" "closed q" "sent p \<subseteq># sent q" by blast
  have "stop_wait q \<noteq> None" using q(4-6) by (simp add: stop_wait_def slots_inv_def)
  moreover have "completed q = sent q" using all_exited_drained(2) [OF q(5,4)] by simp
  ultimately show "\<exists>(evs :: 'env pool_event list) q. list_all internal evs \<and> length evs \<le> work p
         \<and> run_events G evs p = Some q \<and> stop_wait q \<noteq> None \<and> completed q = sent q
         \<and> sent p \<subseteq># completed q"
    using q by (intro exI [of _ evs] exI [of _ q]) simp
qed

text \<open>
  C31. The middleware: a request whose submission failed gets 503 and nothing of the
  downstream handler. Otherwise a panic of the handler is re-raised, every header change and
  every write of it reaches the underlying writer, in order and nothing else but a status, and
  for a handler that sends no informational (1xx) response the client gets the response the
  handler gives, its headers, status and body, and the gate is told "success" exactly when
  there was no panic and this status is below 500.
\<close>

theorem pool_handler_correct:
  "(err \<noteq> None \<longrightarrow> pool_handler err h = (shed_response, None)
       \<and> client_response (fst (pool_handler err h)) = ([(''Connection'', ''close'')], StatusServiceUnavailable, []))
   \<and> (err = None \<longrightarrow> snd (pool_handler err h) = panics h
       \<and> filter no_status (fst (pool_handler err h)) = filter no_status (calls h)
       \<and> ((\<forall>c \<in> set (calls h). \<not> informational c) \<longrightarrow>
            client_response (fst (pool_handler err h)) = client_response (calls h)
            \<and> (outcome_success (handler_task h)
                \<longleftrightarrow> panics h = None \<and> status_of (calls h) < StatusInternalServerError)))"
  using serve_code [of h] serve_transparent [of h] serve_passes [of h]
  by (auto simp: pool_handler_def handler_task_def outcome_success_def client_response_def shed_response_def)

subsection \<open>Witnesses\<close>

text \<open>
  One worker, one queue place and a static gate at 900 millicpu; submission 0 runs, 1 is
  rejected by the gate, 2 waits in the queue, 3 finds no slot, and the pool stops.
\<close>

definition demo_cfg :: "cpu_gate config" where
  "demo_cfg = \<lparr>Workers = 1, QueueCapacity = 1, MaxWait = 0, CpuThreshold = 900, Gate = None\<rparr>"

definition demo_ops :: "(int \<times> int, cpu_gate + cpu_gate, unit + unit) gate_ops" where
  "demo_ops = sum_ops cpu_ops"

definition demo_busy :: "(int \<times> int) pool_event list" where
  "demo_busy = [EvSubmit (0, 100) 0, EvAcquire 0, EvEnter 0, EvCount 0, EvTake, EvBegin 0,
     EvSubmit (0, 950) 1, EvSubmit (0, 100) 2, EvAcquire 2, EvSubmit (0, 100) 3, EvNoSlot 3]"

definition demo_stop :: "(int \<times> int) pool_event list" where
  "demo_stop = demo_busy @ [EvEnter 2, EvCount 2, EvStop, EvEnd 0 (Ret True), EvRelease 0, EvTake, EvBegin 2,
     EvEnd 2 Panics, EvRelease 2, EvExit, EvStopped]"

lemmas demo_defs = demo_cfg_def demo_ops_def demo_busy_def demo_stop_def new_pool_def gate_for_def
  new_cpu_threshold_gate_def sum_ops_def cpu_gate_defs pool_defs Let_def

lemma demo_busy_run:
  "\<exists>p. run_events demo_ops demo_busy (new_pool demo_cfg) = Some p \<and> 2 \<in># holding p
     \<and> \<not> closed p \<and> (3, Some ErrQueueFull) \<in># results p \<and> running p = {#0#}"
  by (simp add: demo_defs)

lemma demo_stop_run:
  "\<exists>p. run_events demo_ops demo_stop (new_pool demo_cfg) = Some p \<and> stop_returned p
     \<and> completed p = {#0, 2#} \<and> closed p"
  by (simp add: demo_defs outcome_success_def)


lemma demo_busy_reach:
  obtains p where "reach (new_pool demo_cfg) (pool_step demo_ops) p" "2 \<in># holding p"
    "\<not> closed p" "(3, Some ErrQueueFull) \<in># results p" "running p = {#0#}"
  using demo_busy_run run_events_reach by blast

lemma demo_stop_reach:
  obtains p where "reach (new_pool demo_cfg) (pool_step demo_ops) p" "stop_returned p"
    "completed p = {#0, 2#}" "closed p"
  using demo_stop_run run_events_reach by blast

theorem pool_done_exactly_once_witness:
  "\<exists>p. reach (new_pool demo_cfg) (pool_step demo_ops) p \<and> count (done_ids p) 3 = 1
     \<and> (3, Some ErrQueueFull) \<in># results p"
proof -
  obtain p where p: "reach (new_pool demo_cfg) (pool_step demo_ops) p"
    "(3, Some ErrQueueFull) \<in># results p" by (rule demo_busy_reach)
  then have "count (done_ids p) 3 = 1"
    by (subst pool_done_exactly_once [OF p(1)]) auto
  with p show ?thesis by blast
qed

theorem pool_send_never_blocks_witness:
  "\<exists>p q. reach (new_pool demo_cfg) (pool_step demo_ops) p \<and> submit_enter demo_ops 2 p = Some q"
proof -
  obtain p where "reach (new_pool demo_cfg) (pool_step demo_ops) p" "2 \<in># holding p" "\<not> closed p"
    by (rule demo_busy_reach)
  then show ?thesis using pool_send_never_blocks by blast
qed

theorem pool_budget_witness:
  "\<exists>p. reach (new_pool demo_cfg) (pool_step demo_ops) p \<and> active p = 1
     \<and> int (size (in_flight p)) \<le> 2"
proof -
  obtain p where p: "reach (new_pool demo_cfg) (pool_step demo_ops) p" "running p = {#0#}"
    by (rule demo_busy_reach)
  have "max 1 (Workers demo_cfg) + max 0 (QueueCapacity demo_cfg) = 2" by (simp add: demo_cfg_def)
  with pool_budget [OF p(1)] p show ?thesis by (metis of_nat_1 size_single)
qed

theorem pool_rejected_never_runs_witness:
  "\<exists>p. reach (new_pool demo_cfg) (pool_step demo_ops) p \<and> 3 \<notin># sent p"
proof -
  obtain p where "reach (new_pool demo_cfg) (pool_step demo_ops) p"
    "(3, Some ErrQueueFull) \<in># results p" by (rule demo_busy_reach)
  then show ?thesis using pool_rejected_never_runs [OF _ _ reach_init] by blast
qed

theorem pool_stop_drains_witness:
  "\<exists>p. reach (new_pool demo_cfg) (pool_step demo_ops) p \<and> stop_returned p \<and> accepted p = 2"
proof -
  obtain p where p: "reach (new_pool demo_cfg) (pool_step demo_ops) p" "stop_returned p"
    "completed p = {#0, 2#}" by (rule demo_stop_reach)
  with pool_stop_drains [OF p(1,2)] show ?thesis by (intro exI [of _ p]) simp
qed

theorem pool_stop_terminates_witness:
  "\<exists>p (evs :: (int \<times> int) pool_event list) q. reach (new_pool demo_cfg) (pool_step demo_ops) p
     \<and> closed p \<and> run_events demo_ops evs p = Some q \<and> stop_wait q \<noteq> None"
proof -
  obtain p where p: "reach (new_pool demo_cfg) (pool_step demo_ops) p" "closed p"
    by (rule demo_stop_reach)
  with pool_stop_terminates [OF p] show ?thesis by blast
qed

theorem pool_handler_correct_witness:
  "client_response (fst (pool_handler None
       \<lparr>calls = [SetHeader ''A'' ''b'', Write ''x'', WriteHeader 404, Write ''y''], panics = None :: unit option\<rparr>))
     = ([(''A'', ''b'')], 200, ''xy'')"
  using pool_handler_correct [of None
      "\<lparr>calls = [SetHeader ''A'' ''b'', Write ''x'', WriteHeader 404, Write ''y''], panics = None :: unit option\<rparr>"]
  by (simp add: client_response_def)

end
