(* ===== verification/Executor.thy ===== *)
theory Executor
  imports Prelude "HOL-Library.Multiset"
begin

text \<open>
  What a client of the queue package is promised, whichever pool it uses: an executor that
  accepts tasks into a bounded queue, starts each accepted task once on a bounded number of
  workers, and refuses the rest. The pools of pool.go and codel.go refine it: every run of
  theirs, goroutine by goroutine, shows a run of the executor.
\<close>

subsection \<open>The executor\<close>

datatype act = Accept nat | Refuse nat | Start nat | StartNewest nat | Discard nat | Finish nat | Close

record executor =
  ex_waiting :: "nat list"        \<comment> \<open>accepted, in the order of acceptance\<close>
  ex_running :: "nat multiset"
  ex_over :: "nat multiset"       \<comment> \<open>ran to the end, or discarded\<close>
  ex_refused :: "nat multiset"
  ex_closed :: bool

definition idle_executor :: executor where
  "idle_executor = \<lparr>ex_waiting = [], ex_running = {#}, ex_over = {#}, ex_refused = {#}, ex_closed = False\<rparr>"

record executor_rules =
  x_workers :: nat
  x_queue :: nat                  \<comment> \<open>most tasks that wait\<close>
  x_budget :: nat                 \<comment> \<open>most tasks that wait or run\<close>
  x_newest :: bool                \<comment> \<open>may the newest be started first\<close>
  x_discard :: bool               \<comment> \<open>may the oldest be discarded\<close>

definition ex_fresh :: "nat \<Rightarrow> executor \<Rightarrow> bool" where
  "ex_fresh i e \<longleftrightarrow> i \<notin> set (ex_waiting e) \<and> i \<notin># ex_running e \<and> i \<notin># ex_over e \<and> i \<notin># ex_refused e"

fun exec_act :: "executor_rules \<Rightarrow> act \<Rightarrow> executor \<Rightarrow> executor option" where
  "exec_act R (Accept i) e =
     (if \<not> ex_closed e \<and> ex_fresh i e \<and> length (ex_waiting e) < x_queue R
         \<and> length (ex_waiting e) + size (ex_running e) < x_budget R
      then Some (e\<lparr>ex_waiting := ex_waiting e @ [i]\<rparr>) else None)"
| "exec_act R (Refuse i) e =
     (if ex_fresh i e then Some (e\<lparr>ex_refused := add_mset i (ex_refused e)\<rparr>) else None)"
| "exec_act R (Start i) e =
     (if ex_waiting e \<noteq> [] \<and> hd (ex_waiting e) = i \<and> size (ex_running e) < x_workers R
      then Some (e\<lparr>ex_waiting := tl (ex_waiting e), ex_running := add_mset i (ex_running e)\<rparr>) else None)"
| "exec_act R (StartNewest i) e =
     (if x_newest R \<and> ex_waiting e \<noteq> [] \<and> last (ex_waiting e) = i \<and> size (ex_running e) < x_workers R
      then Some (e\<lparr>ex_waiting := butlast (ex_waiting e), ex_running := add_mset i (ex_running e)\<rparr>) else None)"
| "exec_act R (Discard i) e =
     (if x_discard R \<and> ex_waiting e \<noteq> [] \<and> hd (ex_waiting e) = i
      then Some (e\<lparr>ex_waiting := tl (ex_waiting e), ex_over := add_mset i (ex_over e)\<rparr>) else None)"
| "exec_act R (Finish i) e =
     (if i \<in># ex_running e
      then Some (e\<lparr>ex_running := ex_running e - {#i#}, ex_over := add_mset i (ex_over e)\<rparr>) else None)"
| "exec_act R Close e = (if ex_closed e then None else Some (e\<lparr>ex_closed := True\<rparr>))"

fun exec_acts :: "executor_rules \<Rightarrow> act list \<Rightarrow> executor \<Rightarrow> executor option" where
  "exec_acts R [] e = Some e"
| "exec_acts R (a # as) e = (case exec_act R a e of None \<Rightarrow> None | Some e' \<Rightarrow> exec_acts R as e')"

text \<open>The tasks accepted, and those that left the queue, in order.\<close>

fun accepts :: "act list \<Rightarrow> nat list" where
  "accepts [] = []"
| "accepts (Accept i # as) = i # accepts as"
| "accepts (_ # as) = accepts as"

fun leaves :: "act list \<Rightarrow> nat list" where
  "leaves [] = []"
| "leaves (Start i # as) = i # leaves as"
| "leaves (Discard i # as) = i # leaves as"
| "leaves (_ # as) = leaves as"

text \<open>Without newest-first service the queue is first in, first out.\<close>

lemma exec_act_fifo:
  "exec_act R a e = Some e' \<Longrightarrow> \<not> x_newest R \<Longrightarrow>
    ex_waiting e @ accepts [a] = leaves [a] @ ex_waiting e'"
  by (cases a) (auto split: if_split_asm)

lemma accepts_Cons: "accepts (a # as) = accepts [a] @ accepts as"
  and leaves_Cons: "leaves (a # as) = leaves [a] @ leaves as"
  by (cases a; simp)+

lemma exec_acts_fifo:
  "exec_acts R as e = Some e' \<Longrightarrow> \<not> x_newest R \<Longrightarrow>
    ex_waiting e @ accepts as = leaves as @ ex_waiting e'"
proof (induction as arbitrary: e)
  case (Cons a as)
  then obtain f where f: "exec_act R a e = Some f" "exec_acts R as f = Some e'"
    by (auto split: option.splits)
  have "ex_waiting e @ accepts (a # as) = (ex_waiting e @ accepts [a]) @ accepts as"
    by (simp add: accepts_Cons [of a as])
  also have "\<dots> = leaves [a] @ ex_waiting f @ accepts as"
    using exec_act_fifo [OF f(1) Cons.prems(2)] by simp
  also have "\<dots> = leaves (a # as) @ ex_waiting e'"
    using Cons.IH [OF f(2) Cons.prems(2)] by (simp add: leaves_Cons [of a as])
  finally show ?case .
qed simp

text \<open>Its bounds: workers, waiting tasks and both together; and every task is in one place.\<close>

definition ex_all :: "executor \<Rightarrow> nat multiset" where
  "ex_all e = mset (ex_waiting e) + ex_running e + ex_over e + ex_refused e"

definition executor_ok :: "executor_rules \<Rightarrow> executor \<Rightarrow> bool" where
  "executor_ok R e \<longleftrightarrow> size (ex_running e) \<le> x_workers R \<and> length (ex_waiting e) \<le> x_queue R
     \<and> length (ex_waiting e) + size (ex_running e) \<le> x_budget R \<and> (\<forall>i. count (ex_all e) i \<le> 1)"

lemma ex_fresh_count: "ex_fresh i e \<longleftrightarrow> count (ex_all e) i = 0"
  by (auto simp: ex_fresh_def ex_all_def not_in_iff)

lemma mset_hd_tl: "xs \<noteq> [] \<Longrightarrow> mset xs = add_mset (hd xs) (mset (tl xs))"
  by (cases xs) simp_all

lemma exec_act_all:
  "exec_act R a e = Some e' \<Longrightarrow>
    ex_all e' = ex_all e + (case a of Accept i \<Rightarrow> {#i#} | Refuse i \<Rightarrow> {#i#} | _ \<Rightarrow> {#})"
proof (cases a)
  case (StartNewest i)
  assume "exec_act R a e = Some e'"
  with StartNewest show ?thesis
    by (cases "ex_waiting e" rule: rev_cases) (auto simp: ex_all_def split: if_split_asm)
qed (auto simp: ex_all_def mset_hd_tl split: if_split_asm)

lemma exec_act_ok:
  assumes "executor_ok R e" and "exec_act R a e = Some e'"
  shows "executor_ok R e'"
proof -
  have "count (ex_all e') i \<le> 1" for i
    using assms by (cases a) (auto simp: exec_act_all [OF assms(2)] executor_ok_def ex_fresh_count split: if_split_asm)
  moreover have "size (ex_running e') \<le> x_workers R \<and> length (ex_waiting e') \<le> x_queue R
     \<and> length (ex_waiting e') + size (ex_running e') \<le> x_budget R"
    using assms by (cases a; cases "ex_waiting e")
      (auto simp: executor_ok_def size_Diff_singleton split: if_split_asm)
  ultimately show ?thesis by (simp add: executor_ok_def)
qed

lemma exec_acts_ok: "exec_acts R as e = Some e' \<Longrightarrow> executor_ok R e \<Longrightarrow> executor_ok R e'"
  by (induction as arbitrary: e) (auto split: option.splits intro: exec_act_ok)

lemma idle_executor_ok: "executor_ok R idle_executor"
  by (simp add: executor_ok_def idle_executor_def ex_all_def)

subsection \<open>Implementations\<close>

text \<open>The actions a run of events shows, with the states in which they happen.\<close>

fun trace_of :: "('ev \<Rightarrow> 's \<Rightarrow> 's option) \<Rightarrow> ('ev \<Rightarrow> 's \<Rightarrow> act option) \<Rightarrow> 'ev list \<Rightarrow> 's \<Rightarrow> act list" where
  "trace_of exec shows [] s = []"
| "trace_of exec shows (ev # evs) s =
     (case exec ev s of
        None \<Rightarrow> []
      | Some t \<Rightarrow> (case shows ev s of None \<Rightarrow> [] | Some a \<Rightarrow> [a]) @ trace_of exec shows evs t)"

locale executor_impl =
  fixes exec :: "'ev \<Rightarrow> 's \<Rightarrow> 's option"
    and acts :: "'ev \<Rightarrow> 's \<Rightarrow> act option"
    and view :: "'s \<Rightarrow> executor"
    and good :: "'s \<Rightarrow> bool"
    and R :: executor_rules
  assumes good_step: "good s \<Longrightarrow> exec ev s = Some t \<Longrightarrow> good t"
    and shown: "good s \<Longrightarrow> exec ev s = Some t \<Longrightarrow> acts ev s = Some a \<Longrightarrow> exec_act R a (view s) = Some (view t)"
    and silent: "good s \<Longrightarrow> exec ev s = Some t \<Longrightarrow> acts ev s = None \<Longrightarrow> view t = view s"
begin

lemma refines:
  "good s \<Longrightarrow> runs_to exec evs s = Some t \<Longrightarrow> exec_acts R (trace_of exec acts evs s) (view s) = Some (view t)"
proof (induction evs arbitrary: s)
  case (Cons ev evs)
  then obtain u where u: "exec ev s = Some u" "runs_to exec evs u = Some t"
    by (auto split: option.splits)
  have IH: "exec_acts R (trace_of exec acts evs u) (view u) = Some (view t)"
    using good_step [OF Cons.prems(1) u(1)] u(2) by (rule Cons.IH)
  show ?case
  proof (cases "acts ev s")
    case None
    with IH u(1) silent [OF Cons.prems(1) u(1)] show ?thesis by simp
  next
    case (Some a)
    with IH u(1) shown [OF Cons.prems(1) u(1) Some] show ?thesis by simp
  qed
qed simp

lemma first_in_first_out:
  assumes "good s" and "runs_to exec evs s = Some t" and "\<not> x_newest R" and "ex_waiting (view s) = []"
  shows "accepts (trace_of exec acts evs s) = leaves (trace_of exec acts evs s) @ ex_waiting (view t)"
  using exec_acts_fifo [OF refines [OF assms(1,2)] assms(3)] assms(4) by simp

end

end
