(* ===== verification/PoolSpec.thy ===== *)
theory PoolSpec
  imports Pool Executor
begin

text \<open>
  The bounded pool of queue/pool.go as an executor. A task is accepted where it enters the
  channel and refused where \<open>Submit\<close> decides on an error; it starts where a worker
  receives it and is finished where its wrapper has returned.
\<close>

definition pool_rules :: "nat \<Rightarrow> nat \<Rightarrow> executor_rules" where
  "pool_rules w c = \<lparr>x_workers = w, x_queue = c, x_budget = c, x_newest = False, x_discard = False\<rparr>"

definition pool_view :: "('g, 't) pool \<Rightarrow> executor" where
  "pool_view p = \<lparr>ex_waiting = tasks p, ex_running = taken p + running p,
     ex_over = finished p + completed p, ex_refused = result_ids (\<lambda>r. r \<noteq> None) p, ex_closed = closed p\<rparr>"

fun pool_acts :: "('env, 'g, 't) gate_ops \<Rightarrow> 'env pool_event \<Rightarrow> ('g, 't) pool \<Rightarrow> act option" where
  "pool_acts G (EvSubmit e i) p = (if fst (gate_allow G e i p) then None else Some (Refuse i))"
| "pool_acts G (EvNoSlot i) p = Some (Refuse i)"
| "pool_acts G (EvEnter i) p = Some (if closed p then Refuse i else Accept i)"
| "pool_acts G EvTake p = Some (Start (hd (tasks p)))"
| "pool_acts G (EvEnd i out) p = Some (Finish i)"
| "pool_acts G EvStop p = Some Close"
| "pool_acts G ev p = None"

definition pool_good :: "nat \<Rightarrow> nat \<Rightarrow> ('g, 't) pool \<Rightarrow> bool" where
  "pool_good w c p \<longleftrightarrow> pool_inv p \<and> n_workers p = w \<and> capacity p = c"

lemma pool_exec_fixed:
  "pool_exec G ev p = Some q \<Longrightarrow> capacity q = capacity p \<and> n_workers q = n_workers p"
  by (cases ev)
    (auto simp: pool_defs Let_def split: if_split_asm list.splits option.splits prod.splits bool.splits)

lemma pool_good_step: "pool_good w c p \<Longrightarrow> pool_exec G ev p = Some q \<Longrightarrow> pool_good w c q"
  by (auto simp: pool_good_def dest: pool_exec_fixed intro: pool_step_inv pool_stepI)

text \<open>A submission that has not been sent is nowhere in the view.\<close>

lemma pool_fresh:
  assumes "pool_inv p" and "i \<in># asking p + holding p \<or> i \<notin># submitted p"
  shows "ex_fresh i (pool_view p)"
proof -
  have c: "count (submitted p) i \<le> 1" "submitted p = asking p + holding p + sent p + result_ids (\<lambda>r. r \<noteq> None) p"
    using assms(1) by (auto simp: pool_inv_def unique_inv_def ids_inv_def)
  have "count (sent p) i + count (result_ids (\<lambda>r. r \<noteq> None) p) i = 0"
  proof (cases "i \<in># submitted p")
    case True
    then have "1 \<le> count (asking p + holding p) i" using assms(2) by (metis Suc_leI count_greater_zero_iff One_nat_def)
    then show ?thesis using c(1) unfolding c(2) count_union by linarith
  next
    case False
    then have "count (submitted p) i = 0" by (simp add: not_in_iff)
    then show ?thesis unfolding c(2) count_union by linarith
  qed
  moreover have "ex_all (pool_view p) = sent p + result_ids (\<lambda>r. r \<noteq> None) p"
    by (simp add: ex_all_def pool_view_def sent_def ac_simps)
  ultimately show ?thesis by (simp add: ex_fresh_count)
qed

lemma result_ids_returns:
  "result_ids P (returns i r p) = (if P r then add_mset i (result_ids P p) else result_ids P p)"
  by (simp add: result_ids_def returns_def)

lemma view_frame [simp]:
  "pool_view (call_done G i b p) = pool_view p"
  "pool_view (p\<lparr>asking := a\<rparr>) = pool_view p"
  "pool_view (p\<lparr>rejected := z\<rparr>) = pool_view p"
  "pool_view (p\<lparr>submitted := m\<rparr>) = pool_view p"
  "pool_view (p\<lparr>sem := k, asking := a, holding := h\<rparr>) = pool_view p"
  "pool_view (p\<lparr>holding := h, sem := k\<rparr>) = pool_view p"
  "pool_view (set_gate_enabled G on p) = pool_view p"
  "pool_view (p\<lparr>gate := g\<rparr>) = pool_view p"
  "pool_view (p\<lparr>gate := g, tickets := ts\<rparr>) = pool_view p"
  "pool_view (p\<lparr>idle := k, exited := k'\<rparr>) = pool_view p"
  "pool_view (p\<lparr>stop_returned := b\<rparr>) = pool_view p"
  by (simp_all add: pool_view_def result_ids_def call_done_def set_gate_enabled_def)

lemma view_refused [simp]:
  "pool_view (returns i (Some err) p) = pool_view p\<lparr>ex_refused := add_mset i (ex_refused (pool_view p))\<rparr>"
  "pool_view (returns i None p) = pool_view p"
  by (simp_all add: pool_view_def result_ids_returns) (simp_all add: returns_def)

lemma view_submit_gate:
  "pool_view (submit_gate G e i p) =
     (if fst (gate_allow G e i p) then pool_view p
      else pool_view p\<lparr>ex_refused := add_mset i (ex_refused (pool_view p))\<rparr>)"
  by (auto simp: submit_gate_def gate_allow_def Let_def split: option.split prod.split)

lemma pool_shown:
  assumes "pool_good w c p" and "pool_exec G ev p = Some q" and "pool_acts G ev p = Some a"
  shows "exec_act (pool_rules w c) a (pool_view p) = Some (pool_view q)"
proof -
  note good = assms(1) [unfolded pool_good_def]
  have inv: "slots_inv p" using good by (simp add: pool_inv_def)
  have fresh: "i \<in># asking p + holding p \<or> i \<notin># submitted p \<Longrightarrow> ex_fresh i (pool_view p)" for i
    using good by (intro pool_fresh) simp_all
  show ?thesis
  proof (cases ev)
    case (EvSubmit e i)
    then have "i \<notin># submitted p" "q = submit_gate G e i p" "\<not> fst (gate_allow G e i p)" "a = Refuse i"
      using assms(2,3) by (auto split: if_split_asm)
    then show ?thesis using fresh [of i] by (simp add: view_submit_gate)
  next
    case (EvNoSlot i)
    then have "i \<in># asking p" "a = Refuse i" using assms(2,3) by (auto simp: submit_no_slot_def split: if_split_asm)
    then show ?thesis using EvNoSlot assms(2) fresh [of i]
      by (auto simp: submit_no_slot_def Let_def split: if_split_asm)
  next
    case (EvEnter i)
    then have i: "i \<in># holding p" "a = (if closed p then Refuse i else Accept i)"
      using assms(2,3) by (auto simp: submit_enter_def split: if_split_asm)
    have f: "ex_fresh i (pool_view p)" using fresh [of i] i(1) by simp
    show ?thesis
    proof (cases "closed p")
      case True
      then show ?thesis using EvEnter assms(2) i f by (auto simp: submit_enter_def)
    next
      case False
      obtain H where H: "holding p = add_mset i H" using i(1) by (rule member_splitE)
      have "length (tasks p) + size (taken p + running p) < c"
        using inv good by (simp add: slots_defs H)
      moreover have "q = p\<lparr>holding := holding p - {#i#}, tasks := tasks p @ [i], counting := add_mset i (counting p)\<rparr>"
        using EvEnter assms(2) i(1) False by (auto simp: submit_enter_def split: if_split_asm)
      ultimately show ?thesis using i(2) False f by (simp add: pool_view_def pool_rules_def result_ids_def)
    qed
  next
    case EvTake
    then obtain i rest where t: "tasks p = i # rest" "0 < idle p" "a = Start i"
      "q = p\<lparr>tasks := rest, taken := add_mset i (taken p), idle := idle p - 1\<rparr>"
      using assms(2,3) by (auto simp: worker_take_def split: list.splits if_split_asm)
    have "size (taken p) + size (running p) < w" using inv good t(2) by (simp add: slots_inv_def)
    then show ?thesis using t by (simp add: pool_view_def pool_rules_def result_ids_def)
  next
    case (EvEnd i out)
    then have "i \<in># running p" "a = Finish i"
      using assms(2,3) by (auto simp: worker_end_def split: if_split_asm)
    then show ?thesis using EvEnd assms(2)
      by (auto simp: worker_end_def pool_view_def result_ids_def call_done_def dest!: multi_member_split)
  next
    case EvStop
    then have "a = Close" "\<not> stopping p" "q = p\<lparr>stopping := True, closed := True, chan_closed := True\<rparr>"
      using assms(2,3) by (auto simp: stop_close_def split: if_split_asm)
    then show ?thesis using inv by (simp add: pool_view_def slots_inv_def result_ids_def)
  qed (use assms(3) in simp_all)
qed

lemma pool_silent:
  assumes "pool_exec G ev p = Some q" and "pool_acts G ev p = None"
  shows "pool_view q = pool_view p"
proof (cases ev)
  case (EvSubmit e i)
  with assms show ?thesis by (auto simp: view_submit_gate split: if_split_asm)
next
  case (EvCount i)
  with assms show ?thesis
    by (auto simp: submit_count_def split: if_split_asm) (simp add: pool_view_def result_ids_def)
next
  case (EvBegin i)
  with assms show ?thesis
    by (auto simp: worker_begin_def pool_view_def result_ids_def split: if_split_asm dest!: multi_member_split)
next
  case (EvRelease i)
  with assms show ?thesis
    by (auto simp: worker_release_def pool_view_def result_ids_def split: if_split_asm dest!: multi_member_split)
qed (use assms in \<open>auto simp: submit_acquire_def worker_exit_def stop_wait_def split: if_split_asm\<close>)

interpretation pool_impl: executor_impl "pool_exec G" "pool_acts G" pool_view "pool_good w c" "pool_rules w c"
  for G w c
  by unfold_locales (rule pool_good_step pool_shown pool_silent; assumption)+

lemma new_pool_good:
  "pool_good (nat (max 1 (Workers cfg))) (nat (max 1 (Workers cfg) + max 0 (QueueCapacity cfg))) (new_pool cfg)"
  "pool_view (new_pool cfg) = idle_executor"
  unfolding pool_good_def
  by (intro conjI new_pool_inv) (simp_all add: new_pool_def Let_def max_def pool_view_def idle_executor_def result_ids_def)

subsection \<open>Properties\<close>

text \<open>
  C3. The bounded pool is an executor: whatever the interleaving of submitters, workers and
  \<open>Stop\<close>, what a client sees of a run is a run of the executor with the configured number
  of workers and at most workers plus capacity tasks that wait or run, without discarding and
  first in, first out; so no task is accepted or refused twice, or started without being
  accepted first.
\<close>

theorem pool_refines_executor:
  assumes "run_events G evs (new_pool cfg) = Some p"
    and "w = nat (max 1 (Workers cfg))" and "c = nat (max 1 (Workers cfg) + max 0 (QueueCapacity cfg))"
  shows "exec_acts (pool_rules w c) (trace_of (pool_exec G) (pool_acts G) evs (new_pool cfg)) idle_executor
      = Some (pool_view p)
    \<and> executor_ok (pool_rules w c) (pool_view p)"
proof -
  have good: "pool_good w c (new_pool cfg)" unfolding assms(2,3) by (rule new_pool_good)
  have r: "exec_acts (pool_rules w c) (trace_of (pool_exec G) (pool_acts G) evs (new_pool cfg)) idle_executor
      = Some (pool_view p)"
    using pool_impl.refines [OF good assms(1) [unfolded run_events_runs_to]] unfolding new_pool_good(2) .
  then show ?thesis using exec_acts_ok idle_executor_ok by blast
qed

text \<open>
  C22. The bounded pool is fair between the tasks it accepted: they are taken by workers in the
  order of acceptance, each once, and those not yet taken are the channel's content.
\<close>

theorem pool_first_in_first_out:
  assumes "run_events G evs (new_pool cfg) = Some p"
  shows "accepts (trace_of (pool_exec G) (pool_acts G) evs (new_pool cfg))
    = leaves (trace_of (pool_exec G) (pool_acts G) evs (new_pool cfg)) @ tasks p"
proof -
  have "ex_waiting (pool_view (new_pool cfg)) = []" unfolding new_pool_good(2) by (simp add: idle_executor_def)
  from pool_impl.first_in_first_out [OF new_pool_good(1) assms [unfolded run_events_runs_to] _ this]
  show ?thesis by (simp add: pool_rules_def) (simp add: pool_view_def)
qed

lemma demo_trace:
  "trace_of (pool_exec demo_ops) (pool_acts demo_ops) demo_stop (new_pool demo_cfg)
     = [Accept 0, Start 0, Refuse 1, Refuse 3, Accept 2, Close, Finish 0, Start 2, Finish 2]"
  by (simp add: demo_defs outcome_success_def)

theorem pool_refines_executor_witness:
  "\<exists>e. exec_acts (pool_rules 1 2) [Accept 0, Start 0, Refuse 1, Refuse 3, Accept 2, Close, Finish 0, Start 2, Finish 2]
     idle_executor = Some e \<and> executor_ok (pool_rules 1 2) e"
proof -
  obtain p where p: "run_events demo_ops demo_stop (new_pool demo_cfg) = Some p" "completed p = {#0, 2#}"
    using demo_stop_run by blast
  have wc: "nat (max 1 (Workers demo_cfg)) = 1" "nat (max 1 (Workers demo_cfg) + max 0 (QueueCapacity demo_cfg)) = 2"
    by (simp_all add: demo_cfg_def)
  show ?thesis using pool_refines_executor [OF p(1) refl refl] unfolding wc demo_trace by blast
qed

theorem pool_first_in_first_out_witness:
  "\<exists>p. run_events demo_ops demo_stop (new_pool demo_cfg) = Some p \<and> [0, 2] = [0, 2] @ tasks p"
proof -
  obtain p where p: "run_events demo_ops demo_stop (new_pool demo_cfg) = Some p"
    using demo_stop_run by blast
  then show ?thesis using pool_first_in_first_out [OF p] unfolding demo_trace by simp
qed

end
