(* ===== verification/F64.thy ===== *)
theory F64
  imports Prelude "HOL-Library.Log_Nat"
begin

text \<open>
  Go's \<open>float64\<close>: IEEE 754 binary64 with round-to-nearest-even, executable. A finite
  value is the rational it denotes (the two zeros are one value: no division of the modelled
  code has a negative zero as its divisor), beside the infinities and NaN. Each arithmetic
  operation is the exact rational operation followed by one rounding, as IEEE requires and as
  Go computes on amd64, where no product and sum are fused. \<open>rne\<close> rounds to 53
  significant bits, to fewer below \<open>2 ^ (- 1022)\<close> (subnormals); \<open>rnd\<close> adds
  the overflow to infinity. The lemmas show that rounding is monotone and leaves
  representable values alone; every bound of the components rests on these two.
\<close>

subsection \<open>Powers of two and the binary exponent\<close>

definition pow2 :: "int \<Rightarrow> rat" where "pow2 k = 2 powi k"

lemma pow2_pos [simp]: "0 < pow2 k" and pow2_nonneg [simp]: "0 \<le> pow2 k"
  and pow2_nz [simp]: "pow2 k \<noteq> 0"
  by (simp_all add: pow2_def power_int_not_zero)

lemma pow2_add: "pow2 (a + b) = pow2 a * pow2 b"
  by (simp add: pow2_def power_int_add)

lemma pow2_diff: "pow2 (a - b) = pow2 a / pow2 b"
  by (simp add: pow2_def power_int_diff)

lemma pow2_nat: "0 \<le> k \<Longrightarrow> pow2 k = of_int (2 ^ nat k)"
  by (simp add: pow2_def power_int_def)

lemma pow2_0 [simp]: "pow2 0 = 1"
  by (simp add: pow2_def)

lemma pow2_mono: "a \<le> b \<Longrightarrow> pow2 a \<le> pow2 b"
  by (simp add: pow2_def power_int_increasing)

lemma pow2_less_iff [simp]: "pow2 a < pow2 b \<longleftrightarrow> a < b"
  by (metis linorder_not_less nle_le order_less_le pow2_add pow2_def pow2_mono
      power_int_strict_increasing one_less_numeral_iff semiring_norm(76))

definition ilog2 :: "rat \<Rightarrow> int" where
  "ilog2 x = (case quotient_of x of (n, d) \<Rightarrow>
     (let k = bitlen n - bitlen d in if pow2 k \<le> x then k else k - 1))"

lemma bitlen_pow2_bounds:
  assumes "0 < (n::int)"
  shows "pow2 (bitlen n - 1) \<le> of_int n" "of_int n < pow2 (bitlen n)"
proof -
  have b: "2 ^ nat (bitlen n - 1) \<le> n \<and> n < 2 ^ nat (bitlen n)"
    using assms by (rule bitlen_bounds)
  have p: "0 \<le> bitlen n - 1"
    using assms bitlen_eq_zero_iff [of n] bitlen_nonneg [of n] by linarith
  show "pow2 (bitlen n - 1) \<le> of_int n"
    using b p by (simp only: pow2_nat of_int_le_iff)
  show "of_int n < pow2 (bitlen n)"
    using b bitlen_nonneg [of n] by (simp only: pow2_nat of_int_less_iff)
qed

lemma ilog2_bounds:
  assumes "0 < x"
  shows "pow2 (ilog2 x) \<le> x" "x < pow2 (ilog2 x + 1)"
proof -
  obtain n d where q: "quotient_of x = (n, d)" by force
  have d: "0 < d" using q by (rule quotient_of_denom_pos)
  have x: "x = of_int n / of_int d" using q by (rule quotient_of_div)
  have n: "0 < n" using assms d by (simp add: x zero_less_divide_iff)
  let ?k = "bitlen n - bitlen d"
  have lo: "pow2 (?k - 1) < x"
  proof -
    have "pow2 (?k - 1) * of_int d < pow2 (?k - 1) * pow2 (bitlen d)"
      using bitlen_pow2_bounds(2) [OF d] by simp
    also have "\<dots> = pow2 (bitlen n - 1)" by (simp add: pow2_add [symmetric])
    also have "\<dots> \<le> of_int n" by (rule bitlen_pow2_bounds(1) [OF n])
    finally show ?thesis using d by (simp add: x pos_less_divide_eq)
  qed
  have hi: "x < pow2 (?k + 1)"
  proof -
    have "of_int n < pow2 (bitlen n)" by (rule bitlen_pow2_bounds(2) [OF n])
    also have "\<dots> = pow2 (?k + 1) * pow2 (bitlen d - 1)" by (simp add: pow2_add [symmetric])
    also have "\<dots> \<le> pow2 (?k + 1) * of_int d"
      using bitlen_pow2_bounds(1) [OF d] by simp
    finally show ?thesis using d by (simp add: x pos_divide_less_eq)
  qed
  show "pow2 (ilog2 x) \<le> x" "x < pow2 (ilog2 x + 1)"
    using lo hi by (auto simp: ilog2_def q Let_def)
qed

lemma ilog2_unique:
  assumes "pow2 k \<le> x" "x < pow2 (k + 1)"
  shows "ilog2 x = k"
proof -
  have "0 < x" using assms(1) pow2_pos [of k] by linarith
  from ilog2_bounds [OF this] assms have "pow2 k < pow2 (ilog2 x + 1)" "pow2 (ilog2 x) < pow2 (k + 1)"
    by linarith+
  then show ?thesis by simp
qed

lemma ilog2_mono: "0 < x \<Longrightarrow> x \<le> y \<Longrightarrow> ilog2 x \<le> ilog2 y"
proof -
  assume "0 < x" "x \<le> y"
  then have "pow2 (ilog2 x) < pow2 (ilog2 y + 1)"
    using ilog2_bounds(1) [of x] ilog2_bounds(2) [of y] by linarith
  then show ?thesis by simp
qed

lemma ilog2_less: "0 < x \<Longrightarrow> x < pow2 (k + 1) \<Longrightarrow> ilog2 x \<le> k"
proof -
  assume "0 < x" "x < pow2 (k + 1)"
  then have "pow2 (ilog2 x) < pow2 (k + 1)" using ilog2_bounds(1) [of x] by linarith
  then show ?thesis by simp
qed

subsection \<open>Rounding to nearest, ties to even\<close>

definition round_even :: "rat \<Rightarrow> int" where
  "round_even y = (let f = \<lfloor>y\<rfloor>; r = y - of_int f in
     if r < 1/2 then f else if 1/2 < r then f + 1 else if even f then f else f + 1)"

lemma round_even_of_int [simp]: "round_even (of_int n) = n"
  by (simp add: round_even_def)

lemma round_even_err: "\<bar>of_int (round_even y) - y\<bar> \<le> 1/2"
proof -
  have "of_int \<lfloor>y\<rfloor> \<le> y" "y < of_int \<lfloor>y\<rfloor> + 1"
    using floor_correct [of y] by simp_all
  then show ?thesis by (auto simp: round_even_def Let_def abs_le_iff)
qed

lemma round_even_floor: "round_even y = \<lfloor>y\<rfloor> \<or> round_even y = \<lfloor>y\<rfloor> + 1"
  by (simp add: round_even_def Let_def)

lemma round_even_mono: "x \<le> y \<Longrightarrow> round_even x \<le> round_even y"
proof -
  assume xy: "x \<le> y"
  then have fl: "\<lfloor>x\<rfloor> \<le> \<lfloor>y\<rfloor>" by (rule floor_mono)
  show ?thesis
  proof (cases "\<lfloor>x\<rfloor> = \<lfloor>y\<rfloor>")
    case True
    with xy show ?thesis by (simp add: round_even_def Let_def)
  next
    case False
    with fl have "\<lfloor>x\<rfloor> + 1 \<le> \<lfloor>y\<rfloor>" by simp
    with round_even_floor [of x] round_even_floor [of y] show ?thesis by auto
  qed
qed

lemma round_even_minus: "round_even (- y) = - round_even y"
proof (cases "y = of_int \<lfloor>y\<rfloor>")
  case True
  have "round_even (- y) = round_even (of_int (- \<lfloor>y\<rfloor>))" using True by simp
  also have "\<dots> = - round_even (of_int \<lfloor>y\<rfloor>)" by (simp only: round_even_of_int)
  finally show ?thesis using True by simp
next
  case False
  then have "of_int \<lfloor>y\<rfloor> < y" using of_int_floor_le [of y] by linarith
  moreover have "y < of_int \<lfloor>y\<rfloor> + 1" using floor_correct [of y] by simp
  ultimately have f: "\<lfloor>- y\<rfloor> = - \<lfloor>y\<rfloor> - 1" by (intro floor_unique) simp_all
  show ?thesis by (simp add: round_even_def Let_def f)
qed

definition ulp_exp :: "rat \<Rightarrow> int" where
  "ulp_exp x = max (ilog2 \<bar>x\<bar> - 52) (- 1074)"

definition rne :: "rat \<Rightarrow> rat" where
  "rne x = (if x = 0 then 0
     else of_int (round_even (x / pow2 (ulp_exp x))) * pow2 (ulp_exp x))"

lemma rne_0 [simp]: "rne 0 = 0"
  by (simp add: rne_def)

lemma rne_minus: "rne (- x) = - rne x"
  by (simp add: rne_def ulp_exp_def round_even_minus)

text \<open>A value is representable when it has at most 53 bits above \<open>2 ^ (- 1074)\<close>.\<close>

definition repr :: "rat \<Rightarrow> bool" where
  "repr x \<longleftrightarrow> (\<exists>m e. x = of_int m * pow2 e \<and> \<bar>m\<bar> \<le> 2 ^ 53 \<and> - 1074 \<le> e)"

lemma ulp_grid:
  assumes "x \<noteq> 0" "x = of_int m * pow2 k" "ulp_exp x \<le> k"
  shows "rne x = x"
proof -
  have "x / pow2 (ulp_exp x) = of_int m * pow2 (k - ulp_exp x)"
    using assms(2) by (simp add: pow2_diff)
  also have "\<dots> = of_int (m * 2 ^ nat (k - ulp_exp x))"
    using assms(3) by (simp add: pow2_nat)
  finally have "x / pow2 (ulp_exp x) = of_int (m * 2 ^ nat (k - ulp_exp x))" .
  then have "of_int (round_even (x / pow2 (ulp_exp x))) = x / pow2 (ulp_exp x)"
    by (simp only: round_even_of_int)
  then show ?thesis using assms(1) by (simp add: rne_def)
qed

lemma rne_repr: "repr x \<Longrightarrow> rne x = x"
proof (cases "x = 0")
  case False
  assume "repr x"
  then obtain m e where x: "x = of_int m * pow2 e" and m: "\<bar>m\<bar> \<le> 2 ^ 53" and e: "- 1074 \<le> e"
    by (auto simp: repr_def)
  show ?thesis
  proof (cases "\<bar>m\<bar> = 2 ^ 53")
    case True
    have "\<bar>x\<bar> = pow2 (e + 53)" using True
      by (simp add: x abs_mult pow2_add pow2_nat flip: of_int_abs)
    then have "ilog2 \<bar>x\<bar> = e + 53" by (intro ilog2_unique) (simp_all add: less_imp_le)
    then have "ulp_exp x \<le> e + 1" using e by (simp add: ulp_exp_def)
    moreover have "x = of_int (sgn m * 2 ^ 52) * pow2 (e + 1)"
    proof -
      have "m = sgn m * 2 ^ 53" using True by (metis sgn_mult_abs)
      then have "x = of_int (sgn m * 2 ^ 53) * pow2 e" by (simp add: x)
      then show ?thesis by (simp add: pow2_add pow2_nat)
    qed
    ultimately show ?thesis using False ulp_grid by blast
  next
    case ne: False
    have lt: "(of_int \<bar>m\<bar> :: rat) < of_int (2 ^ 53)"
      using m ne by (simp only: of_int_less_iff)
    have "\<bar>x\<bar> = of_int \<bar>m\<bar> * pow2 e" by (simp add: x abs_mult)
    also have "\<dots> < of_int (2 ^ 53) * pow2 e"
      using lt by (rule mult_strict_right_mono) simp
    also have "\<dots> = pow2 (e + 52 + 1)" by (simp add: pow2_add pow2_nat)
    finally have "ilog2 \<bar>x\<bar> \<le> e + 52" using False by (intro ilog2_less) simp_all
    then have "ulp_exp x \<le> e" using e by (simp add: ulp_exp_def)
    then show ?thesis using False x ulp_grid by blast
  qed
qed simp

lemma rne_pos_mono:
  assumes "0 < x" "x \<le> y"
  shows "rne x \<le> rne y"
proof -
  have y: "0 < y" using assms by linarith
  have le: "ulp_exp x \<le> ulp_exp y"
    using ilog2_mono [OF assms] assms y by (simp add: ulp_exp_def)
  show ?thesis
  proof (cases "ulp_exp x = ulp_exp y")
    case True
    have "round_even (x / pow2 (ulp_exp y)) \<le> round_even (y / pow2 (ulp_exp y))"
      using assms(2) by (intro round_even_mono divide_right_mono) simp_all
    then show ?thesis using assms y True by (simp add: rne_def)
  next
    case False
    let ?B = "ilog2 y"
    have ey: "ulp_exp y = ?B - 52" and lt: "ilog2 x + 1 \<le> ?B" and ex: "ulp_exp x \<le> ?B"
      using False le assms y ilog2_mono [OF assms] by (auto simp: ulp_exp_def split: if_splits)
    have "x < pow2 ?B"
      using ilog2_bounds(2) [OF assms(1)] pow2_mono [OF lt] by linarith
    then have "x / pow2 (ulp_exp x) \<le> pow2 (?B - ulp_exp x)"
      by (simp add: pow2_diff divide_right_mono)
    also have "\<dots> = of_int (2 ^ nat (?B - ulp_exp x))" using ex by (simp only: pow2_nat)
    finally have "round_even (x / pow2 (ulp_exp x)) \<le> 2 ^ nat (?B - ulp_exp x)"
      using round_even_mono by (metis round_even_of_int)
    then have "of_int (round_even (x / pow2 (ulp_exp x))) \<le> pow2 (?B - ulp_exp x)"
      using ex by (simp only: pow2_nat of_int_le_iff)
    then have "of_int (round_even (x / pow2 (ulp_exp x))) * pow2 (ulp_exp x) \<le> pow2 ?B"
      by (simp add: pow2_diff pos_le_divide_eq)
    moreover have "pow2 ?B \<le> of_int (round_even (y / pow2 (ulp_exp y))) * pow2 (ulp_exp y)"
    proof -
      have "of_int (2 ^ 52) = pow2 52" by (simp add: pow2_nat)
      also have "\<dots> = pow2 ?B / pow2 (ulp_exp y)" by (simp add: ey flip: pow2_diff)
      also have "\<dots> \<le> y / pow2 (ulp_exp y)"
        using ilog2_bounds(1) [OF y] by (simp add: divide_right_mono)
      finally have "2 ^ 52 \<le> round_even (y / pow2 (ulp_exp y))"
        using round_even_mono by (metis round_even_of_int)
      then have "pow2 52 \<le> of_int (round_even (y / pow2 (ulp_exp y)))"
        by (simp only: pow2_nat [of 52] of_int_le_iff) simp
      then have "pow2 52 * pow2 (ulp_exp y)
          \<le> of_int (round_even (y / pow2 (ulp_exp y))) * pow2 (ulp_exp y)"
        by (simp only: mult_right_mono pow2_nonneg)
      then show ?thesis by (simp only: ey flip: pow2_add) simp
    qed
    ultimately show ?thesis using assms y by (simp add: rne_def)
  qed
qed

lemma rne_nonneg: "0 \<le> x \<Longrightarrow> 0 \<le> rne x"
proof -
  assume "0 \<le> x"
  then have "0 \<le> round_even (x / pow2 (ulp_exp x))"
    using round_even_mono [of 0 "x / pow2 (ulp_exp x)"] round_even_of_int [of 0] by simp
  then show ?thesis by (simp add: rne_def)
qed

lemma rne_mono: "x \<le> y \<Longrightarrow> rne x \<le> rne y"
proof -
  assume le: "x \<le> y"
  consider "0 < x" | "x \<le> 0" "0 \<le> y" | "y < 0" by linarith
  then show ?thesis
  proof cases
    case 1
    then show ?thesis using le by (rule rne_pos_mono)
  next
    case 2
    then show ?thesis using rne_nonneg [of y] rne_nonneg [of "- x"] by (simp add: rne_minus)
  next
    case 3
    then show ?thesis using le rne_pos_mono [of "- y" "- x"] by (simp add: rne_minus)
  qed
qed

lemma rne_ge: "repr a \<Longrightarrow> a \<le> x \<Longrightarrow> a \<le> rne x"
  using rne_mono [of a x] by (simp add: rne_repr)

lemma rne_le: "repr a \<Longrightarrow> x \<le> a \<Longrightarrow> rne x \<le> a"
  using rne_mono [of x a] by (simp add: rne_repr)


lemma repr_of_int: "\<bar>n\<bar> \<le> 2 ^ 53 \<Longrightarrow> repr (of_int n)"
  unfolding repr_def by (rule exI [of _ n], rule exI [of _ 0]) simp

lemma repr_numeral [simp]: "repr 0" "repr 1" "repr 2" "repr 4" "repr (1/2)" "repr 1000"
proof -
  show "repr 0" "repr 1" "repr 2" "repr 4" "repr 1000"
    using repr_of_int [of 0] repr_of_int [of 1] repr_of_int [of 2] repr_of_int [of 4]
      repr_of_int [of 1000] by simp_all
  show "repr (1/2)" unfolding repr_def
    by (rule exI [of _ 1], rule exI [of _ "- 1"]) (simp add: pow2_def)
qed

lemma repr_minus: "repr x \<Longrightarrow> repr (- x)"
proof -
  assume "repr x"
  then obtain m e where "x = of_int m * pow2 e" "\<bar>m\<bar> \<le> 2 ^ 53" "- 1074 \<le> e"
    by (auto simp: repr_def)
  then show ?thesis unfolding repr_def by (intro exI [of _ "- m"] exI [of _ e]) simp
qed

lemma repr_pow2: "- 1074 \<le> k \<Longrightarrow> repr (pow2 k)"
  unfolding repr_def by (rule exI [of _ 1], rule exI [of _ k]) simp

lemma repr_rne: "repr (rne x)"
proof (cases "x = 0")
  case False
  let ?e = "ulp_exp x" let ?m = "round_even (x / pow2 ?e)"
  have "\<bar>x\<bar> < pow2 (ilog2 \<bar>x\<bar> + 1)" using False by (intro ilog2_bounds) simp
  also have "\<dots> \<le> pow2 (?e + 53)" by (intro pow2_mono) (simp add: ulp_exp_def)
  finally have b: "\<bar>x / pow2 ?e\<bar> \<le> of_int (2 ^ 53)"
    by (simp add: pow2_add pow2_nat pos_divide_le_eq less_imp_le mult.commute)
  have "?m \<le> round_even (of_int (2 ^ 53))" "round_even (- (x / pow2 ?e)) \<le> round_even (of_int (2 ^ 53))"
    using b by (auto intro!: round_even_mono simp only: abs_le_iff)
  then have "?m \<le> 2 ^ 53" "- ?m \<le> 2 ^ 53"
    by (simp_all only: round_even_of_int round_even_minus)
  then have "\<bar>?m\<bar> \<le> 2 ^ 53" by simp
  moreover have "rne x = of_int ?m * pow2 ?e" using False by (simp add: rne_def)
  moreover have "- 1074 \<le> ?e" by (simp add: ulp_exp_def)
  ultimately show ?thesis unfolding repr_def by blast
qed simp

lemma rne_idem [simp]: "rne (rne x) = rne x"
  by (simp add: rne_repr repr_rne)

lemma rne_1 [simp]: "rne 1 = 1" and rne_of_small: "\<bar>n\<bar> \<le> 2 ^ 53 \<Longrightarrow> rne (of_int n) = of_int n"
  by (simp_all add: rne_repr repr_of_int)

subsection \<open>The values and the operations\<close>

datatype f64 = Fin rat | PInf | NInf | NaN

definition f64_huge :: rat where "f64_huge = pow2 1024"

definition rnd :: "rat \<Rightarrow> f64" where
  "rnd x = (let r = rne x in
     if f64_huge \<le> r then PInf else if r \<le> - f64_huge then NInf else Fin r)"

definition f64_of_int :: "int \<Rightarrow> f64" where
  "f64_of_int n = rnd (of_int n)"

fun fneg :: "f64 \<Rightarrow> f64" where
  "fneg (Fin a) = Fin (- a)"
| "fneg PInf = NInf"
| "fneg NInf = PInf"
| "fneg NaN = NaN"

fun fadd :: "f64 \<Rightarrow> f64 \<Rightarrow> f64" where
  "fadd (Fin a) (Fin b) = rnd (a + b)"
| "fadd NaN _ = NaN"
| "fadd _ NaN = NaN"
| "fadd PInf NInf = NaN"
| "fadd NInf PInf = NaN"
| "fadd PInf _ = PInf"
| "fadd _ PInf = PInf"
| "fadd NInf _ = NInf"
| "fadd _ NInf = NInf"

definition fsub :: "f64 \<Rightarrow> f64 \<Rightarrow> f64" where
  "fsub x y = fadd x (fneg y)"

definition inf_signed :: "bool \<Rightarrow> f64" where
  "inf_signed pos = (if pos then PInf else NInf)"

fun fmul :: "f64 \<Rightarrow> f64 \<Rightarrow> f64" where
  "fmul (Fin a) (Fin b) = rnd (a * b)"
| "fmul NaN _ = NaN"
| "fmul _ NaN = NaN"
| "fmul (Fin a) PInf = (if a = 0 then NaN else inf_signed (0 < a))"
| "fmul (Fin a) NInf = (if a = 0 then NaN else inf_signed (a < 0))"
| "fmul PInf (Fin b) = (if b = 0 then NaN else inf_signed (0 < b))"
| "fmul NInf (Fin b) = (if b = 0 then NaN else inf_signed (b < 0))"
| "fmul PInf PInf = PInf"
| "fmul NInf NInf = PInf"
| "fmul PInf NInf = NInf"
| "fmul NInf PInf = NInf"

fun fdiv :: "f64 \<Rightarrow> f64 \<Rightarrow> f64" where
  "fdiv (Fin a) (Fin b) =
     (if b = 0 then if a = 0 then NaN else inf_signed (0 < a) else rnd (a / b))"
| "fdiv NaN _ = NaN"
| "fdiv _ NaN = NaN"
| "fdiv (Fin a) _ = Fin 0"
| "fdiv PInf (Fin b) = inf_signed (0 \<le> b)"
| "fdiv NInf (Fin b) = inf_signed (b < 0)"
| "fdiv _ _ = NaN"

fun flt :: "f64 \<Rightarrow> f64 \<Rightarrow> bool" where
  "flt (Fin a) (Fin b) \<longleftrightarrow> a < b"
| "flt NaN _ \<longleftrightarrow> False"
| "flt _ NaN \<longleftrightarrow> False"
| "flt x PInf \<longleftrightarrow> x \<noteq> PInf"
| "flt NInf x \<longleftrightarrow> x \<noteq> NInf"
| "flt _ _ \<longleftrightarrow> False"

definition fle :: "f64 \<Rightarrow> f64 \<Rightarrow> bool" where
  "fle x y \<longleftrightarrow> flt x y \<or> (x = y \<and> x \<noteq> NaN)"

text \<open>\<open>math.Max\<close> and \<open>math.Min\<close>: an infinity of their own sign wins over NaN.\<close>

definition fmax :: "f64 \<Rightarrow> f64 \<Rightarrow> f64" where
  "fmax x y = (if x = PInf \<or> y = PInf then PInf else if x = NaN \<or> y = NaN then NaN
     else if flt y x then x else y)"

definition fmin :: "f64 \<Rightarrow> f64 \<Rightarrow> f64" where
  "fmin x y = (if x = NInf \<or> y = NInf then NInf else if x = NaN \<or> y = NaN then NaN
     else if flt x y then x else y)"

fun fceil :: "f64 \<Rightarrow> f64" where
  "fceil (Fin a) = Fin (of_int \<lceil>a\<rceil>)"
| "fceil x = x"

text \<open>
  The conversion to \<open>int64\<close> truncates towards zero. Go leaves a result outside the
  range to the implementation; this is amd64's, the smallest \<open>int64\<close>.
\<close>

definition trunc_rat :: "rat \<Rightarrow> int" where
  "trunc_rat a = (if 0 \<le> a then \<lfloor>a\<rfloor> else \<lceil>a\<rceil>)"

fun f64_to_i64 :: "f64 \<Rightarrow> int" where
  "f64_to_i64 (Fin a) = (if is_i64 (trunc_rat a) then trunc_rat a else i64_min)"
| "f64_to_i64 _ = i64_min"


subsection \<open>Square root\<close>

text \<open>
  \<open>isqrt n\<close> is the integer square root. \<open>sqrt_sticky q\<close> carries \<open>sqrt q\<close>
  to at least 55 significant bits and ends in a half unit when the root is not exact, as a
  hardware square root does with its sticky bit, so that one rounding gives the correctly
  rounded root.
\<close>

fun isqrt :: "int \<Rightarrow> int" where
  "isqrt n = (if n \<le> 0 then 0
     else let r = 2 * isqrt (n div 4) in if (r + 1) * (r + 1) \<le> n then r + 1 else r)"

declare isqrt.simps [simp del]

definition sqrt_scale :: "rat \<Rightarrow> int" where
  "sqrt_scale q = 54 - ilog2 q div 2"

definition sqrt_sticky :: "rat \<Rightarrow> rat" where
  "sqrt_sticky q =
     (let j = sqrt_scale q; y = q * pow2 (2 * j); s = isqrt \<lfloor>y\<rfloor>
      in (of_int s + (if of_int (s * s) = y then 0 else 1/2)) / pow2 j)"

fun fsqrt :: "f64 \<Rightarrow> f64" where
  "fsqrt (Fin a) = (if a < 0 then NaN else if a = 0 then Fin 0 else rnd (sqrt_sticky a))"
| "fsqrt PInf = PInf"
| "fsqrt NInf = NaN"
| "fsqrt NaN = NaN"

lemma isqrt_nonneg [simp]: "0 \<le> isqrt n"
  by (induction n rule: isqrt.induct) (simp add: isqrt.simps [where n = n for n] Let_def)

lemma isqrt_bounds: "0 \<le> n \<Longrightarrow> isqrt n * isqrt n \<le> n \<and> n < (isqrt n + 1) * (isqrt n + 1)"
proof (induction n rule: isqrt.induct)
  case (1 n)
  show ?case
  proof (cases "n \<le> 0")
    case True
    with "1.prems" show ?thesis by (simp add: isqrt.simps [of 0])
  next
    case False
    let ?s = "isqrt (n div 4)"
    have IH: "?s * ?s \<le> n div 4" "n div 4 < (?s + 1) * (?s + 1)" using 1 False by auto
    have "4 * (?s * ?s) \<le> n" using IH(1) by linarith
    moreover have "n < 4 * ((?s + 1) * (?s + 1))" using IH(2) by linarith
    ultimately show ?thesis using False
      by (simp add: isqrt.simps [of n] Let_def algebra_simps)
  qed
qed

lemma isqrt_mono: "0 \<le> m \<Longrightarrow> m \<le> n \<Longrightarrow> isqrt m \<le> isqrt n"
proof -
  assume mn: "0 \<le> m" "m \<le> n"
  then have "isqrt m * isqrt m < (isqrt n + 1) * (isqrt n + 1)"
    using isqrt_bounds [of m] isqrt_bounds [of n] by linarith
  then have "isqrt m < isqrt n + 1"
    using mult_mono [of "isqrt n + 1" "isqrt m" "isqrt n + 1" "isqrt m"] by fastforce
  then show ?thesis by simp
qed

text \<open>The half unit stands for the rest: twice the sticky root brackets twice the root.\<close>

lemma sqrt_sticky_bounds:
  assumes "0 < q" and j: "j = sqrt_scale q" and s: "s = isqrt \<lfloor>q * pow2 (2 * j)\<rfloor>"
  shows "(of_int s)\<^sup>2 \<le> q * pow2 (2 * j)" "q * pow2 (2 * j) < (of_int s + 1)\<^sup>2"
    and "of_int s / pow2 j \<le> sqrt_sticky q" "sqrt_sticky q < (of_int s + 1) / pow2 j"
proof -
  let ?y = "q * pow2 (2 * j)"
  have y: "0 \<le> ?y" using assms(1) by simp
  then have fl: "of_int \<lfloor>?y\<rfloor> \<le> ?y" "?y < of_int (\<lfloor>?y\<rfloor> + 1)" "0 \<le> \<lfloor>?y\<rfloor>"
    using floor_correct [of ?y] by simp_all
  have b: "s * s \<le> \<lfloor>?y\<rfloor>" "\<lfloor>?y\<rfloor> + 1 \<le> (s + 1) * (s + 1)"
    using isqrt_bounds [OF fl(3)] s by auto
  have "of_int (s * s) \<le> (of_int \<lfloor>?y\<rfloor> :: rat)" using b(1) by (simp only: of_int_le_iff)
  then show "(of_int s)\<^sup>2 \<le> ?y" using fl(1) by (simp only: power2_eq_square of_int_mult)
  have "of_int (\<lfloor>?y\<rfloor> + 1) \<le> (of_int ((s + 1) * (s + 1)) :: rat)"
    using b(2) by (simp only: of_int_le_iff)
  also have "\<dots> = (of_int s + 1)\<^sup>2" by (simp add: power2_eq_square)
  finally show "?y < (of_int s + 1)\<^sup>2" using fl(2) by linarith
  show "of_int s / pow2 j \<le> sqrt_sticky q" "sqrt_sticky q < (of_int s + 1) / pow2 j"
    by (auto simp: sqrt_sticky_def Let_def j s intro!: divide_right_mono divide_strict_right_mono)
qed

lemma sqrt_sticky_pow2:
  assumes "0 < q" and "k = ilog2 q div 2"
  shows "pow2 k \<le> sqrt_sticky q" "sqrt_sticky q < pow2 (k + 1)"
proof -
  define j where "j = sqrt_scale q"
  define s where "s = isqrt \<lfloor>q * pow2 (2 * j)\<rfloor>"
  note b = sqrt_sticky_bounds [OF assms(1) j_def s_def]
  have s0: "0 \<le> s" by (simp add: s_def)
  have j: "j = 54 - k" using assms(2) by (simp add: j_def sqrt_scale_def)
  have "2 * k \<le> ilog2 q" "ilog2 q + 1 \<le> 2 * k + 2" using assms(2) by presburger+
  then have q: "pow2 (2 * k) \<le> q" "q < pow2 (2 * k + 2)"
    using ilog2_bounds [OF assms(1)] pow2_mono [of "2 * k" "ilog2 q"]
      pow2_mono [of "ilog2 q + 1" "2 * k + 2"] by linarith+
  have sq: "pow2 (2 * k) * pow2 (2 * j) = (of_int (2 ^ 54))\<^sup>2"
    "pow2 (2 * k + 2) * pow2 (2 * j) = (of_int (2 ^ 55))\<^sup>2"
    by (simp_all add: j pow2_nat flip: pow2_add)
  have "pow2 (2 * k) * pow2 (2 * j) \<le> q * pow2 (2 * j)" using q(1) by simp
  then have "(of_int (2 ^ 54))\<^sup>2 < (of_int (s + 1) :: rat)\<^sup>2" using b(2) sq(1) by simp
  then have "(of_int (2 ^ 54) :: rat) < of_int (s + 1)"
    by (rule power_less_imp_less_base) (use s0 in simp)
  then have lo: "2 ^ 54 \<le> s" by (simp only: of_int_less_iff)
  have "q * pow2 (2 * j) < pow2 (2 * k + 2) * pow2 (2 * j)" using q(2) by simp
  then have "(of_int s :: rat)\<^sup>2 < (of_int (2 ^ 55))\<^sup>2" using b(1) sq(2) by simp
  then have "(of_int s :: rat) < of_int (2 ^ 55)" by (rule power_less_imp_less_base) simp
  then have hi: "s + 1 \<le> 2 ^ 55" by (simp only: of_int_less_iff)
  have p: "pow2 k = of_int (2 ^ 54) / pow2 j" "pow2 (k + 1) = of_int (2 ^ 55) / pow2 j"
  proof -
    have "of_int (2 ^ 54) = pow2 54" "of_int (2 ^ 55) = pow2 55" by (simp_all add: pow2_nat)
    moreover have "pow2 k = pow2 54 / pow2 j" "pow2 (k + 1) = pow2 55 / pow2 j"
      by (simp_all only: pow2_diff [symmetric] j) (simp_all add: add.commute)
    ultimately show "pow2 k = of_int (2 ^ 54) / pow2 j" "pow2 (k + 1) = of_int (2 ^ 55) / pow2 j"
      by (simp_all only:)
  qed
  have "of_int (2 ^ 54) / pow2 j \<le> of_int s / pow2 j"
    using lo by (intro divide_right_mono) (simp_all only: of_int_le_iff pow2_nonneg)
  then show "pow2 k \<le> sqrt_sticky q" using b(3) p(1) by linarith
  have "of_int (s + 1) / pow2 j \<le> of_int (2 ^ 55) / pow2 j"
    using hi by (intro divide_right_mono) (simp_all only: of_int_le_iff pow2_nonneg)
  then show "sqrt_sticky q < pow2 (k + 1)"
    using b(4) p(2) by (simp only: of_int_add of_int_1)
qed

lemma sqrt_sticky_mono:
  assumes "0 < p" "p \<le> q"
  shows "sqrt_sticky p \<le> sqrt_sticky q"
proof (cases "ilog2 p div 2 = ilog2 q div 2")
  case True
  define j where "j = sqrt_scale q"
  have jp: "j = sqrt_scale p" using True by (simp add: j_def sqrt_scale_def)
  let ?s = "isqrt \<lfloor>p * pow2 (2 * j)\<rfloor>" let ?t = "isqrt \<lfloor>q * pow2 (2 * j)\<rfloor>"
  have pq: "p * pow2 (2 * j) \<le> q * pow2 (2 * j)" using assms(2) by simp
  have st: "?s \<le> ?t" using assms pq by (intro isqrt_mono floor_mono) simp_all
  show ?thesis
  proof (cases "?s = ?t")
    case True
    have "(of_int ?s)\<^sup>2 \<le> p * pow2 (2 * j)" using sqrt_sticky_bounds(1) [OF assms(1) jp refl] .
    then have exact: "of_int (?s * ?s) = q * pow2 (2 * j) \<Longrightarrow> of_int (?s * ?s) = p * pow2 (2 * j)"
      using pq by (simp add: power2_eq_square)
    have "sqrt_sticky p
        = (of_int ?s + (if of_int (?s * ?s) = p * pow2 (2 * j) then 0 else 1/2)) / pow2 j"
      by (simp only: sqrt_sticky_def Let_def jp)
    also have "\<dots> \<le> (of_int ?s + (if of_int (?s * ?s) = q * pow2 (2 * j) then 0 else 1/2)) / pow2 j"
      using exact by (intro divide_right_mono add_left_mono) (simp_all split: if_split)
    also have "\<dots> = sqrt_sticky q"
      by (simp only: sqrt_sticky_def Let_def j_def [symmetric] True)
    finally show ?thesis .
  next
    case False
    with st have "?s + 1 \<le> ?t" by simp
    then have "(of_int (?s + 1) :: rat) \<le> of_int ?t" by (simp only: of_int_le_iff)
    then have "(of_int ?s + 1) / pow2 j \<le> of_int ?t / pow2 j" by (intro divide_right_mono) simp_all
    moreover have "0 < q" using assms by linarith
    ultimately show ?thesis
      using sqrt_sticky_bounds(4) [OF assms(1) jp refl] sqrt_sticky_bounds(3) [of q, OF _ j_def refl]
      by linarith
  qed
next
  case False
  have "0 < q" using assms by linarith
  have "ilog2 p div 2 \<le> ilog2 q div 2" using ilog2_mono [OF assms] by (rule zdiv_mono1) simp
  with False have "ilog2 p div 2 + 1 \<le> ilog2 q div 2" by simp
  then have "pow2 (ilog2 p div 2 + 1) \<le> pow2 (ilog2 q div 2)" by (rule pow2_mono)
  then show ?thesis
    using sqrt_sticky_pow2(2) [OF assms(1) refl] sqrt_sticky_pow2(1) [OF \<open>0 < q\<close> refl] by linarith
qed

subsection \<open>Reasoning about finite results\<close>

text \<open>
  A rounded result is confined between representable bounds of the exact one
  (\<open>rnd_between\<close>); the rest reads the operations on finite values.
\<close>

definition finite_in :: "rat \<Rightarrow> rat \<Rightarrow> f64 \<Rightarrow> bool" where
  "finite_in lo hi x \<longleftrightarrow> (\<exists>r. x = Fin r \<and> repr r \<and> lo \<le> r \<and> r \<le> hi)"

lemma finite_inI: "repr r \<Longrightarrow> lo \<le> r \<Longrightarrow> r \<le> hi \<Longrightarrow> finite_in lo hi (Fin r)"
  by (simp add: finite_in_def)

lemma finite_inE:
  assumes "finite_in lo hi x"
  obtains r where "x = Fin r" "repr r" "lo \<le> r" "r \<le> hi"
  using assms by (auto simp: finite_in_def)

lemma finite_in_weaken: "finite_in a b x \<Longrightarrow> lo \<le> a \<Longrightarrow> b \<le> hi \<Longrightarrow> finite_in lo hi x"
  by (auto simp: finite_in_def)

definition f64_bounds :: "rat \<Rightarrow> rat \<Rightarrow> bool" where
  "f64_bounds lo hi \<longleftrightarrow> repr lo \<and> repr hi \<and> - f64_huge < lo \<and> hi < f64_huge"

lemma rnd_eq:
  assumes "f64_bounds lo hi" "lo \<le> x" "x \<le> hi"
  shows "rnd x = Fin (rne x)" "lo \<le> rne x" "rne x \<le> hi"
proof -
  show lo: "lo \<le> rne x" and hi: "rne x \<le> hi"
    using assms by (auto simp: f64_bounds_def intro: rne_ge rne_le)
  show "rnd x = Fin (rne x)" using lo hi assms(1) by (simp add: rnd_def f64_bounds_def)
qed

lemma rnd_between:
  "f64_bounds lo hi \<Longrightarrow> lo \<le> x \<Longrightarrow> x \<le> hi \<Longrightarrow> finite_in lo hi (rnd x)"
  by (simp add: rnd_eq finite_in_def repr_rne)

lemma rnd_repr: "repr x \<Longrightarrow> \<bar>x\<bar> < f64_huge \<Longrightarrow> rnd x = Fin x"
  by (simp add: rnd_def rne_repr abs_less_iff)

lemma huge_big: "2 ^ 200 < f64_huge"
  unfolding f64_huge_def pow2_nat [of 1024, simplified] by simp

lemma f64_bounds_le:
  "repr lo \<Longrightarrow> repr hi \<Longrightarrow> - (2 ^ 200) \<le> lo \<Longrightarrow> hi \<le> 2 ^ 200 \<Longrightarrow> f64_bounds lo hi"
  using huge_big by (simp add: f64_bounds_def)

lemma f64_bounds_of_int:
  "\<bar>a\<bar> \<le> 2 ^ 53 \<Longrightarrow> \<bar>b\<bar> \<le> 2 ^ 53 \<Longrightarrow> f64_bounds (of_int a) (of_int b)"
proof -
  assume ab: "\<bar>a\<bar> \<le> 2 ^ 53" "\<bar>b\<bar> \<le> 2 ^ 53"
  have "(of_int (- (2 ^ 53)) :: rat) \<le> of_int a" "(of_int b :: rat) \<le> of_int (2 ^ 53)"
    using ab by (simp_all only: of_int_le_iff abs_le_iff) simp_all
  then show ?thesis using ab by (intro f64_bounds_le repr_of_int) simp_all
qed

lemma f64_of_int_exact: "\<bar>n\<bar> \<le> 2 ^ 53 \<Longrightarrow> f64_of_int n = Fin (of_int n)"
proof -
  assume n: "\<bar>n\<bar> \<le> 2 ^ 53"
  have "f64_bounds (of_int n) (of_int n)" using n n by (rule f64_bounds_of_int)
  then show ?thesis using n by (simp add: f64_of_int_def rnd_eq(1) [of "of_int n" "of_int n"] rne_of_small)
qed

lemma f64_of_int_nonneg:
  assumes "0 \<le> n" "n \<le> 2 ^ 64"
  shows "finite_in 0 (2 ^ 64) (f64_of_int n)"
proof -
  have "repr (pow2 64)" by (rule repr_pow2) simp
  then have "f64_bounds 0 (2 ^ 64)" by (intro f64_bounds_le) (simp_all add: pow2_nat)
  moreover have "(of_int n :: rat) \<le> of_int (2 ^ 64)" using assms(2) by (simp only: of_int_le_iff)
  ultimately show ?thesis unfolding f64_of_int_def using assms(1) by (intro rnd_between) simp_all
qed

text \<open>A positive integer converts to a value of at least 1, monotonically.\<close>

lemma f64_of_int_pos:
  assumes "1 \<le> n" "n \<le> 2 ^ 64"
  obtains r where "f64_of_int n = Fin r" "repr r" "1 \<le> r" "r \<le> 2 ^ 64" "r = rne (of_int n)"
proof -
  have "repr (pow2 64)" by (rule repr_pow2) simp
  then have b: "f64_bounds 1 (2 ^ 64)" by (intro f64_bounds_le) (simp_all add: pow2_nat)
  have "(of_int n :: rat) \<le> of_int (2 ^ 64)" "(of_int 1 :: rat) \<le> of_int n"
    using assms by (simp_all only: of_int_le_iff)
  then have "(of_int n :: rat) \<le> 2 ^ 64" "(1 :: rat) \<le> of_int n" by simp_all
  from rnd_eq [OF b this(2,1)] repr_rne that show thesis by (simp add: f64_of_int_def)
qed

lemma flt_Fin [simp]: "flt (Fin a) (Fin b) \<longleftrightarrow> a < b"
  by simp

lemma fle_Fin [simp]: "fle (Fin a) (Fin b) \<longleftrightarrow> a \<le> b"
  by (auto simp: fle_def)

lemma fmax_Fin [simp]: "fmax (Fin a) (Fin b) = Fin (max a b)"
  by (simp add: fmax_def)

lemma fmin_Fin [simp]: "fmin (Fin a) (Fin b) = Fin (min a b)"
  by (simp add: fmin_def)

lemma fsub_Fin [simp]: "fsub (Fin a) (Fin b) = rnd (a - b)"
  by (simp add: fsub_def)

lemma fdiv_Fin: "b \<noteq> 0 \<Longrightarrow> fdiv (Fin a) (Fin b) = rnd (a / b)"
  by simp

lemma repr_max: "repr a \<Longrightarrow> repr b \<Longrightarrow> repr (max a b)"
  and repr_min: "repr a \<Longrightarrow> repr b \<Longrightarrow> repr (min a b)"
  by (simp_all add: max_def min_def)

text \<open>
  \<open>math.Max\<close> and \<open>math.Min\<close> clamp whatever they are given, infinities included, as
  long as it is no NaN.
\<close>

lemma fmin_clamp: "x \<noteq> NaN \<Longrightarrow> fmin (Fin b) x = NInf \<or> (\<exists>r. fmin (Fin b) x = Fin r \<and> r \<le> b)"
  by (cases x) (auto simp: fmin_def)

lemma fclamp:
  assumes "x \<noteq> NaN" "lo \<le> hi" "repr lo" "repr hi" and rx: "\<And>r. x = Fin r \<Longrightarrow> repr r"
  shows "finite_in lo hi (fmax (Fin lo) (fmin (Fin hi) x))"
  using assms by (cases x) (auto simp: fmin_def fmax_def finite_in_def)

lemma trunc_rat_of_int [simp]: "trunc_rat (of_int n) = n"
  by (simp add: trunc_rat_def)

lemma trunc_rat_mono: "a \<le> b \<Longrightarrow> trunc_rat a \<le> trunc_rat b"
proof -
  assume ab: "a \<le> b"
  have "a < 0 \<Longrightarrow> 0 \<le> b \<Longrightarrow> \<lceil>a\<rceil> \<le> \<lfloor>b\<rfloor>"
    by (meson ceiling_le_zero le_floor_iff less_imp_le of_int_0 order_trans zero_le_floor)
  with ab show ?thesis by (auto simp: trunc_rat_def floor_mono ceiling_mono)
qed

lemma f64_to_i64_between:
  assumes "of_int lo \<le> r" "r \<le> of_int hi" "is_i64 lo" "is_i64 hi"
  shows "lo \<le> f64_to_i64 (Fin r)" "f64_to_i64 (Fin r) \<le> hi"
    and "f64_to_i64 (Fin r) = trunc_rat r"
proof -
  have "lo \<le> trunc_rat r" "trunc_rat r \<le> hi"
    using trunc_rat_mono [OF assms(1)] trunc_rat_mono [OF assms(2)] by simp_all
  then show "lo \<le> f64_to_i64 (Fin r)" "f64_to_i64 (Fin r) \<le> hi" "f64_to_i64 (Fin r) = trunc_rat r"
    using assms(3,4) by (auto simp: is_i64_def)
qed

lemma f64_to_i64_mono:
  assumes "of_int lo \<le> r" "r \<le> s" "s \<le> of_int hi" "is_i64 lo" "is_i64 hi"
  shows "f64_to_i64 (Fin r) \<le> f64_to_i64 (Fin s)"
proof -
  have "f64_to_i64 (Fin r) = trunc_rat r"
    using assms(1) order_trans [OF assms(2,3)] assms(4,5) by (rule f64_to_i64_between(3))
  moreover have "f64_to_i64 (Fin s) = trunc_rat s"
    using order_trans [OF assms(1,2)] assms(3-5) by (rule f64_to_i64_between(3))
  ultimately show ?thesis using trunc_rat_mono [OF assms(2)] by simp
qed

lemma f64_to_i64_of_int [simp]: "is_i64 n \<Longrightarrow> f64_to_i64 (Fin (of_int n)) = n"
  by simp

lemma fsqrt_mono:
  assumes "1 \<le> a" "a \<le> b" "repr b" "b \<le> 2 ^ 64"
  obtains r s where "fsqrt (Fin a) = Fin r" "fsqrt (Fin b) = Fin s"
    "repr r" "repr s" "1 \<le> r" "r \<le> s" "s \<le> 2 ^ 64"
proof -
  have one: "1 \<le> sqrt_sticky a"
  proof -
    have "ilog2 1 \<le> ilog2 a" using assms(1) by (intro ilog2_mono) simp_all
    moreover have "ilog2 1 = 0" by (rule ilog2_unique) (simp_all add: pow2_def)
    ultimately have "pow2 0 \<le> pow2 (ilog2 a div 2)" by (intro pow2_mono) simp
    then show ?thesis using sqrt_sticky_pow2(1) [of a, OF _ refl] assms(1) by simp
  qed
  have ab: "sqrt_sticky a \<le> sqrt_sticky b" using assms by (intro sqrt_sticky_mono) simp_all
  have up: "sqrt_sticky b \<le> 2 ^ 64"
  proof -
    have "b < pow2 65" using assms(4) by (simp add: pow2_nat)
    then have "ilog2 b \<le> 64" using assms(1,2) by (intro ilog2_less) simp_all
    then have "pow2 (ilog2 b div 2 + 1) \<le> pow2 64" by (intro pow2_mono) simp
    then show ?thesis using sqrt_sticky_pow2(2) [of b, OF _ refl] assms(1,2) by (simp add: pow2_nat)
  qed
  have "repr (pow2 64)" by (rule repr_pow2) simp
  then have bd: "f64_bounds 1 (2 ^ 64)" by (intro f64_bounds_le) (simp_all add: pow2_nat)
  from rnd_eq [OF bd one order_trans [OF ab up]] rnd_eq [OF bd order_trans [OF one ab] up]
    rne_mono [OF ab] that [of "rne (sqrt_sticky a)" "rne (sqrt_sticky b)"] assms(1,2) repr_rne
  show thesis by simp
qed

lemmas f64_finite_simps = f64_of_int_exact fmax_Fin fmin_Fin flt_Fin fle_Fin fsub_Fin

text \<open>Evaluation: small integers are exact, and \<open>rne\<close> computes the rest.\<close>

lemma rnd_by_rne: "rne x = r \<Longrightarrow> \<bar>r\<bar> \<le> 2 ^ 200 \<Longrightarrow> rnd x = Fin r"
  using huge_big by (simp add: rnd_def abs_le_iff)

lemma rnd_of_small: "\<bar>n\<bar> \<le> 2 ^ 53 \<Longrightarrow> rnd (of_int n) = Fin (of_int n)"
  using f64_of_int_exact [of n] by (simp add: f64_of_int_def)

lemma rnd_numeral [simp]:
  "rnd 0 = Fin 0" "rnd 1 = Fin 1" "rnd (- 1) = Fin (- 1)"
  "(numeral k :: int) \<le> 2 ^ 53 \<Longrightarrow> rnd (numeral k) = Fin (numeral k)"
  "(numeral k :: int) \<le> 2 ^ 53 \<Longrightarrow> rnd (- numeral k) = Fin (- numeral k)"
  using rnd_of_small [of 0] rnd_of_small [of 1] rnd_of_small [of "- 1"] rnd_of_small [of "numeral k"]
    rnd_of_small [of "- numeral k"] by simp_all

lemma f64_of_int_numeral [simp]:
  "f64_of_int 0 = Fin 0" "f64_of_int 1 = Fin 1"
  "(numeral k :: int) \<le> 2 ^ 53 \<Longrightarrow> f64_of_int (numeral k) = Fin (numeral k)"
  by (simp_all add: f64_of_int_def)

subsection \<open>Intervals of finite values\<close>

lemma repr_pow [simp]: "repr (2 ^ k)"
proof -
  have "pow2 (int k) = 2 ^ k" by (simp add: pow2_nat)
  moreover have "repr (pow2 (int k))" by (rule repr_pow2) simp
  ultimately show ?thesis by simp
qed

lemma f64_bounds_pow: "k \<le> 200 \<Longrightarrow> f64_bounds 0 (2 ^ k)" "k \<le> 200 \<Longrightarrow> f64_bounds (- (2 ^ k)) (2 ^ k)"
proof -
  assume "k \<le> 200"
  then have "(2 ^ k :: rat) \<le> 2 ^ 200" by (intro power_increasing) simp_all
  then show "f64_bounds 0 (2 ^ k)" "f64_bounds (- (2 ^ k)) (2 ^ k)"
    by (auto intro!: f64_bounds_le repr_minus)
qed

lemma finite_in_Fin: "finite_in lo hi (Fin r) \<longleftrightarrow> repr r \<and> lo \<le> r \<and> r \<le> hi"
  by (auto simp: finite_in_def)

lemma finite_in_add:
  assumes "finite_in a b x" "finite_in c d y" "f64_bounds lo hi" "lo \<le> a + c" "b + d \<le> hi"
  shows "finite_in lo hi (fadd x y)"
proof -
  obtain p q where "x = Fin p" "a \<le> p" "p \<le> b" "y = Fin q" "c \<le> q" "q \<le> d"
    using assms(1,2) by (auto simp: finite_in_def)
  then show ?thesis using rnd_between [OF assms(3), of "p + q"] assms(4,5) by simp
qed

lemma finite_in_mul:
  assumes "finite_in a b x" "finite_in c d y" "0 \<le> a" "0 \<le> c" "f64_bounds lo hi" "lo \<le> a * c" "b * d \<le> hi"
  shows "finite_in lo hi (fmul x y)"
proof -
  obtain p q where pq: "x = Fin p" "a \<le> p" "p \<le> b" "y = Fin q" "c \<le> q" "q \<le> d"
    using assms(1,2) by (auto simp: finite_in_def)
  have "a * c \<le> p * q" "p * q \<le> b * d" using pq assms(3,4) by (auto intro!: mult_mono)
  then show ?thesis using rnd_between [OF assms(5), of "p * q"] assms(6,7) pq by simp
qed

lemma finite_in_div:
  assumes "finite_in a b x" "finite_in c d y" "0 \<le> a" "0 < c" "f64_bounds lo hi" "lo \<le> a / d" "b / c \<le> hi"
  shows "finite_in lo hi (fdiv x y)"
proof -
  obtain p q where pq: "x = Fin p" "a \<le> p" "p \<le> b" "y = Fin q" "c \<le> q" "q \<le> d"
    using assms(1,2) by (auto simp: finite_in_def)
  have "a / d \<le> p / q" "p / q \<le> b / c" using pq assms(3,4) by (auto intro!: frac_le)
  then show ?thesis using rnd_between [OF assms(5), of "p / q"] assms(4,6,7) pq by simp
qed

lemma finite_in_unit_sub: "finite_in 0 1 x \<Longrightarrow> finite_in 0 1 (fsub (Fin 1) x)"
proof -
  assume "finite_in 0 1 x"
  then obtain p where "x = Fin p" "0 \<le> p" "p \<le> 1" by (auto simp: finite_in_def)
  moreover have "f64_bounds 0 1" by (intro f64_bounds_le) simp_all
  ultimately show ?thesis using rnd_between [of 0 1 "1 - p"] by simp
qed

lemma finite_in_max:
  assumes "finite_in a b x" "finite_in c d y"
  shows "finite_in (max a c) (max b d) (fmax x y)"
  using assms by (auto simp: finite_in_def repr_max)

lemma finite_in_min:
  assumes "finite_in a b x" "finite_in c d y"
  shows "finite_in (min a c) (min b d) (fmin x y)"
  using assms by (auto simp: finite_in_def repr_min)

lemma finite_in_of_int: "\<bar>n\<bar> \<le> 2 ^ 53 \<Longrightarrow> finite_in (of_int n) (of_int n) (f64_of_int n)"
  by (simp add: f64_of_int_exact finite_in_Fin repr_of_int)

lemma finite_in_trunc:
  assumes "finite_in (of_int a) (of_int b) x" "is_i64 a" "is_i64 b"
  shows "a \<le> f64_to_i64 x" "f64_to_i64 x \<le> b"
  using assms f64_to_i64_between(1,2) by (metis finite_inE)+

text \<open>The root of a positive integer is at most it.\<close>

lemma fsqrt_le_self:
  assumes "1 \<le> n" "n \<le> 2 ^ 53"
  shows "finite_in 1 (of_int n) (fsqrt (Fin (of_int n)))"
proof -
  let ?a = "of_int n :: rat"
  have a: "1 \<le> ?a" "?a \<le> of_int (2 ^ 53)" using assms by (simp_all only: of_int_le_iff of_int_1_le_iff)
  have r: "repr ?a" using assms by (intro repr_of_int) simp
  have a64: "?a \<le> 2 ^ 64" using a(2) by simp
  obtain u where u: "fsqrt (Fin ?a) = Fin u" "repr u" "1 \<le> u"
    using fsqrt_mono [OF a(1) order_refl r a64] by metis
  define j where "j = sqrt_scale ?a"
  define s where "s = isqrt \<lfloor>?a * pow2 (2 * j)\<rfloor>"
  have "ilog2 ?a \<le> 53" using a by (intro ilog2_less) (simp_all add: pow2_nat)
  then have j: "0 \<le> j" by (simp add: j_def sqrt_scale_def)
  note b = sqrt_sticky_bounds [of ?a, OF _ j_def s_def]
  define N where "N = n * 2 ^ nat j"
  have N: "?a * pow2 j = of_int N" using j by (simp add: N_def pow2_nat)
  have NN: "?a * (?a * pow2 (2 * j)) = of_int (N * N)"
  proof -
    have "pow2 (2 * j) = pow2 j * pow2 j" by (simp flip: pow2_add)
    then have "?a * (?a * pow2 (2 * j)) = (?a * pow2 j) * (?a * pow2 j)" by simp
    then show ?thesis by (simp add: N)
  qed
  have y: "?a * pow2 (2 * j) \<le> of_int (N * N)"
    unfolding NN [symmetric] using a(1) mult_right_mono [of 1 ?a "?a * pow2 (2 * j)"] by simp
  have "sqrt_sticky ?a \<le> ?a"
  proof (cases "s < N")
    case True
    then have "(of_int s + 1 :: rat) \<le> of_int N" by (metis of_int_le_iff of_int_add of_int_1 zless_imp_add1_zle add1_zle_eq)
    then have "(of_int s + 1) / pow2 j \<le> of_int N / pow2 j" by (intro divide_right_mono) simp_all
    also have "\<dots> = ?a" by (simp flip: N)
    finally show ?thesis using b(4) a by simp
  next
    case False
    have "0 \<le> N" using assms by (simp add: N_def)
    then have "N * N \<le> s * s" using False by (intro mult_mono) simp_all
    then have "of_int (N * N) \<le> (of_int (s * s) :: rat)" by (simp only: of_int_le_iff)
    moreover have "of_int (s * s) \<le> ?a * pow2 (2 * j)" using b(1) a by (simp add: power2_eq_square)
    ultimately have eq: "of_int (s * s) = ?a * pow2 (2 * j)" "of_int (s * s) = (of_int (N * N) :: rat)"
      using y by linarith+
    then have "s * s = N * N" by (simp only: of_int_eq_iff)
    then have "s = N" using False \<open>0 \<le> N\<close> by (metis abs_of_nonneg isqrt_nonneg s_def power2_eq_square power2_eq_iff_nonneg)
    then have "sqrt_sticky ?a = of_int N / pow2 j"
      using eq(1) by (simp add: sqrt_sticky_def Let_def j_def [symmetric] s_def [symmetric])
    also have "\<dots> = ?a" by (simp flip: N)
    finally show ?thesis by simp
  qed
  then have "rne (sqrt_sticky ?a) \<le> ?a" using r by (intro rne_le)
  moreover have "u = rne (sqrt_sticky ?a)"
    using u(1) a by (auto simp: rnd_def Let_def split: if_split_asm)
  ultimately show ?thesis using u by (simp add: finite_in_Fin)
qed

lemmas f64_bounds_eval [simp] = f64_bounds_pow(1) [of 10, simplified] f64_bounds_pow(1) [of 20, simplified]
  f64_bounds_pow(1) [of 53, simplified] f64_bounds_pow(1) [of 54, simplified]
  f64_bounds_pow(1) [of 55, simplified] f64_bounds_pow(1) [of 63, simplified]
  f64_bounds_pow(1) [of 64, simplified] f64_bounds_pow(1) [of 68, simplified]
  f64_bounds_pow(1) [of 84, simplified]

subsection \<open>A moving average stays below a power of two\<close>

lemma repr_scale: "repr r \<Longrightarrow> repr (2 ^ k * r)"
proof -
  assume "repr r"
  then obtain m e where r: "r = of_int m * pow2 e" "\<bar>m\<bar> \<le> 2 ^ 53" "- 1074 \<le> e" by (auto simp: repr_def)
  have "2 ^ k * r = of_int m * pow2 (e + int k)" using r(1) by (simp add: pow2_add pow2_nat)
  moreover have "- 1074 \<le> e + int k" using r(3) by simp
  ultimately show ?thesis using r(2) unfolding repr_def by blast
qed

lemma rne_err: "\<bar>rne x - x\<bar> \<le> pow2 (ulp_exp x) / 2"
proof (cases "x = 0")
  case False
  let ?p = "pow2 (ulp_exp x)"
  have "rne x - x = (of_int (round_even (x / ?p)) - x / ?p) * ?p"
    using False by (simp add: rne_def left_diff_distrib)
  then have "\<bar>rne x - x\<bar> = \<bar>of_int (round_even (x / ?p)) - x / ?p\<bar> * ?p" by (simp add: abs_mult)
  also have "\<dots> \<le> 1/2 * ?p" using round_even_err by (intro mult_right_mono) simp_all
  finally show ?thesis by simp
qed simp

lemma rne_unit_err:
  assumes "0 \<le> z" "z < 1"
  shows "rne z \<le> z + pow2 (- 54)"
proof (cases "z = 0")
  case False
  then have "ilog2 z \<le> - 1" using assms by (intro ilog2_less) simp_all
  then have "ulp_exp z \<le> - 53" using assms by (simp add: ulp_exp_def)
  then have "pow2 (ulp_exp z) \<le> pow2 (- 53)" by (rule pow2_mono)
  also have "pow2 (- 53) = 2 * pow2 (- 54)"
    using pow2_add [of 1 "- 54"] by (simp add: pow2_nat [of 1, simplified])
  finally show ?thesis using rne_err [of z] by linarith
qed simp

lemma rne_above_pow:
  assumes "y \<le> 2 ^ k * (1 + pow2 (- 54))"
  shows "rne y \<le> 2 ^ k"
proof (cases "y \<le> 2 ^ k")
  case True
  then show ?thesis by (intro rne_le) simp_all
next
  case False
  have k: "pow2 (int k) = 2 ^ k" by (simp add: pow2_nat)
  have p54: "pow2 (- 54) < 1/2" by (simp add: pow2_def power_int_minus)
  have "y < 2 * 2 ^ k"
  proof -
    have "2 ^ k * (1 + pow2 (- 54)) < 2 ^ k * (2 :: rat)" using p54 by (intro mult_strict_left_mono) simp_all
    with assms show ?thesis by linarith
  qed
  then have "ilog2 y = int k" using False k by (intro ilog2_unique) (simp_all add: pow2_add pow2_nat [of 1, simplified])
  moreover have "0 < y" using False zero_less_power [of "2 :: rat" k] by linarith
  ultimately have u: "ulp_exp y = int k - 52" by (simp add: ulp_exp_def)
  have "y / pow2 (int k - 52) \<le> 2 ^ k * (1 + pow2 (- 54)) / pow2 (int k - 52)"
    using assms by (intro divide_right_mono) simp_all
  also have "\<dots> = pow2 52 * (1 + pow2 (- 54))" by (simp add: pow2_diff k)
  also have "\<dots> = pow2 52 + pow2 (- 2)"
    using pow2_add [of 52 "- 54"] by (simp add: distrib_left)
  also have "pow2 52 = of_int (2 ^ 52)" by (simp add: pow2_nat)
  also have "pow2 (- 2) = 1/4" by (simp add: pow2_def power_int_minus)
  finally have le: "y / pow2 (int k - 52) \<le> of_int (2 ^ 52) + 1/4" .
  have "round_even (y / pow2 (int k - 52)) \<le> round_even (of_int (2 ^ 52) + 1/4)"
    using le by (rule round_even_mono)
  also have "\<dots> = 2 ^ 52"
  proof -
    have "\<lfloor>of_int (2 ^ 52) + (1/4 :: rat)\<rfloor> = 2 ^ 52" by (simp add: floor_unique)
    then show ?thesis by (simp add: round_even_def Let_def)
  qed
  finally have "of_int (round_even (y / pow2 (int k - 52))) * pow2 (int k - 52) \<le> of_int (2 ^ 52) * pow2 (int k - 52)"
    by (intro mult_right_mono) (simp_all only: of_int_le_iff pow2_nonneg)
  also have "\<dots> = 2 ^ k" by (simp add: pow2_diff k pow2_nat [of 52, simplified])
  finally show ?thesis using False u by (simp add: rne_def)
qed

text \<open>
  \<open>v * (1 - f) + x * f\<close> rounds up nowhere above a power of two that bounds \<open>v\<close> and
  \<open>x\<close>: the rounding of \<open>1 - f\<close> adds at most a quarter of a unit in the last place.
\<close>

lemma ewma_in:
  assumes v: "finite_in 0 (2 ^ k) v" and x: "finite_in 0 (2 ^ k) x" and f: "finite_in 0 1 f" and "k \<le> 200"
  shows "finite_in 0 (2 ^ k) (fadd (fmul v (fsub (Fin 1) f)) (fmul x f))"
proof -
  obtain a b c where abc: "v = Fin a" "0 \<le> a" "a \<le> 2 ^ k" "x = Fin b" "0 \<le> b" "b \<le> 2 ^ k"
    "f = Fin c" "0 \<le> c" "c \<le> 1" "repr c" using v x f by (auto simp: finite_in_def)
  have B: "f64_bounds 0 (2 ^ k)" using assms(4) by (rule f64_bounds_pow)
  have "f64_bounds 0 1" by (intro f64_bounds_le) simp_all
  from rnd_eq [OF this, of "1 - c"] abc obtain g where g: "fsub (Fin 1) f = Fin g" "g = rne (1 - c)"
    "0 \<le> g" "g \<le> 1" by auto
  have rg: "repr g" by (simp add: g repr_rne)
  have gc: "g + c \<le> 1 + pow2 (- 54)"
  proof (cases "c = 0")
    case True
    then show ?thesis using g(4) pow2_nonneg [of "- 54"] by linarith
  next
    case False
    then show ?thesis using rne_unit_err [of "1 - c"] abc g(2) by simp
  qed
  have P: "rne (a * g) \<le> 2 ^ k * g" "rne (b * c) \<le> 2 ^ k * c"
    using abc g rg by (auto intro!: rne_le repr_scale mult_right_mono)
  have Q: "a * g \<le> 2 ^ k" "b * c \<le> 2 ^ k" "0 \<le> a * g" "0 \<le> b * c"
    using mult_mono [of a "2 ^ k" g 1] mult_mono [of b "2 ^ k" c 1] abc g by simp_all
  note R = rnd_eq [OF B Q(3,1)] rnd_eq [OF B Q(4,2)]
  have "rne (a * g) + rne (b * c) \<le> 2 ^ k * (g + c)" using P by (simp add: distrib_left)
  also have "\<dots> \<le> 2 ^ k * (1 + pow2 (- 54))" using gc by (intro mult_left_mono) simp_all
  finally have S: "rne (rne (a * g) + rne (b * c)) \<le> 2 ^ k" by (rule rne_above_pow)
  have S0: "0 \<le> rne (rne (a * g) + rne (b * c))" using R(2,5) by (intro rne_nonneg) simp
  have "(2 :: rat) ^ k \<le> 2 ^ 200" using assms(4) by (intro power_increasing) simp_all
  then have "rnd (rne (a * g) + rne (b * c)) = Fin (rne (rne (a * g) + rne (b * c)))"
    using S S0 by (intro rnd_by_rne) simp_all
  then show ?thesis using R(1,4) abc g S S0 by (simp add: finite_in_Fin repr_rne)
qed

subsection \<open>Truncated quotients\<close>

text \<open>
  The rounded quotient of integers truncates to the integer quotient as long as both are
  small: the next integer above is at least \<open>1/b\<close> away, which is a representable step.
\<close>

lemma rne_quotient_floor:
  assumes "0 \<le> a" "0 < b" "b \<le> 2 ^ 43" "a div b < 1000"
  shows "\<lfloor>rne (of_int a / of_int b)\<rfloor> = a div b"
proof -
  let ?x = "of_int a / of_int b :: rat"
  let ?q = "a div b"
  have q0: "0 \<le> ?q" using assms by (simp add: pos_imp_zdiv_nonneg_iff)
  have fl: "\<lfloor>?x\<rfloor> = ?q" by (rule floor_divide_of_int_eq)
  have lo: "of_int ?q \<le> rne ?x"
    using q0 assms(4) of_int_floor_le [of ?x] unfolding fl by (intro rne_ge repr_of_int) simp_all
  have "a + 1 \<le> b * (?q + 1)"
    using assms(2) pos_mod_bound [of b a] mult_div_mod_eq [of b a] unfolding distrib_left by linarith
  then have "(of_int (a + 1) :: rat) \<le> of_int (b * (?q + 1))" by (simp only: of_int_le_iff)
  then have "?x \<le> of_int (?q + 1) - 1 / of_int b" using assms(2) by (simp add: field_simps)
  moreover have "1 / 2 ^ 43 \<le> (1 / of_int b :: rat)"
  proof (rule divide_left_mono)
    have "(of_int b :: rat) \<le> of_int (2 ^ 43)" using assms(3) by (simp only: of_int_le_iff)
    then show "(of_int b :: rat) \<le> 2 ^ 43" by simp
  qed (use assms(2) in simp_all)
  ultimately have "?x \<le> of_int (?q + 1) - 1 / 2 ^ 43" by linarith
  also have "\<dots> = of_int ((?q + 1) * 2 ^ 43 - 1) * pow2 (- 43)"
    by (simp add: pow2_def power_int_minus field_simps)
  finally have up: "?x \<le> of_int ((?q + 1) * 2 ^ 43 - 1) * pow2 (- 43)" .
  have "(?q + 1) * 2 ^ 43 \<le> 1000 * (2 ^ 43 :: int)" using assms(4) by (intro mult_right_mono) simp_all
  then have "repr (of_int ((?q + 1) * 2 ^ 43 - 1) * pow2 (- 43))"
    unfolding repr_def using q0 by (intro exI conjI) (rule refl, simp_all)
  with up have "rne ?x \<le> of_int ((?q + 1) * 2 ^ 43 - 1) * pow2 (- 43)" by (rule rne_le [rotated])
  also have "\<dots> < of_int (?q + 1)" by (simp add: pow2_def power_int_minus field_simps)
  finally have "rne ?x < of_int (?q + 1)" .
  with lo show ?thesis by (simp add: floor_unique)
qed

lemma rne_quotient_big:
  assumes "0 < b" "1000 \<le> a div b" shows "1000 \<le> rne (of_int a / of_int b)"
proof -
  have "\<lfloor>of_int a / of_int b :: rat\<rfloor> = a div b" by (rule floor_divide_of_int_eq)
  then have "of_int 1000 \<le> (of_int a / of_int b :: rat)" using assms(2) by (simp only: le_floor_iff [symmetric])
  then show ?thesis by (intro rne_ge) simp_all
qed

subsection \<open>The relative error of a root\<close>

lemma rne_rel: "pow2 (- 1000) \<le> x \<Longrightarrow> \<bar>rne x - x\<bar> \<le> x * pow2 (- 53)"
proof -
  assume x: "pow2 (- 1000) \<le> x"
  then have p: "0 < x" using pow2_pos [of "- 1000"] by linarith
  have "pow2 (- 1000) < pow2 (ilog2 x + 1)" using x ilog2_bounds(2) [OF p] by linarith
  then have "- 1000 < ilog2 x + 1" by (meson linorder_not_less pow2_mono)
  then have u: "ulp_exp x = ilog2 x - 52" using p by (simp add: ulp_exp_def)
  have "pow2 (ulp_exp x) / 2 = pow2 (ilog2 x) * pow2 (- 53)"
    unfolding u by (simp add: pow2_def power_int_diff power_int_minus)
  also have "\<dots> \<le> x * pow2 (- 53)" using ilog2_bounds(1) [OF p] by (intro mult_right_mono) simp_all
  finally show ?thesis using rne_err [of x] by linarith
qed

text \<open>The rounded root, squared, is the argument up to a relative error.\<close>

lemma sqrt_sticky_rel:
  assumes "0 < q"
  shows "(sqrt_sticky q * (1 - pow2 (- 54)))\<^sup>2 \<le> q" "q \<le> (sqrt_sticky q * (1 + pow2 (- 54)))\<^sup>2"
proof -
  define j where "j = sqrt_scale q"
  define s where "s = isqrt \<lfloor>q * pow2 (2 * j)\<rfloor>"
  note b = sqrt_sticky_bounds [OF assms j_def s_def]
  let ?r = "sqrt_sticky q" and ?e = "1 / pow2 j"
  have jj: "pow2 (2 * j) = (pow2 j)\<^sup>2" by (simp add: power2_eq_square flip: pow2_add)
  have "?e = pow2 (ilog2 q div 2) * pow2 (- 54)"
    by (simp add: j_def sqrt_scale_def pow2_def power_int_diff power_int_minus field_simps flip: power_int_add)
  also have "\<dots> \<le> ?r * pow2 (- 54)"
    using sqrt_sticky_pow2(1) [OF assms refl] by (intro mult_right_mono) simp_all
  finally have e: "?e \<le> ?r * pow2 (- 54)" .
  have s: "of_int s / pow2 j \<le> ?r" "?r < of_int s / pow2 j + ?e"
    using b(3,4) by (simp_all add: add_divide_distrib)
  have q1: "(of_int s / pow2 j)\<^sup>2 \<le> q" "q < (of_int s / pow2 j + ?e)\<^sup>2"
    using b(1,2) unfolding jj by (simp_all add: power_divide divide_le_eq less_divide_eq add_divide_distrib [symmetric])
  have r0: "0 < ?r" using sqrt_sticky_pow2(1) [OF assms refl] pow2_pos [of "ilog2 q div 2"] by linarith
  have "pow2 (- 54) < 1" by (simp add: pow2_def power_int_minus)
  then have n: "0 \<le> ?r * (1 - pow2 (- 54))" using r0 by simp
  have "?r * (1 - pow2 (- 54)) \<le> of_int s / pow2 j" using s(2) e by (simp add: right_diff_distrib)
  then show "(?r * (1 - pow2 (- 54)))\<^sup>2 \<le> q" using q1(1) power_mono [OF _ n, of "of_int s / pow2 j" 2] by linarith
  have "of_int s / pow2 j + ?e \<le> ?r * (1 + pow2 (- 54))" using s(1) e by (simp add: distrib_left)
  moreover have "0 \<le> of_int s / pow2 j + ?e" using s(2) r0 by linarith
  ultimately show "q \<le> (?r * (1 + pow2 (- 54)))\<^sup>2"
    using q1(2) power_mono [of "of_int s / pow2 j + ?e" "?r * (1 + pow2 (- 54))" 2] by linarith
qed

lemma fsqrt_rel:
  assumes "1 \<le> q" "q \<le> 2 ^ 64" "repr q"
  obtains r where "fsqrt (Fin q) = Fin r" "1 \<le> r"
    "(r * (1 - pow2 (- 52)))\<^sup>2 \<le> q" "q \<le> (r * (1 + pow2 (- 52)))\<^sup>2"
proof -
  obtain r where r: "fsqrt (Fin q) = Fin r" "1 \<le> r"
    using fsqrt_mono [OF assms(1) order_refl assms(3,2)] by metis
  let ?s = "sqrt_sticky q"
  have q0: "0 < q" using assms(1) by simp
  have "ilog2 1 \<le> ilog2 q" using assms(1) by (intro ilog2_mono) simp_all
  moreover have "ilog2 1 = 0" by (rule ilog2_unique) (simp_all add: pow2_def)
  ultimately have "pow2 0 \<le> pow2 (ilog2 q div 2)" by (intro pow2_mono) simp
  then have s1: "1 \<le> ?s" using sqrt_sticky_pow2(1) [OF q0 refl] by simp
  have "pow2 (- 1000) \<le> pow2 0" by (intro pow2_mono) simp
  then have "pow2 (- 1000) \<le> ?s" using s1 by simp
  then have e: "\<bar>rne ?s - ?s\<bar> \<le> ?s * pow2 (- 53)" by (rule rne_rel)
  have "r = rne ?s" using r(1) assms q0 by (auto simp: rnd_def Let_def split: if_split_asm)
  with e have rs: "r \<le> ?s * (1 + pow2 (- 53))" "?s * (1 - pow2 (- 53)) \<le> r"
    by (simp_all add: abs_le_iff distrib_left right_diff_distrib)
  note sq = sqrt_sticky_rel [OF q0]
  have c: "(1 + pow2 (- 53)) * (1 - pow2 (- 52)) \<le> 1 - pow2 (- 54)" "1 + pow2 (- 54) \<le> (1 - pow2 (- 53)) * (1 + pow2 (- 52))"
    "0 \<le> 1 - pow2 (- 52)" by (simp_all add: pow2_def power_int_minus)
  have "r * (1 - pow2 (- 52)) \<le> ?s * (1 + pow2 (- 53)) * (1 - pow2 (- 52))"
    using rs(1) c(3) by (rule mult_right_mono)
  also have "\<dots> \<le> ?s * (1 - pow2 (- 54))"
    using mult_left_mono [OF c(1), of ?s] s1 by (simp add: mult.assoc)
  finally have "(r * (1 - pow2 (- 52)))\<^sup>2 \<le> (?s * (1 - pow2 (- 54)))\<^sup>2"
    using r(2) c(3) by (intro power_mono) simp_all
  moreover have "?s * (1 + pow2 (- 54)) \<le> r * (1 + pow2 (- 52))"
  proof -
    have "?s * (1 + pow2 (- 54)) \<le> ?s * ((1 - pow2 (- 53)) * (1 + pow2 (- 52)))"
      using c(2) s1 by (intro mult_left_mono) simp_all
    also have "\<dots> \<le> r * (1 + pow2 (- 52))"
      unfolding mult.assoc [symmetric] using rs(2) by (intro mult_right_mono) (simp_all add: pow2_def)
    finally show ?thesis .
  qed
  then have "(?s * (1 + pow2 (- 54)))\<^sup>2 \<le> (r * (1 + pow2 (- 52)))\<^sup>2"
    using s1 by (intro power_mono) (simp_all add: pow2_def)
  ultimately show thesis using that [OF r] sq by linarith
qed

end
