(* ===== verification/CodelLaw.thy ===== *)
theory CodelLaw
  imports Prelude F64
begin

text \<open>
  CoDel's control law (\<open>shouldDrop\<close> of queue/codel.go) on its four fields, the gap
  \<open>interval / sqrt count\<close> in binary64, and what a history of calls gives: a drop needs
  an earlier call at least an interval before with every head since above target, the next drop
  comes when the gap has passed, and a stretch of an interval above target has a drop.
\<close>

subsection \<open>The control law\<close>

record codel_ctl =
  dropping :: bool
  first_above :: time
  drop_next :: time
  drop_count :: int

definition new_ctl :: codel_ctl where
  "new_ctl = \<lparr>dropping = False, first_above = zero_time, drop_next = zero_time, drop_count = 0\<rparr>"

text \<open>\<open>time.Duration(float64(p.interval) / math.Sqrt(float64(p.count)))\<close>\<close>

definition law_gap :: "duration \<Rightarrow> int \<Rightarrow> duration" where
  "law_gap interval n = f64_to_i64 (fdiv (f64_of_int interval) (fsqrt (f64_of_int n)))"

definition should_drop ::
  "duration \<Rightarrow> duration \<Rightarrow> time \<Rightarrow> time \<Rightarrow> codel_ctl \<Rightarrow> bool \<times> codel_ctl" where
  "should_drop target interval enq now c =
     (let sojourn = time_sub now enq
      in if sojourn < target then (False, c\<lparr>first_above := zero_time, dropping := False\<rparr>)
         else if is_zero (first_above c)
         then (False, c\<lparr>first_above := time_add now interval\<rparr>)
         else if before now (first_above c) then (False, c)
         else if \<not> dropping c
         then (True, c\<lparr>dropping := True, drop_count := 1, drop_next := time_add now interval\<rparr>)
         else if before now (drop_next c) then (False, c)
         else (let n = i64 (drop_count c + 1)
               in (True, c\<lparr>drop_count := n, drop_next := time_add now (law_gap interval n)\<rparr>)))"

lemma should_drop_iff:
  "fst (should_drop target interval enq now c) \<longleftrightarrow>
     target \<le> time_sub now enq \<and> first_above c \<noteq> 0 \<and> first_above c \<le> now
     \<and> (dropping c \<longrightarrow> drop_next c \<le> now)"
  by (auto simp: should_drop_def Let_def time_defs)

lemma should_drop_below:
  "time_sub now enq < target \<Longrightarrow>
     should_drop target interval enq now c = (False, c\<lparr>first_above := 0, dropping := False\<rparr>)"
  by (simp add: should_drop_def time_defs)

lemma should_drop_dropping:
  "fst (should_drop target interval enq now c) \<Longrightarrow> dropping (snd (should_drop target interval enq now c))"
  by (auto simp: should_drop_def Let_def time_defs split: if_split_asm)

text \<open>The gap after the \<open>n\<close>-th drop: positive counts shrink it, and never above the interval.\<close>

lemma law_gap_bounds:
  assumes "0 \<le> interval" "interval \<le> 2 ^ 53" "1 \<le> n" "n \<le> 2 ^ 53"
  shows "0 \<le> law_gap interval n" "law_gap interval n \<le> interval"
proof -
  have n: "f64_of_int n = Fin (of_int n)" using assms by (intro f64_of_int_exact) simp
  have i: "f64_of_int interval = Fin (of_int interval)" using assms by (intro f64_of_int_exact) simp
  have "(1 :: rat) \<le> of_int n" "(of_int n :: rat) \<le> of_int (2 ^ 53)"
    using assms by (simp_all only: of_int_le_iff of_int_1_le_iff)
  moreover from this(2) have "(of_int n :: rat) \<le> 2 ^ 64" by simp
  moreover have "repr (of_int n)" using assms by (intro repr_of_int) simp
  ultimately obtain r where r: "fsqrt (Fin (of_int n)) = Fin r" "1 \<le> r"
    using fsqrt_mono [of "of_int n" "of_int n"] by (metis order_refl)
  have q: "0 \<le> of_int interval / r" "of_int interval / r \<le> of_int interval"
    using r(2) assms(1) by (simp_all add: divide_le_eq mult_le_cancel_left1)
  have b: "f64_bounds (of_int 0) (of_int interval)" using assms by (intro f64_bounds_of_int) simp_all
  have "law_gap interval n = f64_to_i64 (Fin (rne (of_int interval / r)))"
    using r rnd_eq(1) [OF b, of "of_int interval / r"] q by (simp add: law_gap_def n i)
  moreover have "of_int 0 \<le> rne (of_int interval / r)" "rne (of_int interval / r) \<le> of_int interval"
    using rnd_eq(2,3) [OF b, of "of_int interval / r"] q by simp_all
  moreover have "is_i64 0" "is_i64 interval" using assms by (simp_all add: is_i64_def)
  ultimately show "0 \<le> law_gap interval n" "law_gap interval n \<le> interval"
    using f64_to_i64_between(1,2) by metis+
qed

lemma law_gap_antimono:
  assumes "0 \<le> interval" "interval \<le> 2 ^ 53" "1 \<le> m" "m \<le> n" "n \<le> 2 ^ 53"
  shows "law_gap interval n \<le> law_gap interval m"
proof -
  have ex: "f64_of_int n = Fin (of_int n)" "f64_of_int m = Fin (of_int m)"
    "f64_of_int interval = Fin (of_int interval)"
    using assms by (auto intro!: f64_of_int_exact)
  have ints: "(1 :: rat) \<le> of_int m" "(of_int m :: rat) \<le> of_int n" "(of_int n :: rat) \<le> of_int (2 ^ 53)"
    using assms by (simp_all only: of_int_le_iff of_int_1_le_iff)
  have "(of_int n :: rat) \<le> 2 ^ 64" using ints(3) by simp
  moreover have "repr (of_int n)" using assms by (intro repr_of_int) simp
  ultimately obtain r s where rs: "fsqrt (Fin (of_int m)) = Fin r" "fsqrt (Fin (of_int n)) = Fin s"
      "1 \<le> r" "r \<le> s"
    using fsqrt_mono [OF ints(1,2)] by metis
  have le: "of_int interval / s \<le> of_int interval / r"
    using rs assms(1) by (intro divide_left_mono) (simp_all add: mult_pos_pos)
  have q: "0 \<le> of_int interval / r" "of_int interval / r \<le> of_int interval" "0 \<le> of_int interval / s"
    using rs assms(1) by (simp_all add: divide_le_eq mult_le_cancel_left1)
  have b: "f64_bounds (of_int 0) (of_int interval)" using assms by (intro f64_bounds_of_int) simp_all
  have g: "law_gap interval m = f64_to_i64 (Fin (rne (of_int interval / r)))"
    "law_gap interval n = f64_to_i64 (Fin (rne (of_int interval / s)))"
    using rs rnd_eq(1) [OF b, of "of_int interval / r"] rnd_eq(1) [OF b, of "of_int interval / s"] q le
    by (simp_all add: law_gap_def ex)
  have "of_int 0 \<le> rne (of_int interval / s)" "rne (of_int interval / r) \<le> of_int interval"
    using rnd_eq(2) [OF b, of "of_int interval / s"] rnd_eq(3) [OF b, of "of_int interval / r"] q le
    by simp_all
  then show ?thesis unfolding g using rne_mono [OF le] assms(1,2)
    by (intro f64_to_i64_mono [where lo = 0 and hi = interval]) (simp_all add: is_i64_def)
qed

text \<open>The gap is within two nanoseconds of \<open>interval / sqrt n\<close>, written without the root.\<close>

lemma law_gap_accurate:
  assumes "0 \<le> interval" "interval \<le> 2 ^ 50" "1 \<le> n" "n \<le> 2 ^ 53"
  shows "interval\<^sup>2 \<le> (law_gap interval n + 2)\<^sup>2 * n"
    and "(max 0 (law_gap interval n - 1))\<^sup>2 * n \<le> interval\<^sup>2"
proof -
  define g where "g = law_gap interval n"
  define i where "i = (of_int interval :: rat)"
  have g: "0 \<le> g" "g \<le> interval" using law_gap_bounds [of interval n] assms by (simp_all add: g_def)
  have ex: "f64_of_int n = Fin (of_int n)" "f64_of_int interval = Fin i"
    using assms by (auto simp: i_def intro!: f64_of_int_exact)
  have n: "(1 :: rat) \<le> of_int n" "(of_int n :: rat) \<le> of_int (2 ^ 53)"
    using assms by (simp_all only: of_int_le_iff of_int_1_le_iff)
  have "repr (of_int n)" using assms by (intro repr_of_int) simp
  then obtain r where r: "fsqrt (Fin (of_int n)) = Fin r" "1 \<le> r"
    "(r * (1 - pow2 (- 52)))\<^sup>2 \<le> of_int n" "of_int n \<le> (r * (1 + pow2 (- 52)))\<^sup>2"
    using n(2) by (elim fsqrt_rel [OF n(1), rotated]) simp_all
  have i: "0 \<le> i" "i \<le> of_int (2 ^ 50)" using assms by (simp_all only: i_def of_int_le_iff of_int_0_le_iff)
  define x where "x = i / r"
  have x: "0 \<le> x" "x \<le> i" "x * r = i" using r(2) i(1) by (simp_all add: x_def divide_le_eq mult_le_cancel_left1)
  have "f64_bounds (of_int 0) (of_int interval)" using assms by (intro f64_bounds_of_int) simp_all
  from rnd_eq [OF this, of x] x have ge: "g = f64_to_i64 (Fin (rne x))" "0 \<le> rne x" "rne x \<le> i"
    using r(1,2) by (simp_all add: g_def law_gap_def ex x_def i_def)
  have "\<bar>rne x - x\<bar> \<le> 1 / 8"
  proof (cases "x = 0")
    case False
    then have "ilog2 x \<le> 50" using x i by (intro ilog2_less) (simp_all add: pow2_def)
    then have "ulp_exp x \<le> - 2" using x(1) by (simp add: ulp_exp_def)
    then have "pow2 (ulp_exp x) \<le> pow2 (- 2)" by (rule pow2_mono)
    also have "pow2 (- 2) = 1 / 4" by (simp add: pow2_def power_int_minus)
    finally show ?thesis using rne_err [of x] by simp
  qed simp
  moreover have "of_int g \<le> rne x" "rne x < of_int g + 1"
  proof -
    have "g = trunc_rat (rne x)" unfolding ge(1)
      using f64_to_i64_between(3) [of 0 "rne x" interval] ge(2,3) assms by (simp add: i_def is_i64_def)
    then have "g = \<lfloor>rne x\<rfloor>" using ge(2) by (simp add: trunc_rat_def)
    then show "of_int g \<le> rne x" "rne x < of_int g + 1" by linarith+
  qed
  ultimately have gx: "of_int g - 1 / 8 \<le> x" "x \<le> of_int g + 9 / 8" by linarith+
  have small: "(of_int g + 2) * pow2 (- 52) \<le> 1 / 2"
  proof -
    have "(of_int g :: rat) \<le> of_int (2 ^ 50)" using g assms by (simp only: of_int_le_iff)
    then show ?thesis by (simp add: pow2_def power_int_minus)
  qed
  have "i \<le> (of_int g + 9 / 8) * r" using gx(2) r(2) unfolding x(3) [symmetric] by (intro mult_right_mono) simp_all
  also have "\<dots> \<le> (of_int g + 2) * (1 - pow2 (- 52)) * r"
    using small r(2) by (intro mult_right_mono) (simp_all add: right_diff_distrib)
  finally have "i\<^sup>2 \<le> ((of_int g + 2) * (r * (1 - pow2 (- 52))))\<^sup>2"
    using i(1) by (intro power_mono) (simp_all add: ac_simps)
  also have "\<dots> \<le> (of_int g + 2)\<^sup>2 * of_int n"
    unfolding power_mult_distrib [of "of_int g + 2"] using r(3) by (intro mult_left_mono) simp_all
  finally have "of_int (interval\<^sup>2) \<le> (of_int ((g + 2)\<^sup>2 * n) :: rat)" by (simp add: i_def)
  then show "interval\<^sup>2 \<le> (law_gap interval n + 2)\<^sup>2 * n" unfolding g_def of_int_le_iff .
  let ?m = "max 0 (g - 1)"
  have m: "of_int ?m * (1 + pow2 (- 52)) \<le> x"
  proof (cases "1 \<le> g")
    case True
    have "of_int ?m * (1 + pow2 (- 52)) \<le> of_int g - 1 / 8"
    proof -
      have "of_int ?m * (1 + pow2 (- 52)) = of_int g - 1 + (of_int g * pow2 (- 52) - pow2 (- 52))"
        using True by (simp add: max_def distrib_left left_diff_distrib)
      moreover have "of_int g * pow2 (- 52) + 2 * pow2 (- 52) \<le> 1 / 2"
        using small by (simp only: distrib_right)
      moreover have "0 < pow2 (- 52)" by simp
      ultimately show ?thesis by linarith
    qed
    then show ?thesis using gx(1) by (rule order_trans)
  qed (use x(1) in \<open>simp add: max_def\<close>)
  have "of_int (?m\<^sup>2 * n) = (of_int ?m)\<^sup>2 * (of_int n :: rat)" by simp
  also have "\<dots> \<le> (of_int ?m)\<^sup>2 * (r * (1 + pow2 (- 52)))\<^sup>2" using r(4) by (intro mult_left_mono) simp_all
  also have "\<dots> = (of_int ?m * (1 + pow2 (- 52)) * r)\<^sup>2" by (simp add: power_mult_distrib)
  also have "\<dots> \<le> i\<^sup>2"
  proof (rule power_mono)
    show "of_int ?m * (1 + pow2 (- 52)) * r \<le> i"
      unfolding x(3) [symmetric] using m r(2) by (intro mult_right_mono) simp_all
    show "0 \<le> of_int ?m * (1 + pow2 (- 52)) * r" using r(2) pow2_nonneg [of "- 52"] by (intro mult_nonneg_nonneg) simp_all
  qed
  finally have "of_int (?m\<^sup>2 * n) \<le> (of_int (interval\<^sup>2) :: rat)" by (simp add: i_def)
  then show "(max 0 (law_gap interval n - 1))\<^sup>2 * n \<le> interval\<^sup>2" unfolding g_def of_int_le_iff .
qed

subsection \<open>A history of the control law\<close>

text \<open>One call of \<open>shouldDrop\<close>: the enqueue time of the head and the time of the call.\<close>

definition ctl_call :: "duration \<Rightarrow> duration \<Rightarrow> time \<times> time \<Rightarrow> codel_ctl \<Rightarrow> codel_ctl" where
  "ctl_call target interval x c = snd (should_drop target interval (fst x) (snd x) c)"

definition above :: "duration \<Rightarrow> time \<times> time \<Rightarrow> bool" where
  "above target x \<longleftrightarrow> target \<le> time_sub (snd x) (fst x)"

text \<open>
  An armed timer remembers when the current stretch of heads above target began: every call
  since then was above target.
\<close>

lemma ctl_history:
  assumes "first_above (run (ctl_call target interval) xs new_ctl) \<noteq> 0"
  shows "\<exists>ys x zs. xs = ys @ x # zs \<and> (\<forall>y \<in> set (x # zs). above target y)
    \<and> first_above (run (ctl_call target interval) xs new_ctl) = snd x + interval"
  using assms
proof (induction xs rule: rev_induct)
  case Nil
  then show ?case by (simp add: new_ctl_def time_defs)
next
  case (snoc x xs)
  let ?c = "run (ctl_call target interval) xs new_ctl"
  have step: "run (ctl_call target interval) (xs @ [x]) new_ctl = ctl_call target interval x ?c"
    by (simp add: run_append)
  have ab: "above target x"
    using snoc.prems unfolding step
    by (auto simp: ctl_call_def above_def should_drop_def Let_def time_defs split: if_split_asm)
  show ?case
  proof (cases "first_above ?c = 0")
    case True
    then have "first_above (ctl_call target interval x ?c) = snd x + interval"
      using ab by (simp add: ctl_call_def above_def should_drop_def time_defs)
    with ab show ?thesis unfolding step by (intro exI [of _ xs] exI [of _ x] exI [of _ "[]"]) simp
  next
    case False
    then have eq: "first_above (ctl_call target interval x ?c) = first_above ?c"
      using ab by (auto simp: ctl_call_def above_def should_drop_def Let_def time_defs)
    from snoc.IH [OF False] obtain ys y zs where h: "xs = ys @ y # zs"
      "\<forall>w \<in> set (y # zs). above target w" "first_above ?c = snd y + interval" by blast
    with ab show ?thesis unfolding step eq
      by (intro exI [of _ ys] exI [of _ y] exI [of _ "zs @ [x]"]) auto
  qed
qed

text \<open>
  C17. CoDel drops only under a standing queue: when a call drops, there was an earlier call
  at least \<open>interval\<close> before it such that the head was above target at that call and at
  every call since, this one included.
\<close>

theorem codel_drop_needs_standing_queue:
  assumes "fst (should_drop target interval enq now (run (ctl_call target interval) xs new_ctl))"
  shows "\<exists>ys x zs. xs = ys @ x # zs \<and> snd x + interval \<le> now
    \<and> (\<forall>y \<in> set (x # zs @ [(enq, now)]). above target y)"
proof -
  let ?c = "run (ctl_call target interval) xs new_ctl"
  have d: "target \<le> time_sub now enq" "first_above ?c \<noteq> 0" "first_above ?c \<le> now"
    using assms by (simp_all add: should_drop_iff)
  from ctl_history [OF d(2)] obtain ys x zs where h: "xs = ys @ x # zs"
    "\<forall>y \<in> set (x # zs). above target y" "first_above ?c = snd x + interval" by blast
  with d show ?thesis
    by (intro exI [of _ ys] exI [of _ x] exI [of _ zs]) (auto simp: above_def)
qed

theorem codel_drop_needs_standing_queue_witness:
  "\<exists>x. x \<in> set [(1000, 1005)] \<and> snd x + 100 \<le> (1110 :: int) \<and> above 5 x"
proof -
  have "fst (should_drop 5 100 1000 1110 (run (ctl_call 5 100) [(1000, 1005)] new_ctl))"
    by (simp add: ctl_call_def should_drop_def new_ctl_def time_defs time_sub_def)
  from codel_drop_needs_standing_queue [OF this] obtain ys x zs where
    "[(1000, 1005)] = ys @ x # zs" "snd x + 100 \<le> 1110" "above 5 x" by auto
  then show ?thesis by (intro exI [of _ x]) (metis in_set_conv_decomp)
qed

text \<open>Calls above target that do not drop.\<close>

lemma ctl_quiet:
  assumes "dropping c" "above target x" "\<not> fst (should_drop target interval (fst x) (snd x) c)"
    "first_above c \<noteq> 0"
  shows "ctl_call target interval x c = c"
  using assms by (auto simp: ctl_call_def above_def should_drop_def Let_def time_defs split: if_split_asm)

fun quiet :: "duration \<Rightarrow> duration \<Rightarrow> (time \<times> time) list \<Rightarrow> codel_ctl \<Rightarrow> bool" where
  "quiet target interval [] c = True"
| "quiet target interval (x # xs) c \<longleftrightarrow> above target x
     \<and> \<not> fst (should_drop target interval (fst x) (snd x) c)
     \<and> quiet target interval xs (ctl_call target interval x c)"

lemma quiet_stays:
  "dropping c \<Longrightarrow> first_above c \<noteq> 0 \<Longrightarrow> quiet target interval xs c \<Longrightarrow>
    run (ctl_call target interval) xs c = c"
  by (induction xs) (auto simp: ctl_quiet)

text \<open>The count while dropping is that of the episode's drops, at most the calls.\<close>

lemma ctl_call_counts:
  assumes "0 \<le> drop_count c" "dropping c \<longrightarrow> 1 \<le> drop_count c" "drop_count c \<le> n" "n < 2 ^ 53"
  shows "0 \<le> drop_count (ctl_call target interval x c) \<and> drop_count (ctl_call target interval x c) \<le> n + 1
    \<and> (dropping (ctl_call target interval x c) \<longrightarrow> 1 \<le> drop_count (ctl_call target interval x c))"
proof -
  have "i64 (drop_count c + 1) = drop_count c + 1" using assms by (intro i64_idI) auto
  with assms show ?thesis by (auto simp: ctl_call_def should_drop_def Let_def)
qed

lemma ctl_counts:
  assumes "length xs < 2 ^ 53"
  shows "0 \<le> drop_count (run (ctl_call target interval) xs new_ctl)
    \<and> drop_count (run (ctl_call target interval) xs new_ctl) \<le> int (length xs)
    \<and> (dropping (run (ctl_call target interval) xs new_ctl) \<longrightarrow>
        1 \<le> drop_count (run (ctl_call target interval) xs new_ctl))"
  using assms
proof (induction xs rule: rev_induct)
  case (snoc x xs)
  then show ?case
    using ctl_call_counts [of "run (ctl_call target interval) xs new_ctl" "int (length xs)" target interval x]
    by (simp add: run_append)
qed (simp add: new_ctl_def)

lemma drop_outcome:
  assumes "fst (should_drop target interval enq now c)" "dropping c \<longrightarrow> 1 \<le> drop_count c" "0 \<le> drop_count c" "drop_count c < 2 ^ 53"
  defines "d \<equiv> snd (should_drop target interval enq now c)"
  shows "dropping d" "first_above d \<noteq> 0" "first_above d \<le> now" "drop_count d = (if dropping c then drop_count c + 1 else 1)"
    "drop_next d = now + (if drop_count d = 1 then interval else law_gap interval (drop_count d))"
    "1 \<le> drop_count d" "drop_count d \<le> 2 ^ 53"
proof -
  have n: "i64 (drop_count c + 1) = drop_count c + 1" using assms(3,4) by (intro i64_idI) auto
  show "dropping d" "first_above d \<noteq> 0" "first_above d \<le> now" "drop_count d = (if dropping c then drop_count c + 1 else 1)"
    "drop_next d = now + (if drop_count d = 1 then interval else law_gap interval (drop_count d))"
    "1 \<le> drop_count d" "drop_count d \<le> 2 ^ 53"
    using assms(1-4) by (auto simp: d_def should_drop_def Let_def time_defs n split: if_split_asm)
qed

text \<open>
  C33. The control law, for an interval of at most \<open>2 ^ 50\<close> nanoseconds (13 days) and
  after any fewer than \<open>2 ^ 53\<close> calls of \<open>shouldDrop\<close> on a new pool. A drop outside
  the dropping state is the first of its episode and sets the count to 1, any other adds 1. As
  long as the heads stay above target, the next drop comes exactly when \<open>gap\<close> has passed:
  \<open>interval\<close> after the first drop of an episode, and after a later one
  \<open>interval / sqrt count\<close> up to two nanoseconds.
\<close>

theorem codel_drop_spacing:
  assumes "c = run (ctl_call target interval) xs new_ctl" "length xs < 2 ^ 53"
    and "0 \<le> interval" "interval \<le> 2 ^ 50"
    and "fst (should_drop target interval enq now c)" "c' = snd (should_drop target interval enq now c)"
  shows "drop_count c' = (if dropping c then drop_count c + 1 else 1)
    \<and> (\<exists>gap. (drop_count c' = 1 \<longrightarrow> gap = interval)
      \<and> 0 \<le> gap \<and> interval\<^sup>2 \<le> (gap + 2)\<^sup>2 * drop_count c' \<and> (max 0 (gap - 1))\<^sup>2 * drop_count c' \<le> interval\<^sup>2
      \<and> (\<forall>ys enq' now'. quiet target interval ys c' \<and> above target (enq', now') \<longrightarrow>
          fst (should_drop target interval enq' now' (run (ctl_call target interval) ys c'))
            = (now + gap \<le> now')))"
proof -
  have inv: "dropping c \<longrightarrow> 1 \<le> drop_count c" "0 \<le> drop_count c" "drop_count c < 2 ^ 53"
    using ctl_counts [OF assms(2), of target interval] assms(1,2) by auto
  note d = drop_outcome [OF assms(5) inv, folded assms(6)]
  define gap where "gap = (if drop_count c' = 1 then interval else law_gap interval (drop_count c'))"
  have gap: "0 \<le> gap" "interval\<^sup>2 \<le> (gap + 2)\<^sup>2 * drop_count c'" "(max 0 (gap - 1))\<^sup>2 * drop_count c' \<le> interval\<^sup>2"
    using law_gap_accurate [OF assms(3,4) d(6,7)] law_gap_bounds(1) [of interval "drop_count c'"] assms(3,4) d(6,7)
    by (auto simp: gap_def max_def intro!: power_mono)
  moreover have "fst (should_drop target interval enq' now' (run (ctl_call target interval) ys c'))
            = (now + gap \<le> now')"
    if "quiet target interval ys c'" "above target (enq', now')" for ys enq' now'
    using quiet_stays [OF d(1,2) that(1)] that(2) d(1-3,5) gap
    by (auto simp: should_drop_iff above_def gap_def)
  ultimately show ?thesis using d(4) by (intro conjI exI [of _ gap]) (auto simp: gap_def)
qed

theorem codel_drop_spacing_witness:
  "\<exists>c' (gap :: int). c' = snd (should_drop 5 100 1180 1210 (run (ctl_call 5 100) [(1000, 1005), (1000, 1110)] new_ctl))
    \<and> drop_count c' = 2 \<and> 100\<^sup>2 \<le> (gap + 2)\<^sup>2 * 2 \<and> (max 0 (gap - 1))\<^sup>2 * 2 \<le> 100\<^sup>2
    \<and> fst (should_drop 5 100 1250 1285 c') = (1210 + gap \<le> 1285)"
proof -
  define c where "c = run (ctl_call 5 100) [(1000, 1005), (1000, 1110)] new_ctl"
  define c' where "c' = snd (should_drop 5 100 1180 1210 c)"
  have c: "c = \<lparr>dropping = True, first_above = 1105, drop_next = 1210, drop_count = 1\<rparr>"
    by (simp add: c_def ctl_call_def should_drop_def new_ctl_def time_defs time_sub_def)
  have p: "length [(1000 :: time, 1005 :: time), (1000, 1110)] < 2 ^ 53" "(0 :: int) \<le> 100" "(100 :: int) \<le> 2 ^ 50"
    by simp_all
  have "fst (should_drop 5 100 1180 1210 c)"
    unfolding c by (simp add: should_drop_def time_defs time_sub_def Let_def)
  note t = codel_drop_spacing [OF c_def p this c'_def]
  from t have n: "drop_count c' = 2" by (simp add: c)
  from t [unfolded n] obtain gap where g: "100\<^sup>2 \<le> (gap + 2)\<^sup>2 * 2" "(max 0 (gap - 1))\<^sup>2 * 2 \<le> (100 :: int)\<^sup>2"
    "\<forall>ys enq' now'. quiet 5 100 ys c' \<and> above 5 (enq', now') \<longrightarrow>
      fst (should_drop 5 100 enq' now' (run (ctl_call 5 100) ys c')) = (1210 + gap \<le> now')"
    by (elim conjE exE)
  have "quiet 5 100 [] c' \<and> above 5 (1250, 1285)" by (simp add: above_def time_sub_def)
  with g(3) have "fst (should_drop 5 100 1250 1285 (run (ctl_call 5 100) [] c')) = (1210 + gap \<le> 1285)" by blast
  then have "fst (should_drop 5 100 1250 1285 c') = (1210 + gap \<le> 1285)" by simp
  with g(1,2) n show ?thesis unfolding c_def [symmetric] by (intro exI conjI) (rule c'_def)
qed

subsection \<open>Sustained overload\<close>

text \<open>
  What holds after \<open>n\<close> calls, the last at time \<open>t\<close>: the timer and the next drop are at most
  an interval ahead, and while dropping the timer has expired.
\<close>

definition ctl_ok :: "duration \<Rightarrow> time \<Rightarrow> int \<Rightarrow> codel_ctl \<Rightarrow> bool" where
  "ctl_ok interval t n c \<longleftrightarrow> first_above c \<le> t + interval \<and> 0 \<le> drop_count c \<and> drop_count c \<le> n
     \<and> (dropping c \<longrightarrow> first_above c \<noteq> 0 \<and> first_above c \<le> t \<and> drop_next c \<le> t + interval)"

lemma ctl_call_ok:
  assumes "ctl_ok interval t n c" "t \<le> snd x" "0 \<le> t" "0 \<le> interval" "interval \<le> 2 ^ 53" "n < 2 ^ 53"
  shows "ctl_ok interval (snd x) (n + 1) (ctl_call target interval x c)"
proof -
  have c: "i64 (drop_count c + 1) = drop_count c + 1" "1 \<le> drop_count c + 1" "drop_count c + 1 \<le> 2 ^ 53"
    using assms(1,6) by (auto simp: ctl_ok_def intro!: i64_idI)
  then have g: "law_gap interval (i64 (drop_count c + 1)) \<le> interval"
    using law_gap_bounds(2) [OF assms(4,5)] by simp
  show ?thesis using assms(1-4) g c(1,2)
    by (auto simp: ctl_call_def should_drop_def Let_def ctl_ok_def time_defs)
qed

lemma ctl_run_ok:
  assumes "ctl_ok interval t n c" "sorted (t # List.map snd xs)" "0 \<le> t" "0 \<le> interval" "interval \<le> 2 ^ 53"
    and "n + int (length xs) \<le> 2 ^ 53"
  shows "ctl_ok interval (last (t # List.map snd xs)) (n + int (length xs)) (run (ctl_call target interval) xs c)"
  using assms
proof (induction xs arbitrary: t n c)
  case (Cons x xs)
  have "ctl_ok interval (snd x) (n + 1) (ctl_call target interval x c)"
    using Cons.prems by (intro ctl_call_ok) simp_all
  then have "ctl_ok interval (last (snd x # List.map snd xs)) (n + 1 + int (length xs))
      (run (ctl_call target interval) xs (ctl_call target interval x c))"
    using Cons.prems by (intro Cons.IH) simp_all
  then show ?case by (simp add: ac_simps)
qed simp

text \<open>Calls above target that do not drop, outside the dropping state.\<close>

lemma quiet_first_above:
  "\<not> dropping c \<Longrightarrow> first_above c \<noteq> 0 \<Longrightarrow> quiet target interval xs c \<Longrightarrow> run (ctl_call target interval) xs c = c"
proof (induction xs)
  case (Cons x xs)
  then have "ctl_call target interval x c = c"
    by (auto simp: ctl_call_def above_def should_drop_def Let_def time_defs split: if_split_asm)
  with Cons show ?case by simp
qed simp

text \<open>A stretch of calls above target, an interval long, cannot be quiet.\<close>

lemma not_quiet:
  assumes ok: "ctl_ok interval t n c" and "t \<le> snd x" "0 < snd x" "0 \<le> interval" "snd x + interval \<le> snd y"
  shows "\<not> quiet target interval (x # zs @ [y]) c"
proof
  assume q: "quiet target interval (x # zs @ [y]) c"
  define d where "d = ctl_call target interval x c"
  have q': "above target x" "\<not> fst (should_drop target interval (fst x) (snd x) c)" "quiet target interval (zs @ [y]) d"
    using q by (simp_all add: d_def)
  have qs: "quiet target interval (xs @ ys) e \<longleftrightarrow> quiet target interval xs e \<and> quiet target interval ys (run (ctl_call target interval) xs e)" for xs ys e
    by (induction xs arbitrary: e) simp_all
  have zy: "quiet target interval zs d" "above target y"
    "\<not> fst (should_drop target interval (fst y) (snd y) (run (ctl_call target interval) zs d))"
    using q'(3) by (simp_all add: qs)
  have d: "first_above d \<noteq> 0 \<and> first_above d \<le> snd y \<and> (dropping d \<longrightarrow> drop_next d \<le> snd y)"
    using q'(1,2) assms
    by (auto simp: d_def ctl_call_def should_drop_def Let_def above_def ctl_ok_def time_defs split: if_split_asm)
  have "run (ctl_call target interval) zs d = d"
    using d zy(1) quiet_stays [of d] quiet_first_above [of d] by (cases "dropping d") simp_all
  with zy(2,3) d show False by (simp add: should_drop_iff above_def)
qed

text \<open>
  C18. Under sustained overload CoDel sheds: when every head is above target from one call on to
  another at least \<open>interval\<close> later, then one of the calls of that stretch drops, whatever
  the history before it was. So the law cannot stay quiet for an interval while the queue
  stands.
\<close>

theorem codel_sheds_standing_queue:
  assumes "sorted (List.map snd (xs @ x # zs @ [y]))" "\<forall>w \<in> set xs. 0 \<le> snd w" "0 < snd x"
    and "0 \<le> interval" "interval \<le> 2 ^ 53" "int (length xs) \<le> 2 ^ 53"
    and "\<forall>w \<in> set (x # zs @ [y]). above target w" "snd x + interval \<le> snd y"
  shows "\<exists>us w vs. x # zs @ [y] = us @ w # vs
    \<and> fst (should_drop target interval (fst w) (snd w) (run (ctl_call target interval) (xs @ us) new_ctl))"
proof -
  let ?c = "run (ctl_call target interval) xs new_ctl"
  have ok0: "ctl_ok interval 0 0 new_ctl" using assms(4) by (simp add: ctl_ok_def new_ctl_def time_defs)
  have s: "sorted (0 # List.map snd xs)" using assms(1,2) by (auto simp: sorted_append)
  have ok: "ctl_ok interval (last (0 # List.map snd xs)) (int (length xs)) ?c"
    using ctl_run_ok [OF ok0 s, of target] assms(4-6) by simp
  have le: "last (0 # List.map snd xs) \<le> snd x"
    using assms(1,3) by (cases xs rule: rev_cases) (auto simp: sorted_append)
  have nq: "\<not> quiet target interval (x # zs @ [y]) ?c"
    using ok le assms(3,4,8) by (rule not_quiet)
  have "\<exists>us w vs. ws = us @ w # vs \<and> fst (should_drop target interval (fst w) (snd w) (run (ctl_call target interval) us c))"
    if "\<not> quiet target interval ws c" "\<forall>w \<in> set ws. above target w" for ws c
    using that
  proof (induction ws arbitrary: c)
    case (Cons w ws)
    show ?case
    proof (cases "fst (should_drop target interval (fst w) (snd w) c)")
      case True
      then show ?thesis by (intro exI [of _ "[]"] exI [of _ w] exI [of _ ws]) simp
    next
      case False
      then obtain us v vs where "ws = us @ v # vs"
        "fst (should_drop target interval (fst v) (snd v) (run (ctl_call target interval) us (ctl_call target interval w c)))"
        using Cons.IH [of "ctl_call target interval w c"] Cons.prems by auto
      then show ?thesis by (intro exI [of _ "w # us"] exI [of _ v] exI [of _ vs]) simp
    qed
  qed simp
  from this [OF nq assms(7)] show ?thesis by (simp add: run_append)
qed

theorem codel_sheds_standing_queue_witness:
  "\<exists>us w vs. [(1000, 1005), (1020, 1060), (1040, 1105)] = us @ w # vs
    \<and> fst (should_drop 5 100 (fst w) (snd w) (run (ctl_call 5 100) ([(900, 902)] @ us) new_ctl))"
  using codel_sheds_standing_queue [of "[(900, 902)]" "(1000, 1005)" "[(1020, 1060)]" "(1040, 1105)" 100 5]
  by (simp add: above_def time_sub_def)

end
