(* ===== verification/Codel.thy ===== *)
theory Codel
  imports Pool CodelLaw
begin

text \<open>
  The CoDel pool (queue/codel.go) around the control law of \<open>CodelLaw\<close>, as a state
  machine in the style of the bounded pool: a submission is a number, the buffer holds it with
  its enqueue time, and each critical section is one step. The steps carry the clock reading
  \<open>p.now()\<close> returns; readings never decrease.
\<close>

subsection \<open>The pool's state\<close>

record 'g codel_config =
  CWorkers :: int
  Capacity :: int
  Target :: duration
  Interval :: duration
  AdaptiveLIFO :: bool
  CCpuThreshold :: int
  CGate :: "'g option"

definition default_target :: duration where "default_target = 5 * millisecond"
definition default_interval :: duration where "default_interval = 100 * millisecond"

record codel_item =
  item_id :: nat
  enq :: time

record ('g, 't) codel =
  buf :: "codel_item list"
  ctl :: codel_ctl
  cap :: int
  target :: duration
  interval :: duration
  adaptive_lifo :: bool
  c_gate :: "'g option"
  c_closed :: bool
  c_active :: int
  c_accepted :: int
  c_rejected :: int
  c_dropped :: int
  clock :: time                          \<comment> \<open>the latest reading of now\<close>
  c_n_workers :: nat
  c_tickets :: "nat \<Rightarrow> 't option"
  c_dones :: "(nat \<times> bool) multiset"
  c_results :: "(nat \<times> submit_error option) multiset"
  c_submitted :: "nat multiset"
  waiting :: "nat multiset"              \<comment> \<open>past the gate, before the lock\<close>
  popped :: "nat multiset"               \<comment> \<open>taken out to be served, active not yet incremented\<close>
  c_running :: "nat multiset"
  dropping_now :: "nat multiset"         \<comment> \<open>taken out to be dropped, onDrop not yet called\<close>
  served :: "nat multiset"
  shed :: "nat multiset"                 \<comment> \<open>onDrop has been called\<close>
  c_idle :: nat                          \<comment> \<open>workers on the way to the lock\<close>
  c_asleep :: nat                        \<comment> \<open>workers in notEmpty.Wait()\<close>
  c_exited :: nat
  c_stop_returned :: bool

definition new_codel :: "'g codel_config \<Rightarrow> time \<Rightarrow> ('g + cpu_gate, 't) codel" where
  "new_codel cfg t0 =
     (let workers = (if CWorkers cfg < 1 then 1 else CWorkers cfg);
          cap = (if Capacity cfg < 1 then 1 else Capacity cfg);
          target = (if Target cfg \<le> 0 then default_target else Target cfg);
          interval = (if Interval cfg \<le> 0 then default_interval else Interval cfg)
      in \<lparr>buf = [], ctl = new_ctl, cap = cap, target = target, interval = interval,
          adaptive_lifo = AdaptiveLIFO cfg, c_gate = gate_for (CGate cfg) (CCpuThreshold cfg),
          c_closed = False, c_active = 0, c_accepted = 0, c_rejected = 0, c_dropped = 0,
          clock = t0, c_n_workers = nat workers, c_tickets = (\<lambda>_. None), c_dones = {#},
          c_results = {#}, c_submitted = {#}, waiting = {#}, popped = {#}, c_running = {#},
          dropping_now = {#}, served = {#}, shed = {#}, c_idle = nat workers, c_asleep = 0, c_exited = 0,
          c_stop_returned = False\<rparr>)"

subsection \<open>Submissions\<close>

definition c_returns :: "nat \<Rightarrow> submit_error option \<Rightarrow> ('g, 't) codel \<Rightarrow> ('g, 't) codel" where
  "c_returns i r p = p\<lparr>c_results := add_mset (i, r) (c_results p)\<rparr>"

definition c_call_done ::
  "('env, 'g, 't) gate_ops \<Rightarrow> nat \<Rightarrow> bool \<Rightarrow> ('g, 't) codel \<Rightarrow> ('g, 't) codel" where
  "c_call_done G i b p =
     p\<lparr>c_dones := add_mset (i, b) (c_dones p),
       c_gate := (case (c_gate p, c_tickets p i) of
           (Some g, Some t) \<Rightarrow> Some (g_done G t b g) | _ \<Rightarrow> c_gate p)\<rparr>"

definition c_gate_allow ::
  "('env, 'g, 't) gate_ops \<Rightarrow> 'env \<Rightarrow> nat \<Rightarrow> ('g, 't) codel \<Rightarrow> bool \<times> ('g, 't) codel" where
  "c_gate_allow G e i p =
     (case c_gate p of
        None \<Rightarrow> (True, p)
      | Some g \<Rightarrow> (case g_allow G e g of
            (None, g') \<Rightarrow> (False, p\<lparr>c_gate := Some g'\<rparr>)
          | (Some t, g') \<Rightarrow> (True, p\<lparr>c_gate := Some g', c_tickets := (c_tickets p)(i := Some t)\<rparr>)))"

definition codel_gate ::
  "('env, 'g, 't) gate_ops \<Rightarrow> 'env \<Rightarrow> nat \<Rightarrow> ('g, 't) codel \<Rightarrow> ('g, 't) codel" where
  "codel_gate G e i p =
     (let p = p\<lparr>c_submitted := add_mset i (c_submitted p)\<rparr>
      in case c_gate_allow G e i p of
           (False, p') \<Rightarrow> c_returns i (Some ErrOverloaded) (p'\<lparr>c_rejected := c_rejected p' + 1\<rparr>)
         | (True, p') \<Rightarrow> p'\<lparr>waiting := add_mset i (waiting p')\<rparr>)"

definition codel_submit ::
  "('env, 'g, 't) gate_ops \<Rightarrow> 'env \<Rightarrow> nat \<Rightarrow> 'f option \<Rightarrow> ('g, 't) codel \<Rightarrow> submit_error + ('g, 't) codel" where
  "codel_submit G e i task p = (if task = None then Inl ErrNilTask else Inr (codel_gate G e i p))"

text \<open>\<open>SubmitWait\<close> begins in the same way; when it returns is \<open>codel_wait_returns\<close> below.\<close>

definition codel_submit_wait ::
  "('env, 'g, 't) gate_ops \<Rightarrow> 'env \<Rightarrow> nat \<Rightarrow> 'f option \<Rightarrow> ('g, 't) codel \<Rightarrow> submit_error + ('g, 't) codel" where
  "codel_submit_wait G e i task p = (if task = None then Inl ErrNilTask else Inr (codel_gate G e i p))"

text \<open>
  The condition variable \<open>notEmpty\<close>: a worker that finds an open, empty pool sleeps until
  it is woken. \<open>Signal\<close> wakes one sleeper if there is one, \<open>Broadcast\<close> all of them;
  either has no effect on workers that are awake.
\<close>

definition not_empty_wait :: "('g, 't) codel \<Rightarrow> ('g, 't) codel" where
  "not_empty_wait p = p\<lparr>c_idle := c_idle p - 1, c_asleep := c_asleep p + 1\<rparr>"

definition not_empty_signal :: "('g, 't) codel \<Rightarrow> ('g, 't) codel" where
  "not_empty_signal p =
     (if c_asleep p = 0 then p else p\<lparr>c_asleep := c_asleep p - 1, c_idle := c_idle p + 1\<rparr>)"

definition not_empty_broadcast :: "('g, 't) codel \<Rightarrow> ('g, 't) codel" where
  "not_empty_broadcast p = p\<lparr>c_idle := c_idle p + c_asleep p, c_asleep := 0\<rparr>"

text \<open>The rest of \<open>submitWithOutcome\<close> runs under the lock.\<close>

definition codel_enqueue ::
  "('env, 'g, 't) gate_ops \<Rightarrow> time \<Rightarrow> nat \<Rightarrow> ('g, 't) codel \<Rightarrow> ('g, 't) codel option" where
  "codel_enqueue G now i p =
     (if i \<notin># waiting p \<or> now < clock p then None
      else let p = p\<lparr>waiting := waiting p - {#i#}\<rparr>
      in if c_closed p then Some (c_returns i (Some ErrStopped) (c_call_done G i False p))
         else if cap p \<le> int (length (buf p))
         then Some (c_returns i (Some ErrQueueFull)
                (c_call_done G i False (p\<lparr>c_rejected := c_rejected p + 1\<rparr>)))
         else Some (c_returns i None (not_empty_signal
                (p\<lparr>buf := buf p @ [\<lparr>item_id = i, enq = now\<rparr>], clock := now,
                   c_accepted := c_accepted p + 1\<rparr>))))"

subsection \<open>Workers\<close>

datatype pick = Blocked | ExitWorker | DropItem codel_item | ServeItem codel_item

text \<open>
  What a worker does under the lock: sleep, leave, drop the oldest item, or serve one, the
  newest while dropping under adaptive LIFO and the oldest otherwise.
\<close>

definition codel_pick :: "time \<Rightarrow> ('g, 't) codel \<Rightarrow> pick \<times> ('g, 't) codel" where
  "codel_pick now p =
     (case buf p of
        [] \<Rightarrow> (if c_closed p then ExitWorker else Blocked, p)
      | it # rest \<Rightarrow>
          (case should_drop (target p) (interval p) (enq it) now (ctl p) of
             (True, c) \<Rightarrow> (DropItem it, p\<lparr>ctl := c, buf := rest, c_dropped := c_dropped p + 1\<rparr>)
           | (False, c) \<Rightarrow>
               (if adaptive_lifo p \<and> dropping c
                then (ServeItem (last (buf p)), p\<lparr>ctl := c, buf := butlast (buf p)\<rparr>)
                else (ServeItem it, p\<lparr>ctl := c, buf := rest\<rparr>))))"

definition codel_worker :: "time \<Rightarrow> ('g, 't) codel \<Rightarrow> ('g, 't) codel option" where
  "codel_worker now p =
     (if c_idle p = 0 \<or> now < clock p then None
      else case codel_pick now p of
        (Blocked, q) \<Rightarrow> Some (not_empty_wait q)
      | (ExitWorker, q) \<Rightarrow> Some (q\<lparr>c_idle := c_idle q - 1, c_exited := c_exited q + 1\<rparr>)
      | (DropItem it, q) \<Rightarrow> Some (q\<lparr>c_idle := c_idle q - 1, clock := now,
            dropping_now := add_mset (item_id it) (dropping_now q)\<rparr>)
      | (ServeItem it, q) \<Rightarrow> Some (q\<lparr>c_idle := c_idle q - 1, clock := now,
            popped := add_mset (item_id it) (popped q)\<rparr>))"

text \<open>After a drop the worker calls \<open>onDrop\<close> outside the lock and loops.\<close>

definition codel_on_drop ::
  "('env, 'g, 't) gate_ops \<Rightarrow> nat \<Rightarrow> ('g, 't) codel \<Rightarrow> ('g, 't) codel option" where
  "codel_on_drop G i p =
     (if i \<in># dropping_now p
      then Some (c_call_done G i False (p\<lparr>dropping_now := dropping_now p - {#i#},
             shed := add_mset i (shed p), c_idle := c_idle p + 1\<rparr>))
      else None)"

definition codel_begin :: "nat \<Rightarrow> ('g, 't) codel \<Rightarrow> ('g, 't) codel option" where
  "codel_begin i p =
     (if i \<in># popped p
      then Some (p\<lparr>popped := popped p - {#i#}, c_running := add_mset i (c_running p),
             c_active := c_active p + 1\<rparr>)
      else None)"

definition codel_end ::
  "('env, 'g, 't) gate_ops \<Rightarrow> nat \<Rightarrow> task_outcome \<Rightarrow> ('g, 't) codel \<Rightarrow> ('g, 't) codel option" where
  "codel_end G i out p =
     (if i \<in># c_running p
      then Some (c_call_done G i (outcome_success out) (p\<lparr>c_running := c_running p - {#i#},
             served := add_mset i (served p), c_active := c_active p - 1, c_idle := c_idle p + 1\<rparr>))
      else None)"

definition codel_stop :: "('g, 't) codel \<Rightarrow> ('g, 't) codel option" where
  "codel_stop p = (if c_closed p then None else Some (not_empty_broadcast (p\<lparr>c_closed := True\<rparr>)))"

definition codel_stop_wait :: "('g, 't) codel \<Rightarrow> ('g, 't) codel option" where
  "codel_stop_wait p =
     (if c_closed p \<and> c_exited p = c_n_workers p then Some (p\<lparr>c_stop_returned := True\<rparr>) else None)"

definition codel_set_gate ::
  "('env, 'g, 't) gate_ops \<Rightarrow> bool \<Rightarrow> ('g, 't) codel \<Rightarrow> ('g, 't) codel" where
  "codel_set_gate G on p =
     p\<lparr>c_gate := (case c_gate p of None \<Rightarrow> None | Some g \<Rightarrow> Some (g_set_enabled G on g))\<rparr>"

definition codel_pool_gate :: "('g, 't) codel \<Rightarrow> 'g option" where
  "codel_pool_gate p = c_gate p"

record codel_stats =
  CQueued :: int
  CActive :: int
  CAccepted :: int
  CRejected :: int
  CDropped :: int

definition codel_pool_stats :: "('g, 't) codel \<Rightarrow> codel_stats" where
  "codel_pool_stats p = \<lparr>CQueued = int (length (buf p)), CActive = c_active p,
     CAccepted = c_accepted p, CRejected = c_rejected p, CDropped = c_dropped p\<rparr>"

text \<open>\<open>SubmitWait\<close>: the error of the submission, \<open>ErrDropped\<close>, or nil.\<close>

definition codel_wait_returns :: "nat \<Rightarrow> submit_error option \<Rightarrow> ('g, 't) codel \<Rightarrow> bool" where
  "codel_wait_returns i r p \<longleftrightarrow>
     (r \<noteq> None \<and> (i, r) \<in># c_results p)
     \<or> (i, None) \<in># c_results p \<and>
        (if i \<in># shed p then r = Some ErrDropped else r = None \<and> i \<in># served p)"

definition codel_handler ::
  "submit_error option \<Rightarrow> 'p handler_run \<Rightarrow> http_call list \<times> 'p option" where
  "codel_handler err h =
     (if err \<noteq> None then (shed_response, None) else (cw_inner (serve h []), panics h))"

datatype 'env codel_event =
    CSubmit 'env nat | CEnqueue time nat | CWorker time | COnDrop nat | CBegin nat
  | CEnd nat task_outcome | CStop | CStopped | CSetGate bool

fun codel_exec ::
  "('env, 'g, 't) gate_ops \<Rightarrow> 'env codel_event \<Rightarrow> ('g, 't) codel \<Rightarrow> ('g, 't) codel option" where
  "codel_exec G (CSubmit e i) p = (if i \<in># c_submitted p then None else Some (codel_gate G e i p))"
| "codel_exec G (CEnqueue now i) p = codel_enqueue G now i p"
| "codel_exec G (CWorker now) p = codel_worker now p"
| "codel_exec G (COnDrop i) p = codel_on_drop G i p"
| "codel_exec G (CBegin i) p = codel_begin i p"
| "codel_exec G (CEnd i out) p = codel_end G i out p"
| "codel_exec G CStop p = codel_stop p"
| "codel_exec G CStopped p = codel_stop_wait p"
| "codel_exec G (CSetGate on) p = Some (codel_set_gate G on p)"

inductive codel_step :: "('env, 'g, 't) gate_ops \<Rightarrow> ('g, 't) codel \<Rightarrow> ('g, 't) codel \<Rightarrow> bool" for G where
  codel_stepI: "codel_exec G ev p = Some q \<Longrightarrow> codel_step G p q"

inductive_cases codel_stepE: "codel_step G p q"

fun run_codel ::
  "('env, 'g, 't) gate_ops \<Rightarrow> 'env codel_event list \<Rightarrow> ('g, 't) codel \<Rightarrow> ('g, 't) codel option" where
  "run_codel G [] p = Some p"
| "run_codel G (ev # evs) p =
     (case codel_exec G ev p of None \<Rightarrow> None | Some q \<Rightarrow> run_codel G evs q)"

lemma run_codel_reach: "run_codel G evs p = Some q \<Longrightarrow> reach p (codel_step G) q"
proof (induction evs arbitrary: p)
  case (Cons ev evs)
  then obtain r where r: "codel_exec G ev p = Some r" "run_codel G evs r = Some q"
    by (auto split: option.splits)
  have "reach p (codel_step G) r" using r(1) by (auto intro: reach.intros codel_stepI)
  with Cons.IH [OF r(2)] show ?case by (rule reach_trans)
qed (simp add: reach.intros)

lemmas not_empty_defs = not_empty_wait_def not_empty_signal_def not_empty_broadcast_def
lemmas codel_submit_defs = codel_gate_def c_gate_allow_def c_returns_def c_call_done_def
  codel_enqueue_def not_empty_signal_def
lemmas codel_worker_defs = codel_worker_def codel_on_drop_def codel_begin_def codel_end_def
lemmas codel_defs = codel_submit_defs codel_worker_defs codel_stop_def codel_stop_wait_def
  codel_set_gate_def not_empty_wait_def not_empty_broadcast_def


subsection \<open>Invariants\<close>

definition queued_ids :: "('g, 't) codel \<Rightarrow> nat multiset" where
  "queued_ids p = image_mset item_id (mset (buf p))"

definition c_admitted :: "('g, 't) codel \<Rightarrow> nat multiset" where
  "c_admitted p = queued_ids p + popped p + c_running p + served p + dropping_now p + shed p"

text \<open>
  The counters and the workers: the buffer within its cap, \<open>Active\<close>, \<open>Accepted\<close> and
  \<open>Dropped\<close> counting what they name, every worker in one place, and none gone while the
  pool is open or the buffer holds an item. No wake-up is lost: nobody sleeps once the pool is
  closed, and while somebody sleeps there is a worker on its way for every item.
\<close>

definition c_slots_inv :: "('g, 't) codel \<Rightarrow> bool" where
  "c_slots_inv p \<longleftrightarrow>
     int (length (buf p)) \<le> cap p \<and> 0 < c_n_workers p
     \<and> c_active p = int (size (c_running p))
     \<and> c_dropped p = int (size (dropping_now p) + size (shed p))
     \<and> c_accepted p = int (length (buf p) + size (popped p) + size (c_running p) + size (served p)
         + size (dropping_now p) + size (shed p))
     \<and> c_n_workers p = c_idle p + c_asleep p + size (popped p) + size (c_running p) + size (dropping_now p)
         + c_exited p
     \<and> (0 < c_exited p \<longrightarrow> c_closed p \<and> buf p = [])
     \<and> (0 < c_asleep p \<longrightarrow> \<not> c_closed p \<and> length (buf p) \<le> c_idle p)
     \<and> (c_stop_returned p \<longrightarrow> c_closed p \<and> c_idle p = 0 \<and> popped p = {#} \<and> c_running p = {#}
         \<and> dropping_now p = {#})"

text \<open>The buffer is in the order of its enqueue times.\<close>

definition c_order_inv :: "('g, 't) codel \<Rightarrow> bool" where
  "c_order_inv p \<longleftrightarrow> sorted (List.map enq (buf p)) \<and> (\<forall>it \<in> set (buf p). enq it \<le> clock p)"

definition c_result_ids :: "(submit_error option \<Rightarrow> bool) \<Rightarrow> ('g, 't) codel \<Rightarrow> nat multiset" where
  "c_result_ids P p = image_mset fst (filter_mset (\<lambda>x. P (snd x)) (c_results p))"

definition c_done_ids :: "('g, 't) codel \<Rightarrow> nat multiset" where
  "c_done_ids p = image_mset fst (c_dones p)"

definition c_ids_inv :: "('g, 't) codel \<Rightarrow> bool" where
  "c_ids_inv p \<longleftrightarrow>
     c_submitted p = waiting p + c_admitted p + c_result_ids (\<lambda>r. r \<noteq> None) p
     \<and> c_result_ids (\<lambda>r. r = None) p = c_admitted p
     \<and> c_done_ids p = served p + shed p
         + c_result_ids (\<lambda>r. r \<noteq> None \<and> r \<noteq> Some ErrOverloaded) p
     \<and> c_rejected p = int (size (c_result_ids is_shed p))"

definition c_unique_inv :: "('g, 't) codel \<Rightarrow> bool" where
  "c_unique_inv p \<longleftrightarrow> (\<forall>i. count (c_submitted p) i \<le> 1)"

definition codel_inv :: "('g, 't) codel \<Rightarrow> bool" where
  "codel_inv p \<longleftrightarrow> c_slots_inv p \<and> c_order_inv p \<and> c_ids_inv p \<and> c_unique_inv p"

lemmas c_ids_defs = c_ids_inv_def c_result_ids_def c_done_ids_def c_admitted_def queued_ids_def
  is_shed_def

lemma new_codel_inv: "codel_inv (new_codel cfg t0)"
  by (simp add: codel_inv_def new_codel_def c_slots_inv_def c_order_inv_def c_ids_defs
      c_unique_inv_def Let_def)

text \<open>What a worker picks, and what is left in the buffer.\<close>

lemma codel_pick_buf:
  "codel_pick now p = (DropItem it, q) \<Longrightarrow> buf p = it # buf q"
  "codel_pick now p = (ServeItem it, q) \<Longrightarrow> buf p = it # buf q \<or> buf p = buf q @ [it]"
  "codel_pick now p = (ExitWorker, q) \<Longrightarrow> buf p = [] \<and> c_closed p \<and> q = p"
  by (auto simp: codel_pick_def split: list.splits prod.splits bool.splits if_splits)

lemma codel_pick_frame:
  assumes "codel_pick now p = (k, q)"
  shows "q = p\<lparr>ctl := ctl q, buf := buf q, c_dropped := c_dropped q\<rparr>"
  using assms
  by (cases p) (auto simp: codel_pick_def split: list.splits prod.splits bool.splits if_splits)

lemma codel_pick_dropped:
  "codel_pick now p = (k, q) \<Longrightarrow>
     c_dropped q = c_dropped p + (case k of DropItem _ \<Rightarrow> 1 | _ \<Rightarrow> 0)"
  by (auto simp: codel_pick_def split: list.splits prod.splits bool.splits if_splits)

text \<open>A worker's step, by what it picked.\<close>

lemma codel_worker_cases:
  assumes "codel_worker now p = Some q"
  obtains (exit) "buf p = []" "c_closed p" "0 < c_idle p"
      "q = p\<lparr>c_idle := c_idle p - 1, c_exited := c_exited p + 1\<rparr>"
  | (sleep) "buf p = []" "\<not> c_closed p" "0 < c_idle p" "q = not_empty_wait p"
  | (drop) it rest c where "buf p = it # rest" "0 < c_idle p" "clock p \<le> now"
      "should_drop (target p) (interval p) (enq it) now (ctl p) = (True, c)"
      "q = p\<lparr>ctl := c, buf := rest, c_dropped := c_dropped p + 1, c_idle := c_idle p - 1,
         clock := now, dropping_now := add_mset (item_id it) (dropping_now p)\<rparr>"
  | (oldest) it rest c where "buf p = it # rest" "0 < c_idle p" "clock p \<le> now"
      "should_drop (target p) (interval p) (enq it) now (ctl p) = (False, c)"
      "\<not> (adaptive_lifo p \<and> dropping c)"
      "q = p\<lparr>ctl := c, buf := rest, c_idle := c_idle p - 1,
         clock := now, popped := add_mset (item_id it) (popped p)\<rparr>"
  | (newest) it rest c where "buf p = rest @ [it]" "0 < c_idle p" "clock p \<le> now"
      "should_drop (target p) (interval p) (enq (hd (buf p))) now (ctl p) = (False, c)"
      "adaptive_lifo p" "dropping c"
      "q = p\<lparr>ctl := c, buf := rest, c_idle := c_idle p - 1,
         clock := now, popped := add_mset (item_id it) (popped p)\<rparr>"
proof (cases "buf p")
  case Nil
  with assms exit sleep show thesis
    by (auto simp: codel_worker_def codel_pick_def split: if_split_asm)
next
  case (Cons it rest)
  obtain d c where sd: "should_drop (target p) (interval p) (enq it) now (ctl p) = (d, c)"
    by fastforce
  have g: "0 < c_idle p" "clock p \<le> now" using assms by (auto simp: codel_worker_def split: if_split_asm)
  consider "d" | "\<not> d" "\<not> (adaptive_lifo p \<and> dropping c)" | "\<not> d" "adaptive_lifo p" "dropping c"
    by blast
  then show thesis
  proof cases
    case 1
    with assms Cons sd g show thesis by (intro drop) (auto simp: codel_worker_def codel_pick_def)
  next
    case 2
    with assms Cons sd g show thesis by (intro oldest) (auto simp: codel_worker_def codel_pick_def)
  next
    case 3
    have q: "q = p\<lparr>ctl := c, buf := butlast (buf p), c_idle := c_idle p - 1, clock := now,
        popped := add_mset (item_id (last (buf p))) (popped p)\<rparr>"
      using assms Cons sd g 3 by (simp add: codel_worker_def codel_pick_def)
    from Cons sd 3 have "should_drop (target p) (interval p) (enq (hd (buf p))) now (ctl p) = (False, c)"
      by simp
    moreover have "buf p = butlast (buf p) @ [last (buf p)]" using Cons by simp
    ultimately show thesis by (rule newest [OF _ g _ 3(2,3) q, rotated])
  qed
qed


text \<open>Every step keeps the counters.\<close>

lemma c_slots_frame [simp]:
  "c_slots_inv (c_call_done G i b p) = c_slots_inv p"
  "c_slots_inv (c_returns i r p) = c_slots_inv p"
  "c_slots_inv (p\<lparr>c_rejected := x\<rparr>) = c_slots_inv p"
  "c_slots_inv (p\<lparr>waiting := a\<rparr>) = c_slots_inv p"
  "c_slots_inv (p\<lparr>c_submitted := m\<rparr>) = c_slots_inv p"
  "c_slots_inv (codel_set_gate G on p) = c_slots_inv p"
  by (simp_all add: c_slots_inv_def c_call_done_def c_returns_def codel_set_gate_def)

lemma c_gate_allow_slots: "c_slots_inv (snd (c_gate_allow G e i p)) = c_slots_inv p"
  by (simp add: c_gate_allow_def c_slots_inv_def split: option.split prod.split)

lemma codel_gate_slots: "c_slots_inv p \<Longrightarrow> c_slots_inv (codel_gate G e i p)"
  by (auto simp: codel_gate_def Let_def split: prod.split bool.split
      dest: arg_cong [where f = "\<lambda>r. c_slots_inv (snd r)"] simp: c_gate_allow_slots)

lemma codel_enqueue_slots:
  assumes "c_slots_inv p" and "codel_enqueue G now i p = Some q"
  shows "c_slots_inv q"
proof -
  have "c_slots_inv (not_empty_signal
      (p\<lparr>waiting := w, buf := buf p @ [x], clock := now, c_accepted := c_accepted p + 1\<rparr>))"
    if "\<not> c_closed p" "\<not> cap p \<le> int (length (buf p))" for w x
    using assms(1) that unfolding c_slots_inv_def not_empty_signal_def by auto
  with assms show ?thesis by (auto simp: codel_enqueue_def Let_def split: if_split_asm)
qed

lemma codel_worker_slots:
  assumes "c_slots_inv p" and "codel_worker now p = Some q"
  shows "c_slots_inv q"
  using assms(2,1) by (cases rule: codel_worker_cases) (auto simp: c_slots_inv_def not_empty_wait_def)

lemma codel_on_drop_slots:
  assumes "c_slots_inv p" and "codel_on_drop G i p = Some q"
  shows "c_slots_inv q"
proof -
  from assms(2) have i: "i \<in># dropping_now p" by (auto simp: codel_on_drop_def split: if_splits)
  then obtain D where "dropping_now p = add_mset i D" by (rule member_splitE)
  with assms(1) have "c_slots_inv (p\<lparr>dropping_now := dropping_now p - {#i#},
      shed := add_mset i (shed p), c_idle := c_idle p + 1\<rparr>)"
    unfolding c_slots_inv_def by clarsimp
  with assms(2) i show ?thesis by (auto simp: codel_on_drop_def)
qed

lemma codel_begin_slots:
  assumes "c_slots_inv p" and "codel_begin i p = Some q"
  shows "c_slots_inv q"
proof -
  from assms(2) have "i \<in># popped p" by (auto simp: codel_begin_def split: if_splits)
  then obtain P where "popped p = add_mset i P" by (rule member_splitE)
  with assms show ?thesis unfolding codel_begin_def c_slots_inv_def by clarsimp
qed

lemma codel_end_slots:
  assumes "c_slots_inv p" and "codel_end G i out p = Some q"
  shows "c_slots_inv q"
proof -
  from assms(2) have i: "i \<in># c_running p" by (auto simp: codel_end_def split: if_splits)
  then obtain R where "c_running p = add_mset i R" by (rule member_splitE)
  with assms(1) have "c_slots_inv (p\<lparr>c_running := c_running p - {#i#}, served := add_mset i (served p),
      c_active := c_active p - 1, c_idle := c_idle p + 1\<rparr>)"
    unfolding c_slots_inv_def by clarsimp
  with assms(2) i show ?thesis by (auto simp: codel_end_def)
qed

lemma codel_stop_slots:
  "c_slots_inv p \<Longrightarrow> codel_stop p = Some q \<Longrightarrow> c_slots_inv q"
  "c_slots_inv p \<Longrightarrow> codel_stop_wait p = Some q \<Longrightarrow> c_slots_inv q"
  unfolding codel_stop_def codel_stop_wait_def not_empty_broadcast_def c_slots_inv_def by (clarsimp split: if_splits)+

lemma codel_exec_slots: "c_slots_inv p \<Longrightarrow> codel_exec G ev p = Some q \<Longrightarrow> c_slots_inv q"
  by (cases ev) (auto intro: codel_gate_slots codel_enqueue_slots codel_worker_slots
      codel_on_drop_slots codel_begin_slots codel_end_slots codel_stop_slots split: if_splits)

text \<open>And the order of the buffer: items are appended at the clock and taken from an end.\<close>

lemma c_order_frame [simp]:
  "c_order_inv (c_call_done G i b p) = c_order_inv p"
  "c_order_inv (c_returns i r p) = c_order_inv p"
  by (simp_all add: c_order_inv_def c_call_done_def c_returns_def)

lemma codel_exec_order: "c_order_inv p \<Longrightarrow> codel_exec G ev p = Some q \<Longrightarrow> c_order_inv q"
proof (cases ev)
  case (CEnqueue now i)
  assume "c_order_inv p" "codel_exec G ev p = Some q"
  with CEnqueue show ?thesis
    by (force simp: codel_enqueue_def not_empty_signal_def c_order_inv_def c_call_done_def c_returns_def sorted_append
        Let_def split: if_split_asm)
next
  case (CWorker now)
  assume a: "c_order_inv p" "codel_exec G ev p = Some q"
  with CWorker have "codel_worker now p = Some q" by simp
  then show ?thesis using a(1)
    by (cases rule: codel_worker_cases) (auto simp: c_order_inv_def not_empty_wait_def sorted_append)
qed (auto simp: c_order_inv_def codel_gate_def c_gate_allow_def c_returns_def c_call_done_def
    codel_on_drop_def codel_begin_def codel_end_def codel_stop_def codel_stop_wait_def
    not_empty_broadcast_def codel_set_gate_def Let_def split: if_split_asm option.splits prod.splits bool.splits)


text \<open>No step loses a submission or answers one twice.\<close>

lemma codel_gate_ids: "c_ids_inv p \<Longrightarrow> c_ids_inv (codel_gate G e i p)"
  by (auto simp: codel_gate_def c_gate_allow_def c_returns_def c_ids_defs Let_def
      split: option.split prod.split bool.split)

lemma codel_enqueue_ids:
  assumes "c_ids_inv p" and "codel_enqueue G now i p = Some q"
  shows "c_ids_inv q"
proof -
  from assms(2) have "i \<in># waiting p" by (auto simp: codel_enqueue_def split: if_splits)
  then obtain W where "waiting p = add_mset i W" by (rule member_splitE)
  with assms show ?thesis
    by (auto simp: codel_enqueue_def not_empty_signal_def c_returns_def c_call_done_def c_ids_defs ac_simps Let_def
        split: if_split_asm)
qed

lemma codel_worker_ids:
  assumes "c_ids_inv p" and "codel_worker now p = Some q"
  shows "c_ids_inv q"
  using assms(2,1) by (cases rule: codel_worker_cases) (auto simp: c_ids_defs ac_simps not_empty_wait_def)

lemma codel_on_drop_ids:
  assumes "c_ids_inv p" and "codel_on_drop G i p = Some q"
  shows "c_ids_inv q"
proof -
  from assms(2) have "i \<in># dropping_now p" by (auto simp: codel_on_drop_def split: if_splits)
  then obtain D where "dropping_now p = add_mset i D" by (rule member_splitE)
  with assms show ?thesis by (auto simp: codel_on_drop_def c_call_done_def c_ids_defs ac_simps)
qed

lemma codel_begin_ids:
  assumes "c_ids_inv p" and "codel_begin i p = Some q"
  shows "c_ids_inv q"
proof -
  from assms(2) have "i \<in># popped p" by (auto simp: codel_begin_def split: if_splits)
  then obtain P where "popped p = add_mset i P" by (rule member_splitE)
  with assms show ?thesis by (auto simp: codel_begin_def c_ids_defs ac_simps)
qed

lemma codel_end_ids:
  assumes "c_ids_inv p" and "codel_end G i out p = Some q"
  shows "c_ids_inv q"
proof -
  from assms(2) have "i \<in># c_running p" by (auto simp: codel_end_def split: if_splits)
  then obtain R where "c_running p = add_mset i R" by (rule member_splitE)
  with assms show ?thesis by (auto simp: codel_end_def c_call_done_def c_ids_defs ac_simps)
qed

lemma codel_stop_ids:
  "c_ids_inv p \<Longrightarrow> codel_stop p = Some q \<Longrightarrow> c_ids_inv q"
  "c_ids_inv p \<Longrightarrow> codel_stop_wait p = Some q \<Longrightarrow> c_ids_inv q"
  "c_ids_inv p \<Longrightarrow> c_ids_inv (codel_set_gate G on p)"
  by (auto simp: codel_stop_def codel_stop_wait_def not_empty_broadcast_def codel_set_gate_def c_ids_defs split: if_splits)

lemma codel_exec_ids: "c_ids_inv p \<Longrightarrow> codel_exec G ev p = Some q \<Longrightarrow> c_ids_inv q"
  by (cases ev) (auto intro: codel_gate_ids codel_enqueue_ids codel_worker_ids codel_on_drop_ids
      codel_begin_ids codel_end_ids codel_stop_ids split: if_splits)

text \<open>The configuration is fixed, results are kept, and only a submission adds a number.\<close>

lemma codel_worker_fixed:
  assumes "codel_worker now p = Some q"
  shows "c_submitted q = c_submitted p" "cap q = cap p" "c_n_workers q = c_n_workers p"
    "c_results q = c_results p" "target q = target p" "interval q = interval p"
    "adaptive_lifo q = adaptive_lifo p" "c_closed q = c_closed p" "shed q = shed p"
  using assms by (cases rule: codel_worker_cases; simp add: not_empty_wait_def)+

lemma codel_exec_fixed:
  assumes "codel_exec G ev p = Some q"
  shows "cap q = cap p \<and> c_n_workers q = c_n_workers p \<and> target q = target p
    \<and> interval q = interval p \<and> adaptive_lifo q = adaptive_lifo p \<and> c_results p \<subseteq># c_results q"
proof (cases ev)
  case (CWorker now)
  with assms show ?thesis by (simp add: codel_worker_fixed)
qed (use assms in \<open>auto simp: codel_submit_defs codel_on_drop_def codel_begin_def codel_end_def
    codel_stop_def codel_stop_wait_def not_empty_broadcast_def codel_set_gate_def Let_def
    split: if_split_asm option.splits prod.splits bool.splits\<close>)

lemma codel_exec_unique: "c_unique_inv p \<Longrightarrow> codel_exec G ev p = Some q \<Longrightarrow> c_unique_inv q"
proof (cases ev)
  case (CWorker now)
  assume "c_unique_inv p" "codel_exec G ev p = Some q"
  with CWorker show ?thesis by (simp add: c_unique_inv_def codel_worker_fixed)
qed (auto simp: c_unique_inv_def codel_submit_defs codel_on_drop_def codel_begin_def codel_end_def
    codel_stop_def codel_stop_wait_def not_empty_broadcast_def codel_set_gate_def Let_def not_in_iff
    split: if_split_asm option.splits prod.splits bool.splits)

lemma codel_step_inv: "codel_inv p \<Longrightarrow> codel_step G p q \<Longrightarrow> codel_inv q"
  by (auto simp: codel_inv_def elim!: codel_stepE
      intro: codel_exec_slots codel_exec_order codel_exec_ids codel_exec_unique)

interpretation codel_sys: transition_system "new_codel cfg t0" "codel_step G" codel_inv
  for cfg t0 G
  by unfold_locales (auto intro: new_codel_inv codel_step_inv)


subsection \<open>Properties of the CoDel pool\<close>

lemma codel_reach_inv:
  assumes "reach (new_codel cfg t0) (codel_step G) p"
  shows "c_slots_inv p" "c_order_inv p" "c_ids_inv p" "c_unique_inv p"
  using codel_sys.inv_reach [OF assms] by (simp_all add: codel_inv_def)

lemma c_result_ids_member: "i \<in># c_result_ids P p \<longleftrightarrow> (\<exists>r. (i, r) \<in># c_results p \<and> P r)"
  by (force simp: c_result_ids_def)

lemma c_result_ids_mono:
  "(\<And>r. P r \<Longrightarrow> Q r) \<Longrightarrow> count (c_result_ids P p) i \<le> count (c_result_ids Q p) i"
  unfolding c_result_ids_def
  by (intro mset_subset_eq_count image_mset_subseteq_mono filter_mset_mono_strong) simp_all

lemma codel_one_place:
  assumes "reach (new_codel cfg t0) (codel_step G) p"
  shows "count (waiting p + c_admitted p + c_result_ids (\<lambda>r. r \<noteq> None) p) i \<le> 1"
  using codel_reach_inv(3,4) [OF assms] by (simp only: c_ids_inv_def c_unique_inv_def)

lemma codel_reach_cap:
  "reach (new_codel cfg t0) (codel_step G) p \<Longrightarrow> cap p = max 1 (Capacity cfg)"
proof (induction rule: reach.induct)
  case reach_init
  then show ?case by (simp add: new_codel_def Let_def max_def)
next
  case (reach_step s t)
  from reach_step.hyps(2) obtain ev where "codel_exec G ev s = Some t" by (auto elim: codel_stepE)
  with reach_step.IH show ?case by (simp add: codel_exec_fixed)
qed

text \<open>
  C2. The gate callback of a CoDel submission is called exactly once: when its task has run,
  when CoDel dropped it, or when the submission failed past the gate; and not before.
\<close>

theorem codel_done_exactly_once:
  assumes "reach (new_codel cfg t0) (codel_step G) p"
  shows "count (c_done_ids p) i =
    (if i \<in># served p + shed p
        \<or> (\<exists>err. (i, Some err) \<in># c_results p \<and> err \<noteq> ErrOverloaded) then 1 else 0)"
proof -
  let ?R = "c_result_ids (\<lambda>r. r \<noteq> None \<and> r \<noteq> Some ErrOverloaded) p"
  have d: "count (c_done_ids p) i = count (served p + shed p) i + count ?R i"
    using codel_reach_inv(3) [OF assms] by (simp add: c_ids_inv_def)
  have le: "count (served p + shed p) i + count ?R i \<le> 1"
    using codel_one_place [OF assms, of i]
      c_result_ids_mono [of "\<lambda>r. r \<noteq> None \<and> r \<noteq> Some ErrOverloaded" "\<lambda>r. r \<noteq> None" p i]
    by (simp add: c_admitted_def)
  have r: "i \<in># ?R \<longleftrightarrow> (\<exists>err. (i, Some err) \<in># c_results p \<and> err \<noteq> ErrOverloaded)"
    by (auto simp: c_result_ids_member)
  show ?thesis
  proof (cases "i \<in># served p + shed p \<or> i \<in># ?R")
    case True
    then have "1 \<le> count (served p + shed p) i + count ?R i"
      by (metis One_nat_def Suc_leI add_gr_0 count_greater_zero_iff)
    with le True r d show ?thesis by simp
  next
    case False
    then have "count (served p + shed p) i = 0" "count ?R i = 0" by (meson not_in_iff)+
    with False r d show ?thesis by simp
  qed
qed

text \<open>
  The accounts of \<open>Stats\<close> balance: every accepted task is queued, about to run,
  running, finished or dropped, and the queue is within its capacity.
\<close>

theorem codel_accounting:
  assumes "reach (new_codel cfg t0) (codel_step G) p"
  shows "CAccepted (codel_pool_stats p) =
      CQueued (codel_pool_stats p) + CActive (codel_pool_stats p) + CDropped (codel_pool_stats p)
        + int (size (popped p)) + int (size (served p))
    \<and> CQueued (codel_pool_stats p) \<le> max 1 (Capacity cfg)"
  using codel_reach_inv(1) [OF assms] codel_reach_cap [OF assms]
  by (simp add: c_slots_inv_def codel_pool_stats_def)

text \<open>Drops and results are never taken back.\<close>

lemma codel_exec_shed: "codel_exec G ev p = Some q \<Longrightarrow> shed p \<subseteq># shed q"
proof (cases ev)
  case (CWorker now)
  assume "codel_exec G ev p = Some q"
  with CWorker show ?thesis by (simp add: codel_worker_fixed)
qed (auto simp: codel_submit_defs codel_on_drop_def codel_begin_def codel_end_def
    codel_stop_def codel_stop_wait_def not_empty_broadcast_def codel_set_gate_def Let_def
    split: if_split_asm option.splits prod.splits bool.splits)

lemma codel_reach_kept:
  "reach p (codel_step G) q \<Longrightarrow> shed p \<subseteq># shed q \<and> c_results p \<subseteq># c_results q"
proof (induction rule: reach.induct)
  case (reach_step s t)
  from reach_step.hyps(2) obtain ev where "codel_exec G ev s = Some t" by (auto elim: codel_stepE)
  with reach_step.IH show ?case
    using codel_exec_shed codel_exec_fixed subset_mset.order_trans by metis
qed simp

text \<open>
  A task CoDel sheds, or whose submission is rejected, never runs: once
  \<open>SubmitWait\<close> can return an error for \<open>i\<close>, its task is neither queued, picked to
  run, running nor run, then or in any later state.
\<close>

theorem codel_shed_never_runs:
  assumes "reach (new_codel cfg t0) (codel_step G) p" and "codel_wait_returns i (Some err) p"
    and "reach p (codel_step G) q"
  shows "i \<notin># queued_ids q + popped q + c_running q + served q"
proof -
  have q: "reach (new_codel cfg t0) (codel_step G) q" using assms(3,1) by (rule reach_trans)
  have "i \<in># shed q \<or> i \<in># c_result_ids (\<lambda>r. r \<noteq> None) q"
    using assms(2) codel_reach_kept [OF assms(3)]
    by (auto simp: codel_wait_returns_def c_result_ids_member dest: mset_subset_eqD split: if_splits)
  then have "1 \<le> count (shed q) i + count (c_result_ids (\<lambda>r. r \<noteq> None) q) i"
    by (metis One_nat_def Suc_leI add_gr_0 count_greater_zero_iff)
  then have "count (queued_ids q + popped q + c_running q + served q) i = 0"
    using codel_one_place [OF q, of i] by (simp add: c_admitted_def)
  then show ?thesis by (simp only: not_in_iff)
qed

text \<open>
  C19. What a worker takes from the queue: the item it drops has waited longest of all and at
  least \<open>target\<close>; under adaptive LIFO in the dropping state it serves an item no older than
  any other; otherwise it serves the one that has waited longest.
\<close>

theorem codel_worker_choice:
  assumes "reach (new_codel cfg t0) (codel_step G) p" and "codel_worker now p = Some q"
    and "buf p \<noteq> []"
  shows "\<exists>it. mset (buf p) = add_mset it (mset (buf q)) \<and>
    (if c_dropped q = c_dropped p + 1
     then dropping_now q = add_mset (item_id it) (dropping_now p)
       \<and> target p \<le> time_sub now (enq it) \<and> (\<forall>x \<in> set (buf p). enq it \<le> enq x)
     else popped q = add_mset (item_id it) (popped p)
       \<and> (if adaptive_lifo p \<and> dropping (ctl q) then \<forall>x \<in> set (buf p). enq x \<le> enq it
          else \<forall>x \<in> set (buf p). enq it \<le> enq x))"
proof -
  have s: "sorted (List.map enq (buf p))"
    using codel_reach_inv(2) [OF assms(1)] by (simp add: c_order_inv_def)
  from assms(2) show ?thesis
  proof (cases rule: codel_worker_cases)
    case exit
    with assms(3) show ?thesis by simp
  next
    case sleep
    with assms(3) show ?thesis by simp
  next
    case (drop it rest c)
    then have "fst (should_drop (target p) (interval p) (enq it) now (ctl p))" by simp
    then have "target p \<le> time_sub now (enq it)" by (simp only: should_drop_iff)
    with s drop show ?thesis by (intro exI [of _ it]) simp
  next
    case (oldest it rest c)
    with s show ?thesis by (intro exI [of _ it]) auto
  next
    case (newest it rest c)
    with s show ?thesis by (intro exI [of _ it]) (auto simp: sorted_append)
  qed
qed

text \<open>
  \<open>Stop\<close> drains: when it has returned the queue is empty, no worker holds a task,
  and every submission that \<open>Submit\<close> accepted has either run or been dropped.
\<close>

theorem codel_stop_drains:
  assumes "reach (new_codel cfg t0) (codel_step G) p" and "c_stop_returned p"
  shows "buf p = [] \<and> c_exited p = c_n_workers p \<and> c_active p = 0
    \<and> c_result_ids (\<lambda>r. r = None) p = served p + shed p"
proof -
  note inv = codel_reach_inv(1) [OF assms(1), unfolded c_slots_inv_def]
  have e: "c_exited p = c_n_workers p" "0 < c_n_workers p" "popped p = {#}" "c_running p = {#}"
    "dropping_now p = {#}" using inv assms(2) by auto
  with inv have "buf p = []" by simp
  with e inv codel_reach_inv(3) [OF assms(1)] show ?thesis
    by (simp add: c_ids_inv_def c_admitted_def queued_ids_def)
qed


subsection \<open>The timer outlives an empty queue\<close>

text \<open>
  One worker with the default target of 5 ms and interval of 100 ms. Task 1 waits 10 ms and
  arms the timer; the queue is then empty for 180 ms while task 1 runs; task 2 comes, waits
  10 ms for the worker and is dropped, although no queue stood for an interval: only a
  dequeue below target resets \<open>firstAbove\<close>, an empty queue does not.
\<close>

definition lull_cfg :: "cpu_gate codel_config" where
  "lull_cfg = \<lparr>CWorkers = 1, Capacity = 2, Target = 0, Interval = 0, AdaptiveLIFO = False,
     CCpuThreshold = 0, CGate = None\<rparr>"

definition lull_before :: "(int \<times> int) codel_event list" where
  "lull_before = [CSubmit (0, 0) 0, CEnqueue (1000 * millisecond) 0, CWorker (1000 * millisecond),
     CBegin 0, CSubmit (0, 0) 1, CEnqueue (1000 * millisecond) 1, CEnd 0 (Ret True),
     CWorker (1010 * millisecond), CBegin 1]"

definition lull_after :: "(int \<times> int) codel_event list" where
  "lull_after = [CSubmit (0, 0) 2, CEnqueue (1190 * millisecond) 2, CEnd 1 (Ret True),
     CWorker (1200 * millisecond), COnDrop 2]"

lemmas lull_defs = lull_cfg_def demo_ops_def new_codel_def gate_for_def new_ctl_def
  codel_defs codel_pick_def should_drop_def time_defs time_sub_def
  default_target_def default_interval_def Let_def

text \<open>
  A transient queue can be dropped: there is a run in which the queue is empty after
  1010 ms, task 2 is enqueued alone at 1190 ms, and at 1200 ms it is dropped after 10 ms.
\<close>

theorem codel_transient_drop:
  "map_option (\<lambda>p. (buf p, clock p)) (run_codel demo_ops lull_before (new_codel lull_cfg 0))
     = Some ([], 1010 * millisecond)
   \<and> map_option (\<lambda>p. (shed p, served p, clock p))
       (run_codel demo_ops (lull_before @ lull_after) (new_codel lull_cfg 0))
     = Some ({#2#}, {#0, 1#}, 1200 * millisecond)"
  by (simp add: lull_before_def lull_after_def lull_defs outcome_success_def)

subsection \<open>Concrete runs\<close>

lemma lull_reach:
  obtains p where "reach (new_codel lull_cfg 0) (codel_step demo_ops) p"
    "codel_wait_returns 2 (Some ErrDropped) p" "shed p = {#2#}" "served p = {#0, 1#}"
proof -
  have "\<exists>p. run_codel demo_ops (lull_before @ lull_after) (new_codel lull_cfg 0) = Some p
      \<and> codel_wait_returns 2 (Some ErrDropped) p \<and> shed p = {#2#} \<and> served p = {#0, 1#}"
    by (simp add: lull_before_def lull_after_def lull_defs outcome_success_def codel_wait_returns_def)
  then show thesis using that run_codel_reach by blast
qed

lemma lull_pick_reach:
  obtains p q where "reach (new_codel lull_cfg 0) (codel_step demo_ops) p"
    "codel_worker (1200 * millisecond) p = Some q" "buf p = [\<lparr>item_id = 2, enq = 1190 * millisecond\<rparr>]"
proof -
  have "\<exists>p. run_codel demo_ops (lull_before @ butlast (butlast lull_after)) (new_codel lull_cfg 0) = Some p
      \<and> codel_worker (1200 * millisecond) p \<noteq> None
      \<and> buf p = [\<lparr>item_id = 2, enq = 1190 * millisecond\<rparr>]"
    by (simp add: lull_before_def lull_after_def lull_defs outcome_success_def)
  then show thesis using that run_codel_reach by blast
qed

lemma lull_stop_reach:
  obtains p where "reach (new_codel lull_cfg 0) (codel_step demo_ops) p" "c_stop_returned p"
    "served p + shed p = {#0, 1, 2#}"
proof -
  have "\<exists>p. run_codel demo_ops (lull_before @ lull_after @ [CStop, CWorker (1200 * millisecond), CStopped])
      (new_codel lull_cfg 0) = Some p \<and> c_stop_returned p \<and> served p + shed p = {#0, 1, 2#}"
    by (simp add: lull_before_def lull_after_def lull_defs outcome_success_def)
  then show thesis using that run_codel_reach by blast
qed

theorem codel_done_exactly_once_witness:
  "\<exists>p. reach (new_codel lull_cfg 0) (codel_step demo_ops) p \<and> count (c_done_ids p) 2 = 1"
proof -
  obtain p where p: "reach (new_codel lull_cfg 0) (codel_step demo_ops) p" "shed p = {#2#}"
    by (rule lull_reach)
  then show ?thesis by (intro exI [of _ p]) (simp add: codel_done_exactly_once [OF p(1)])
qed

theorem codel_accounting_witness:
  "\<exists>p. reach (new_codel lull_cfg 0) (codel_step demo_ops) p
     \<and> CAccepted (codel_pool_stats p) = CQueued (codel_pool_stats p) + CActive (codel_pool_stats p)
        + CDropped (codel_pool_stats p) + int (size (popped p)) + 2"
proof -
  obtain p where p: "reach (new_codel lull_cfg 0) (codel_step demo_ops) p" "served p = {#0, 1#}"
    by (rule lull_reach)
  with codel_accounting [OF p(1)] show ?thesis by (intro exI [of _ p]) simp
qed

theorem codel_shed_never_runs_witness:
  "\<exists>p. reach (new_codel lull_cfg 0) (codel_step demo_ops) p
     \<and> 2 \<notin># queued_ids p + popped p + c_running p + served p"
proof -
  obtain p where p: "reach (new_codel lull_cfg 0) (codel_step demo_ops) p"
    "codel_wait_returns 2 (Some ErrDropped) p" by (rule lull_reach)
  from codel_shed_never_runs [OF p reach_init] p(1) show ?thesis by blast
qed

theorem codel_worker_choice_witness:
  "\<exists>p q it. reach (new_codel lull_cfg 0) (codel_step demo_ops) p
     \<and> codel_worker (1200 * millisecond) p = Some q \<and> mset (buf p) = add_mset it (mset (buf q))"
proof -
  obtain p q where p: "reach (new_codel lull_cfg 0) (codel_step demo_ops) p"
    "codel_worker (1200 * millisecond) p = Some q" "buf p = [\<lparr>item_id = 2, enq = 1190 * millisecond\<rparr>]"
    by (rule lull_pick_reach)
  then have "buf p \<noteq> []" by simp
  from codel_worker_choice [OF p(1,2) this] p(1,2) show ?thesis by blast
qed

theorem codel_stop_drains_witness:
  "\<exists>p. reach (new_codel lull_cfg 0) (codel_step demo_ops) p
     \<and> c_result_ids (\<lambda>r. r = None) p = {#0, 1, 2#}"
proof -
  obtain p where p: "reach (new_codel lull_cfg 0) (codel_step demo_ops) p" "c_stop_returned p"
    "served p + shed p = {#0, 1, 2#}" by (rule lull_stop_reach)
  with codel_stop_drains [OF p(1,2)] show ?thesis by (intro exI [of _ p]) simp
qed

end
