(* ===== verification/CodelStop.thy ===== *)
theory CodelStop
  imports Codel
begin

text \<open>
  Progress of the CoDel pool: what is left of its own steps, that once it is closed they run
  out with every accepted task served or dropped and every submitter answered, and that while it
  is open no item stays in the buffer with every worker asleep.
\<close>

subsection \<open>The pool's own steps\<close>

text \<open>
  Everything but a new call of \<open>Submit\<close>, \<open>SetGateEnabled\<close>, the call of \<open>Stop\<close> and its
  return. \<open>codel_work\<close> bounds how many of them are left.
\<close>

fun codel_own :: "'env codel_event \<Rightarrow> bool" where
  "codel_own (CEnqueue _ _) = True"
| "codel_own (CWorker _) = True"
| "codel_own (COnDrop _) = True"
| "codel_own (CBegin _) = True"
| "codel_own (CEnd _ _) = True"
| "codel_own _ = False"

definition codel_work :: "('g, 't) codel \<Rightarrow> nat" where
  "codel_work p = 6 * size (waiting p) + 4 * length (buf p) + 3 * size (popped p) + 2 * size (c_running p)
     + 2 * size (dropping_now p) + c_idle p"

lemma codel_work_frame [simp]:
  "codel_work (c_call_done G i b p) = codel_work p"
  "codel_work (c_returns i r p) = codel_work p"
  "codel_work (p\<lparr>c_rejected := x\<rparr>) = codel_work p"
  by (simp_all add: codel_work_def c_call_done_def c_returns_def)

lemma codel_work_decreases:
  assumes "codel_own ev" and "codel_exec G ev p = Some q"
  shows "codel_work q < codel_work p"
proof (cases ev)
  case (CEnqueue now i)
  with assms have e: "codel_enqueue G now i p = Some q" by simp
  then have "i \<in># waiting p" by (auto simp: codel_enqueue_def split: if_split_asm)
  then obtain W where "waiting p = add_mset i W" by (rule member_splitE)
  with e show ?thesis
    by (auto simp: codel_enqueue_def Let_def split: if_split_asm) (auto simp: codel_work_def not_empty_signal_def)
next
  case (CWorker now)
  with assms have "codel_worker now p = Some q" by simp
  then show ?thesis
    by (cases rule: codel_worker_cases) (auto simp: codel_work_def not_empty_wait_def)
next
  case (COnDrop i)
  with assms show ?thesis
    by (auto simp: codel_on_drop_def split: if_split_asm) (auto simp: codel_work_def elim!: member_splitE)
next
  case (CBegin i)
  with assms show ?thesis by (auto simp: codel_begin_def codel_work_def split: if_split_asm elim!: member_splitE)
next
  case (CEnd i out)
  with assms show ?thesis
    by (auto simp: codel_end_def split: if_split_asm) (auto simp: codel_work_def elim!: member_splitE)
qed (use assms in simp_all)

lemma codel_worker_moves: "0 < c_idle p \<Longrightarrow> codel_worker (clock p) p \<noteq> None"
  by (cases "codel_pick (clock p) p") (auto simp: codel_worker_def split: pick.split)

text \<open>
  Progress: with a submitter before the lock, a task in a worker's hands or a worker awake the
  pool has a step of its own. Nobody sleeps in a closed pool, and in an open one an item in the
  buffer has a worker awake or busy, so the same holds while anything is left.
\<close>

lemma codel_moves:
  fixes G :: "('env, 'g, 't) gate_ops"
  assumes "waiting p + popped p + c_running p + dropping_now p \<noteq> {#} \<or> 0 < c_idle p"
  shows "\<exists>(ev :: 'env codel_event) q. codel_own ev \<and> codel_exec G ev p = Some q"
proof -
  have "\<exists>ev :: 'env codel_event. codel_own ev \<and> codel_exec G ev p \<noteq> None"
  proof -
    consider i where "i \<in># waiting p" | i where "i \<in># popped p" | i where "i \<in># c_running p"
      | i where "i \<in># dropping_now p" | "0 < c_idle p"
      using assms by (metis multiset_nonemptyE union_iff)
    then show ?thesis
    proof cases
      case (1 i)
      then show ?thesis
        by (intro exI [of _ "CEnqueue (clock p) i"]) (simp add: codel_enqueue_def Let_def)
    next
      case (2 i)
      then show ?thesis by (intro exI [of _ "CBegin i"]) (simp add: codel_begin_def)
    next
      case (3 i)
      then show ?thesis by (intro exI [of _ "CEnd i (Ret True)"]) (simp add: codel_end_def)
    next
      case (4 i)
      then show ?thesis by (intro exI [of _ "COnDrop i"]) (simp add: codel_on_drop_def)
    next
      case 5
      then show ?thesis using codel_worker_moves by (intro exI [of _ "CWorker (clock p)"]) simp
    qed
  qed
  then show ?thesis by blast
qed

lemma codel_closed_moves:
  "c_slots_inv p \<Longrightarrow> c_closed p \<Longrightarrow> waiting p \<noteq> {#} \<or> c_exited p < c_n_workers p \<Longrightarrow>
     waiting p + popped p + c_running p + dropping_now p \<noteq> {#} \<or> 0 < c_idle p"
  by (auto simp: c_slots_inv_def)

text \<open>What an open pool still owes: the submissions without an answer.\<close>

definition unanswered :: "('g, 't) codel \<Rightarrow> nat multiset" where
  "unanswered p = waiting p + queued_ids p + popped p + c_running p + dropping_now p"

lemma codel_open_moves:
  assumes "c_slots_inv p" "\<not> c_closed p" "unanswered p \<noteq> {#}"
  shows "waiting p + popped p + c_running p + dropping_now p \<noteq> {#} \<or> 0 < c_idle p"
proof (rule ccontr)
  assume "\<not> ?thesis"
  then have e: "waiting p = {#}" "popped p = {#}" "c_running p = {#}" "dropping_now p = {#}" "c_idle p = 0" by auto
  then have "buf p \<noteq> []" using assms(3) by (auto simp: unanswered_def queued_ids_def)
  moreover have "0 < c_asleep p" using assms(1,2) e by (auto simp: c_slots_inv_def)
  ultimately show False using assms(1) e by (simp add: c_slots_inv_def)
qed

lemma codel_exec_closed: "codel_exec G ev p = Some q \<Longrightarrow> c_closed p \<Longrightarrow> c_closed q"
proof (cases ev)
  case (CWorker now)
  moreover assume "codel_exec G ev p = Some q" "c_closed p"
  ultimately show ?thesis by (simp add: codel_worker_fixed)
qed (auto simp: codel_submit_defs codel_on_drop_def codel_begin_def codel_end_def codel_stop_def
    codel_stop_wait_def not_empty_broadcast_def codel_set_gate_def Let_def
    split: if_split_asm option.splits prod.splits bool.splits)

text \<open>A closed pool accepts nothing and loses nothing.\<close>

lemma codel_own_admitted:
  assumes "codel_own ev" and "codel_exec G ev p = Some q" and "c_closed p"
  shows "c_admitted q = c_admitted p"
proof (cases ev)
  case (CWorker now)
  with assms have "codel_worker now p = Some q" by simp
  then show ?thesis by (cases rule: codel_worker_cases) (auto simp: c_admitted_def queued_ids_def not_empty_wait_def)
qed (use assms in \<open>auto simp: codel_enqueue_def codel_on_drop_def codel_begin_def codel_end_def c_call_done_def
    c_returns_def c_admitted_def queued_ids_def Let_def split: if_split_asm elim!: member_splitE\<close>)

interpretation codel_drain: draining "codel_exec G" codel_own
    "\<lambda>p. c_slots_inv p \<and> c_ids_inv p \<and> c_closed p \<and> c_admitted p = a0"
    "\<lambda>p. waiting p \<noteq> {#} \<or> c_exited p < c_n_workers p" codel_work
  for G a0
proof
  fix s :: "('b, 'c) codel" and ev t
  assume g: "c_slots_inv s \<and> c_ids_inv s \<and> c_closed s \<and> c_admitted s = a0"
    and e: "codel_own ev" "codel_exec G ev s = Some t"
  show "codel_work t < codel_work s" using e by (rule codel_work_decreases)
  show "c_slots_inv t \<and> c_ids_inv t \<and> c_closed t \<and> c_admitted t = a0"
    using g e codel_own_admitted [OF e] by (auto intro: codel_exec_slots codel_exec_ids codel_exec_closed)
next
  fix s :: "('b, 'c) codel"
  assume "c_slots_inv s \<and> c_ids_inv s \<and> c_closed s \<and> c_admitted s = a0" "waiting s \<noteq> {#} \<or> c_exited s < c_n_workers s"
  then show "\<exists>ev t. codel_own ev \<and> codel_exec G ev s = Some t" using codel_closed_moves [of s] codel_moves [of s G] by blast
qed

lemma run_codel_runs_to: "run_codel G evs p = runs_to (codel_exec G) evs p"
  by (induction evs arbitrary: p) (auto split: option.split)

lemma drained_codel:
  assumes "c_slots_inv q" "c_closed q" "\<not> (waiting q \<noteq> {#} \<or> c_exited q < c_n_workers q)"
  shows "waiting q = {#} \<and> codel_stop_wait q \<noteq> None \<and> served q + shed q = c_admitted q"
proof -
  have "c_exited q = c_n_workers q" "popped q = {#}" "c_running q = {#}" "dropping_now q = {#}" "buf q = []"
    using assms by (auto simp: c_slots_inv_def)
  with assms show ?thesis by (simp add: c_admitted_def queued_ids_def codel_stop_wait_def)
qed

lemma codel_runs_out:
  fixes G :: "('env, 'g, 't) gate_ops"
  assumes "c_slots_inv p" "c_ids_inv p" "c_closed p"
  obtains evs :: "'env codel_event list" and q where "list_all codel_own evs" "length evs \<le> codel_work p"
    "run_codel G evs p = Some q" "c_ids_inv q" "waiting q = {#}" "codel_stop_wait q \<noteq> None"
    "served q + shed q = c_admitted p"
proof -
  obtain evs :: "'env codel_event list" and q where q: "list_all codel_own evs" "length evs \<le> codel_work p"
    "runs_to (codel_exec G) evs p = Some q" "c_slots_inv q" "c_ids_inv q" "c_closed q" "c_admitted q = c_admitted p"
    "\<not> (waiting q \<noteq> {#} \<or> c_exited q < c_n_workers q)"
    using codel_drain.runs_dry [of p "c_admitted p" G] assms by auto
  then show thesis using that drained_codel [OF q(4,6,8)] unfolding run_codel_runs_to by simp
qed

lemma submissions_answered:
  "c_ids_inv q \<Longrightarrow> waiting q = {#} \<Longrightarrow> c_submitted q = image_mset fst (c_results q)"
proof -
  assume "c_ids_inv q" "waiting q = {#}"
  then have "c_submitted q = c_result_ids (\<lambda>r. r = None) q + c_result_ids (\<lambda>r. r \<noteq> None) q"
    by (simp add: c_ids_inv_def)
  also have "\<dots> = image_mset fst (c_results q)"
    unfolding c_result_ids_def by (metis (no_types) image_mset_union multiset_partition)
  finally show ?thesis .
qed

text \<open>
  C11. \<open>Stop\<close> of the CoDel pool returns: after it has closed the pool and woken its workers, the
  pool's own steps run out however they are scheduled, within the work that is left, and not
  before \<open>Stop\<close> can return, every task accepted before was served or dropped, and every
  submission has its answer; and such a run exists.
\<close>

theorem codel_stop_terminates:
  fixes G :: "('env, 'g + cpu_gate, 't) gate_ops"
  assumes "reach (new_codel cfg t0) (codel_step G) p" and "c_closed p"
  shows "(\<forall>(evs :: 'env codel_event list) q. list_all codel_own evs \<and> run_codel G evs p = Some q \<longrightarrow>
        length evs \<le> codel_work p
        \<and> ((\<exists>(ev :: 'env codel_event) r. codel_own ev \<and> codel_exec G ev q = Some r)
           \<or> codel_stop_wait q \<noteq> None \<and> served q + shed q = c_admitted p
             \<and> c_submitted q = image_mset fst (c_results q)))
    \<and> (\<exists>(evs :: 'env codel_event list) q. list_all codel_own evs \<and> length evs \<le> codel_work p
         \<and> run_codel G evs p = Some q \<and> codel_stop_wait q \<noteq> None \<and> served q + shed q = c_admitted p
         \<and> c_submitted q = image_mset fst (c_results q))"
proof (rule conjI)
  note inv = codel_reach_inv [OF assms(1)]
  have good: "c_slots_inv p \<and> c_ids_inv p \<and> c_closed p \<and> c_admitted p = c_admitted p" using inv assms(2) by simp
  show "\<forall>(evs :: 'env codel_event list) q. list_all codel_own evs \<and> run_codel G evs p = Some q \<longrightarrow>
        length evs \<le> codel_work p
        \<and> ((\<exists>(ev :: 'env codel_event) r. codel_own ev \<and> codel_exec G ev q = Some r)
           \<or> codel_stop_wait q \<noteq> None \<and> served q + shed q = c_admitted p
             \<and> c_submitted q = image_mset fst (c_results q))"
    unfolding run_codel_runs_to
    using codel_drain.runs_until_dry [OF good] drained_codel submissions_answered by metis
  obtain evs :: "'env codel_event list" and q where q: "list_all codel_own evs" "length evs \<le> codel_work p"
    "run_codel G evs p = Some q" "c_ids_inv q" "waiting q = {#}" "codel_stop_wait q \<noteq> None"
    "served q + shed q = c_admitted p"
    using inv(1,3) assms(2) by (rule codel_runs_out)
  then show "\<exists>(evs :: 'env codel_event list) q. list_all codel_own evs \<and> length evs \<le> codel_work p
         \<and> run_codel G evs p = Some q \<and> codel_stop_wait q \<noteq> None \<and> served q + shed q = c_admitted p
         \<and> c_submitted q = image_mset fst (c_results q)"
    using submissions_answered [OF q(4,5)] by blast
qed

theorem codel_stop_terminates_witness:
  "\<exists>p (evs :: (int \<times> int) codel_event list) q. reach (new_codel lull_cfg 0) (codel_step demo_ops) p
     \<and> run_codel demo_ops evs p = Some q \<and> codel_stop_wait q \<noteq> None"
proof -
  obtain p where p: "reach (new_codel lull_cfg 0) (codel_step demo_ops) p" "c_stop_returned p"
    by (rule lull_stop_reach)
  then have "c_closed p" using codel_reach_inv(1) [OF p(1)] by (simp add: c_slots_inv_def)
  with p(1) codel_stop_terminates [OF p(1)] show ?thesis by blast
qed

subsection \<open>No wake-up is lost\<close>

lemma codel_exec_open: "codel_own ev \<Longrightarrow> codel_exec G ev p = Some q \<Longrightarrow> c_closed q = c_closed p \<and> c_submitted q = c_submitted p"
  by (cases ev)
    (auto simp: codel_enqueue_def codel_worker_fixed codel_on_drop_def codel_begin_def codel_end_def c_returns_def
      c_call_done_def not_empty_signal_def Let_def split: if_split_asm)

interpretation codel_answers: draining "codel_exec G" codel_own
    "\<lambda>p. c_slots_inv p \<and> c_ids_inv p \<and> \<not> c_closed p \<and> c_submitted p = s0"
    "\<lambda>p. unanswered p \<noteq> {#}" codel_work
  for G s0
proof
  fix s :: "('b, 'c) codel" and ev t
  assume g: "c_slots_inv s \<and> c_ids_inv s \<and> \<not> c_closed s \<and> c_submitted s = s0"
    and e: "codel_own ev" "codel_exec G ev s = Some t"
  show "codel_work t < codel_work s" using e by (rule codel_work_decreases)
  show "c_slots_inv t \<and> c_ids_inv t \<and> \<not> c_closed t \<and> c_submitted t = s0"
    using g e codel_exec_open [OF e] by (auto intro: codel_exec_slots codel_exec_ids)
next
  fix s :: "('b, 'c) codel"
  assume "c_slots_inv s \<and> c_ids_inv s \<and> \<not> c_closed s \<and> c_submitted s = s0" "unanswered s \<noteq> {#}"
  then show "\<exists>ev t. codel_own ev \<and> codel_exec G ev s = Some t" using codel_open_moves [of s] codel_moves [of s G] by blast
qed

lemma none_unanswered:
  assumes "c_ids_inv q" "unanswered q = {#}" "i \<in># c_submitted q"
  shows "\<exists>r. codel_wait_returns i r q"
proof -
  let ?R = "c_result_ids (\<lambda>r. r \<noteq> None) q" and ?N = "c_result_ids (\<lambda>r. r = None) q"
  have "c_submitted q = ?N + ?R" "?N = served q + shed q"
    using assms(1,2) by (auto simp: c_ids_inv_def c_admitted_def unanswered_def)
  with assms(3) consider "i \<in># ?R" | "i \<in># ?N" "i \<in># served q + shed q" by auto
  then show ?thesis by cases (auto simp: c_result_ids_member codel_wait_returns_def)
qed

text \<open>
  C12. Every caller of the CoDel pool gets its answer, also while the pool is open and its workers
  sleep on the condition variable: from every reachable state the pool's own steps run out
  however they are scheduled, and they cannot have run out before \<open>SubmitWait\<close> can return to
  every submission; so no item is left in the buffer with every worker asleep.
\<close>

theorem codel_answers_everyone:
  fixes G :: "('env, 'g + cpu_gate, 't) gate_ops"
  assumes "reach (new_codel cfg t0) (codel_step G) p" and "\<not> c_closed p"
    and "list_all codel_own evs" "run_codel G evs p = Some q"
  shows "length evs \<le> codel_work p
    \<and> ((\<exists>(ev :: 'env codel_event) r. codel_own ev \<and> codel_exec G ev q = Some r)
       \<or> buf q = [] \<and> (\<forall>i \<in># c_submitted q. \<exists>r. codel_wait_returns i r q))"
proof -
  have "c_slots_inv p \<and> c_ids_inv p \<and> \<not> c_closed p \<and> c_submitted p = c_submitted p"
    using codel_reach_inv [OF assms(1)] assms(2) by simp
  note d = codel_answers.runs_until_dry [OF this assms(3) assms(4) [unfolded run_codel_runs_to]]
  moreover have "buf q = []" if "unanswered q = {#}" using that by (simp add: unanswered_def queued_ids_def)
  ultimately show ?thesis using none_unanswered [of q] by blast
qed

text \<open>The only worker is asleep when the submissions reach the lock.\<close>

definition sleepers :: "(int \<times> int) codel_event list" where
  "sleepers = [CWorker 0, CSubmit (0, 0) 0, CSubmit (0, 0) 1]"

theorem codel_answers_everyone_witness:
  "\<exists>p q. run_codel demo_ops sleepers (new_codel lull_cfg 0) = Some p \<and> c_asleep p = c_n_workers p
    \<and> run_codel demo_ops [CEnqueue 5 0, CEnqueue 6 1, CWorker 6, CBegin 0, CEnd 0 (Ret True), CWorker 7, CBegin 1,
        CEnd 1 (Ret False), CWorker 7] p = Some q
    \<and> buf q = [] \<and> (\<forall>i \<in># c_submitted q. \<exists>r. codel_wait_returns i r q)"
proof -
  let ?evs = "[CEnqueue 5 0, CEnqueue 6 1, CWorker 6, CBegin 0, CEnd 0 (Ret True), CWorker 7, CBegin 1,
        CEnd 1 (Ret False), CWorker 7] :: (int \<times> int) codel_event list"
  have "\<exists>p. run_codel demo_ops sleepers (new_codel lull_cfg 0) = Some p \<and> c_asleep p = c_n_workers p \<and> \<not> c_closed p
      \<and> (\<exists>q. run_codel demo_ops ?evs p = Some q \<and> c_idle q = 0 \<and> waiting q = {#} \<and> popped q = {#}
          \<and> c_running q = {#} \<and> dropping_now q = {#})"
    by (simp add: sleepers_def lull_defs outcome_success_def)
  then obtain p q where p: "run_codel demo_ops sleepers (new_codel lull_cfg 0) = Some p" "c_asleep p = c_n_workers p"
    "\<not> c_closed p" and q: "run_codel demo_ops ?evs p = Some q" "c_idle q = 0" "waiting q = {#}" "popped q = {#}"
    "c_running q = {#}" "dropping_now q = {#}" by blast
  have stuck: "\<not> (codel_own ev \<and> codel_exec demo_ops ev q = Some r)" for ev r
    using q(2-) by (cases ev) (simp_all add: codel_enqueue_def codel_worker_def codel_on_drop_def codel_begin_def codel_end_def)
  have "list_all codel_own ?evs" by simp
  from codel_answers_everyone [OF run_codel_reach [OF p(1)] p(3) this q(1)] stuck p(1,2) q(1) show ?thesis by blast
qed

end
