(* ===== verification/CodelSpec.thy ===== *)
theory CodelSpec
  imports CodelStop Executor
begin

text \<open>
  The CoDel pool of queue/codel.go as an executor: a task is accepted where it is appended to
  the buffer, and leaves it when a worker serves it, from the old end or, under adaptive LIFO,
  the new one, or drops it from the old end.
\<close>

definition codel_rules :: "nat \<Rightarrow> nat \<Rightarrow> bool \<Rightarrow> executor_rules" where
  "codel_rules w c lifo = \<lparr>x_workers = w, x_queue = c, x_budget = w + c, x_newest = lifo, x_discard = True\<rparr>"

definition codel_view :: "('g, 't) codel \<Rightarrow> executor" where
  "codel_view p = \<lparr>ex_waiting = List.map item_id (buf p), ex_running = popped p + c_running p,
     ex_over = served p + dropping_now p + shed p, ex_refused = c_result_ids (\<lambda>r. r \<noteq> None) p,
     ex_closed = c_closed p\<rparr>"

fun codel_acts :: "('env, 'g, 't) gate_ops \<Rightarrow> 'env codel_event \<Rightarrow> ('g, 't) codel \<Rightarrow> act option" where
  "codel_acts G (CSubmit e i) p = (if fst (c_gate_allow G e i p) then None else Some (Refuse i))"
| "codel_acts G (CEnqueue now i) p =
     Some (if c_closed p \<or> cap p \<le> int (length (buf p)) then Refuse i else Accept i)"
| "codel_acts G (CWorker now) p =
     (case fst (codel_pick now p) of
        DropItem it \<Rightarrow> Some (Discard (item_id it))
      | ServeItem it \<Rightarrow> Some (if it = hd (buf p) then Start (item_id it) else StartNewest (item_id it))
      | _ \<Rightarrow> None)"
| "codel_acts G (CEnd i out) p = Some (Finish i)"
| "codel_acts G CStop p = Some Close"
| "codel_acts G ev p = None"

definition codel_good :: "nat \<Rightarrow> nat \<Rightarrow> bool \<Rightarrow> ('g, 't) codel \<Rightarrow> bool" where
  "codel_good w c lifo p \<longleftrightarrow> codel_inv p \<and> c_n_workers p = w \<and> cap p = int c \<and> adaptive_lifo p = lifo"

lemma codel_good_step: "codel_good w c lifo p \<Longrightarrow> codel_exec G ev p = Some q \<Longrightarrow> codel_good w c lifo q"
  by (auto simp: codel_good_def dest: codel_exec_fixed intro: codel_step_inv codel_stepI)

lemma codel_fresh:
  assumes "codel_inv p" and "i \<in># waiting p \<or> i \<notin># c_submitted p"
  shows "ex_fresh i (codel_view p)"
proof -
  let ?R = "c_result_ids (\<lambda>r. r \<noteq> None) p"
  have c: "count (c_submitted p) i \<le> 1" "c_submitted p = waiting p + c_admitted p + ?R"
    using assms(1) by (auto simp: codel_inv_def c_unique_inv_def c_ids_inv_def)
  have "count (c_admitted p) i + count ?R i = 0"
  proof (cases "i \<in># c_submitted p")
    case True
    then have "1 \<le> count (waiting p) i" using assms(2) by (metis Suc_leI count_greater_zero_iff One_nat_def)
    then show ?thesis using c(1) unfolding c(2) count_union by linarith
  next
    case False
    then have "count (c_submitted p) i = 0" by (simp add: not_in_iff)
    then show ?thesis unfolding c(2) count_union by linarith
  qed
  moreover have "ex_all (codel_view p) = c_admitted p + ?R"
    by (simp add: ex_all_def codel_view_def c_admitted_def queued_ids_def ac_simps)
  ultimately show ?thesis by (simp add: ex_fresh_count)
qed

lemma codel_view_frame [simp]:
  "codel_view (c_call_done G i b p) = codel_view p"
  "codel_view (p\<lparr>waiting := a\<rparr>) = codel_view p"
  "codel_view (p\<lparr>waiting := a, c_rejected := z\<rparr>) = codel_view p"
  "codel_view (p\<lparr>c_rejected := z\<rparr>) = codel_view p"
  "codel_view (p\<lparr>c_submitted := m\<rparr>) = codel_view p"
  "codel_view (codel_set_gate G on p) = codel_view p"
  "codel_view (p\<lparr>c_gate := g\<rparr>) = codel_view p"
  "codel_view (p\<lparr>c_gate := g, c_tickets := ts\<rparr>) = codel_view p"
  "codel_view (p\<lparr>c_idle := k, c_exited := k'\<rparr>) = codel_view p"
  "codel_view (p\<lparr>c_stop_returned := b\<rparr>) = codel_view p"
  "codel_view (not_empty_wait p) = codel_view p"
  "codel_view (not_empty_signal p) = codel_view p"
  "codel_view (not_empty_broadcast p) = codel_view p"
  by (simp_all add: not_empty_defs codel_view_def c_result_ids_def c_call_done_def codel_set_gate_def)

lemma codel_view_returns [simp]:
  "codel_view (c_returns i (Some err) p) = codel_view p\<lparr>ex_refused := add_mset i (ex_refused (codel_view p))\<rparr>"
  "codel_view (c_returns i None p) = codel_view p"
  by (simp_all add: codel_view_def c_result_ids_def c_returns_def)

lemma view_codel_gate:
  "codel_view (codel_gate G e i p) =
     (if fst (c_gate_allow G e i p) then codel_view p
      else codel_view p\<lparr>ex_refused := add_mset i (ex_refused (codel_view p))\<rparr>)"
  by (auto simp: codel_gate_def c_gate_allow_def Let_def split: option.split prod.split)

lemma codel_worker_shown:
  assumes "codel_good w c lifo p" and "codel_worker now p = Some q"
  shows "case codel_acts G (CWorker now) p of
      None \<Rightarrow> codel_view q = codel_view p
    | Some a \<Rightarrow> exec_act (codel_rules w c lifo) a (codel_view p) = Some (codel_view q)"
proof -
  have inv: "c_slots_inv p" and fixed: "c_n_workers p = w" "adaptive_lifo p = lifo"
    using assms(1) by (simp_all add: codel_good_def codel_inv_def)
  have free: "0 < c_idle p \<Longrightarrow> size (popped p) + size (c_running p) < w"
    using inv fixed by (simp add: c_slots_inv_def)
  from assms(2) show ?thesis
  proof (cases rule: codel_worker_cases)
    case exit
    then show ?thesis by (simp add: codel_pick_def)
  next
    case sleep
    then show ?thesis by (simp add: codel_pick_def)
  next
    case (drop it rest c')
    then show ?thesis by (simp add: codel_pick_def codel_view_def codel_rules_def c_result_ids_def)
  next
    case (oldest it rest c')
    then have "fst (codel_pick now p) = ServeItem it" by (auto simp: codel_pick_def)
    then show ?thesis using oldest free by (simp add: codel_view_def codel_rules_def c_result_ids_def)
  next
    case (newest it rest c')
    obtain x xs where b: "buf p = x # xs" using newest(1) by (metis append_is_Nil_conv list.exhaust not_Cons_self2)
    have l: "last (buf p) = it" "butlast (buf p) = rest" using newest by simp_all
    have k: "fst (codel_pick now p) = ServeItem it"
      using newest(4-6) l(1) unfolding codel_pick_def b by simp
    show ?thesis
    proof (cases "it = hd (buf p)")
      case False
      then show ?thesis using newest k l free fixed
        by (simp add: codel_view_def codel_rules_def c_result_ids_def)
    next
      case True
      have "count (c_submitted p) (item_id it) \<le> 1" "c_submitted p = waiting p + c_admitted p + c_result_ids (\<lambda>r. r \<noteq> None) p"
        using assms(1) by (auto simp: codel_good_def codel_inv_def c_unique_inv_def c_ids_inv_def)
      then have "count (queued_ids p) (item_id it) \<le> 1" unfolding c_admitted_def by simp
      moreover have "2 \<le> count (queued_ids p) (item_id it)" if "rest = x' # r" for x' r
      proof -
        have "x' = it" using True unfolding newest(1) that by simp
        then show ?thesis unfolding queued_ids_def newest(1) that by simp
      qed
      ultimately have "rest = []" by (cases rest) fastforce+
      then have "buf p = [it]" using newest(1) by simp
      then show ?thesis using newest(2,7) k free \<open>rest = []\<close>
        by (simp add: codel_view_def codel_rules_def c_result_ids_def)
    qed
  qed
qed

lemma codel_enqueue_shown:
  assumes "codel_good w c lifo p" and "codel_enqueue G now i p = Some q"
  shows "exec_act (codel_rules w c lifo)
      (if c_closed p \<or> cap p \<le> int (length (buf p)) then Refuse i else Accept i) (codel_view p) = Some (codel_view q)"
proof -
  note good = assms(1) [unfolded codel_good_def]
  have i: "i \<in># waiting p" using assms(2) by (auto simp: codel_enqueue_def split: if_split_asm)
  have f: "ex_fresh i (codel_view p)" using good i by (intro codel_fresh) simp_all
  show ?thesis
  proof (cases "c_closed p \<or> cap p \<le> int (length (buf p))")
    case True
    then show ?thesis using assms(2) f by (auto simp: codel_enqueue_def Let_def split: if_split_asm)
  next
    case False
    have "size (popped p) + size (c_running p) \<le> w"
      using good by (simp add: codel_inv_def c_slots_inv_def)
    then have "length (buf p) + size (popped p + c_running p) < w + c" "length (buf p) < c"
      using False good by simp_all
    moreover have q: "q = c_returns i None (not_empty_signal (p\<lparr>waiting := waiting p - {#i#},
        buf := buf p @ [\<lparr>item_id = i, enq = now\<rparr>], clock := now, c_accepted := c_accepted p + 1\<rparr>))"
      using assms(2) False by (auto simp: codel_enqueue_def Let_def split: if_split_asm)
    ultimately show ?thesis using False f unfolding q codel_view_returns codel_view_frame
      by (simp add: codel_view_def codel_rules_def c_result_ids_def)
  qed
qed

lemma codel_shown:
  assumes "codel_good w c lifo p" and "codel_exec G ev p = Some q" and "codel_acts G ev p = Some a"
  shows "exec_act (codel_rules w c lifo) a (codel_view p) = Some (codel_view q)"
proof -
  have good: "codel_inv p" using assms(1) by (simp add: codel_good_def)
  show ?thesis
  proof (cases ev)
    case (CSubmit e i)
    then have "i \<notin># c_submitted p" "q = codel_gate G e i p" "\<not> fst (c_gate_allow G e i p)" "a = Refuse i"
      using assms(2,3) by (auto split: if_split_asm)
    then show ?thesis using codel_fresh [OF good, of i] by (simp add: view_codel_gate)
  next
    case (CEnqueue now i)
    then show ?thesis using codel_enqueue_shown [OF assms(1), of G now i q] assms(2,3) by simp
  next
    case (CWorker now)
    then show ?thesis using codel_worker_shown [OF assms(1), of now q G] assms(2,3) by simp
  next
    case (CEnd i out)
    then have "i \<in># c_running p" "a = Finish i" using assms(2,3) by (auto simp: codel_end_def split: if_split_asm)
    then show ?thesis using CEnd assms(2)
      by (auto simp: codel_end_def codel_view_def c_result_ids_def c_call_done_def dest!: multi_member_split)
  next
    case CStop
    then show ?thesis using assms(2,3)
      by (auto simp: codel_stop_def not_empty_broadcast_def codel_view_def c_result_ids_def split: if_split_asm)
  qed (use assms(3) in simp_all)
qed

lemma codel_silent:
  assumes "codel_good w c lifo p" and "codel_exec G ev p = Some q" and "codel_acts G ev p = None"
  shows "codel_view q = codel_view p"
proof (cases ev)
  case (CSubmit e i)
  with assms show ?thesis by (auto simp: view_codel_gate split: if_split_asm)
next
  case (CWorker now)
  then show ?thesis using codel_worker_shown [OF assms(1), of now q G] assms(2,3) by simp
next
  case (COnDrop i)
  with assms show ?thesis
    by (auto simp: codel_on_drop_def codel_view_def c_result_ids_def c_call_done_def split: if_split_asm
        dest!: multi_member_split)
next
  case (CBegin i)
  with assms show ?thesis
    by (auto simp: codel_begin_def codel_view_def c_result_ids_def split: if_split_asm dest!: multi_member_split)
qed (use assms in \<open>auto simp: codel_stop_wait_def split: if_split_asm\<close>)

interpretation codel_impl: executor_impl "codel_exec G" "codel_acts G" codel_view "codel_good w c lifo"
    "codel_rules w c lifo"
  for G w c lifo
  by unfold_locales (rule codel_good_step codel_shown codel_silent; assumption)+

lemma new_codel_good:
  "codel_good (nat (max 1 (CWorkers cfg))) (nat (max 1 (Capacity cfg))) (AdaptiveLIFO cfg) (new_codel cfg t0)"
  "codel_view (new_codel cfg t0) = idle_executor"
  unfolding codel_good_def
  by (intro conjI new_codel_inv)
    (simp_all add: new_codel_def Let_def max_def codel_view_def idle_executor_def c_result_ids_def)

subsection \<open>Properties\<close>

text \<open>
  C6. The CoDel pool is an executor: whatever the interleaving, the clock and the control law
  decide, what a client sees of a run is a run of the executor with the configured number of
  workers and at most \<open>Capacity\<close> waiting tasks, in which a waiting task may also be
  discarded, always the oldest one, and the newest may be started only under adaptive LIFO.
\<close>

theorem codel_refines_executor:
  assumes "run_codel G evs (new_codel cfg t0) = Some p"
    and "R = codel_rules (nat (max 1 (CWorkers cfg))) (nat (max 1 (Capacity cfg))) (AdaptiveLIFO cfg)"
  shows "exec_acts R (trace_of (codel_exec G) (codel_acts G) evs (new_codel cfg t0)) idle_executor = Some (codel_view p)
    \<and> executor_ok R (codel_view p)
    \<and> (AdaptiveLIFO cfg \<or> accepts (trace_of (codel_exec G) (codel_acts G) evs (new_codel cfg t0))
        = leaves (trace_of (codel_exec G) (codel_acts G) evs (new_codel cfg t0)) @ List.map item_id (buf p))"
proof -
  let ?tr = "trace_of (codel_exec G) (codel_acts G) evs (new_codel cfg t0)"
  note run = assms(1) [unfolded run_codel_runs_to]
  have r: "exec_acts R ?tr idle_executor = Some (codel_view p)"
    using codel_impl.refines [OF new_codel_good(1) run] unfolding new_codel_good(2) assms(2) .
  have e: "ex_waiting (codel_view (new_codel cfg t0)) = []" unfolding new_codel_good(2) by (simp add: idle_executor_def)
  have "accepts ?tr = leaves ?tr @ ex_waiting (codel_view p)" if "\<not> AdaptiveLIFO cfg"
    using codel_impl.first_in_first_out [OF new_codel_good(1) run _ e] that by (simp add: codel_rules_def)
  moreover have "ex_waiting (codel_view p) = List.map item_id (buf p)" by (simp add: codel_view_def)
  ultimately show ?thesis using r exec_acts_ok [OF r idle_executor_ok] by auto
qed

lemma lull_trace:
  "\<exists>p. run_codel demo_ops (lull_before @ lull_after) (new_codel lull_cfg 0) = Some p"
  "trace_of (codel_exec demo_ops) (codel_acts demo_ops) (lull_before @ lull_after) (new_codel lull_cfg 0)
     = [Accept 0, Start 0, Accept 1, Finish 0, Start 1, Accept 2, Finish 1, Discard 2]"
  by (simp_all add: lull_before_def lull_after_def lull_defs outcome_success_def)

theorem codel_refines_executor_witness:
  "\<exists>e. exec_acts (codel_rules 1 2 False)
     [Accept 0, Start 0, Accept 1, Finish 0, Start 1, Accept 2, Finish 1, Discard 2] idle_executor = Some e
   \<and> executor_ok (codel_rules 1 2 False) e"
proof -
  obtain p where p: "run_codel demo_ops (lull_before @ lull_after) (new_codel lull_cfg 0) = Some p"
    using lull_trace(1) by blast
  have c: "nat (max 1 (CWorkers lull_cfg)) = 1" "nat (max 1 (Capacity lull_cfg)) = 2" "AdaptiveLIFO lull_cfg = False"
    by (simp_all add: lull_cfg_def)
  show ?thesis using codel_refines_executor [OF p refl] unfolding c lull_trace(2) by blast
qed

end
