(* ===== verification/LimitSpec.thy ===== *)
theory LimitSpec
  imports Prelude F64
begin

text \<open>
  The \<open>Limit\<close> interface of concurrencylimits/limit.go as a locale, the fixed limit
  (fixed.go) that implements it, and the two numeric helpers of limit.go: the table-backed
  \<open>log10Int\<close> and the moving average \<open>expAvg\<close> with its warm-up.
\<close>

subsection \<open>Samples\<close>

record sample =
  rtt :: duration
  inflight :: int
  did_drop :: bool

definition valid_sample :: "sample \<Rightarrow> bool" where
  "valid_sample x \<longleftrightarrow> is_i64 (rtt x) \<and> is_i64 (inflight x)"

text \<open>A limit fed with a list of samples, each with the random or clock input it draws.\<close>

definition feed :: "('e \<Rightarrow> sample \<Rightarrow> 's \<Rightarrow> 's) \<Rightarrow> ('e \<times> sample) list \<Rightarrow> 's \<Rightarrow> 's" where
  "feed on_sample = run (\<lambda>ex. on_sample (fst ex) (snd ex))"

lemma feed_simps [simp]:
  "feed on_sample [] s = s"
  "feed on_sample ((e, x) # exs) s = feed on_sample exs (on_sample e x s)"
  by (simp_all add: feed_def)

text \<open>
  What a limit promises the limiter: from a good state every sample leads to a good state,
  whatever the random or clock input \<open>e\<close> the step draws, and the limit of a good state
  is between \<open>lo\<close> and \<open>hi\<close>.
\<close>

locale limit_contract =
  fixes on_sample :: "'e \<Rightarrow> sample \<Rightarrow> 's \<Rightarrow> 's"
    and get_limit :: "'s \<Rightarrow> int"
    and env_ok :: "'e \<Rightarrow> bool"
    and inv :: "'s \<Rightarrow> bool"
    and lo hi :: int
  assumes inv_sample: "inv s \<Longrightarrow> env_ok e \<Longrightarrow> valid_sample x \<Longrightarrow> inv (on_sample e x s)"
    and limit_between: "inv s \<Longrightarrow> lo \<le> get_limit s \<and> get_limit s \<le> hi"
begin

lemma inv_samples:
  "inv s \<Longrightarrow> \<forall>(e, x) \<in> set exs. env_ok e \<and> valid_sample x \<Longrightarrow> inv (feed on_sample exs s)"
proof (induction exs arbitrary: s)
  case (Cons ex exs)
  obtain e x where ex: "ex = (e, x)" by (cases ex)
  with Cons.prems have "inv (on_sample e x s)" by (auto intro: inv_sample)
  with Cons ex show ?case by simp
qed simp

lemma limit_after:
  "inv s \<Longrightarrow> \<forall>(e, x) \<in> set exs. env_ok e \<and> valid_sample x \<Longrightarrow>
     lo \<le> get_limit (feed on_sample exs s) \<and> get_limit (feed on_sample exs s) \<le> hi"
  using inv_samples limit_between by blast

end

text \<open>A limit that, besides, takes no notice of a sample without a positive round-trip time.\<close>

locale rtt_limit = limit_contract +
  assumes no_rtt: "rtt x \<le> 0 \<Longrightarrow> on_sample e x s = s"
begin

lemma only_timed_samples:
  "feed on_sample exs s = feed on_sample (List.filter (\<lambda>ex. 0 < rtt (snd ex)) exs) s"
  by (induction exs arbitrary: s) (auto simp: no_rtt)

end

subsection \<open>The fixed limit\<close>

definition fixed_on_sample :: "'e \<Rightarrow> sample \<Rightarrow> int \<Rightarrow> int" where
  "fixed_on_sample e x f = f"

definition fixed_limit :: "int \<Rightarrow> int" where "fixed_limit f = f"

interpretation fixed: rtt_limit fixed_on_sample fixed_limit "\<lambda>_. True" "\<lambda>f. f = n" n n
  for n
  by unfold_locales (simp_all add: fixed_on_sample_def fixed_limit_def)

subsection \<open>The logarithm\<close>

text \<open>
  \<open>math.Log10\<close> is the parameter \<open>lg\<close>: Go computes it in floating point through
  platform-dependent code, so that the development relies only on \<open>log10_like\<close>: the
  logarithm of a number from 1 on is a number between 0 and it, and at least 1 from 1000 on. \<open>log10Lookup\<close> holds what
  its initialisation stores.
\<close>

definition log10_like :: "(f64 \<Rightarrow> f64) \<Rightarrow> bool" where
  "log10_like lg \<longleftrightarrow> (\<forall>q. 1 \<le> q \<longrightarrow>
     (\<exists>r. lg (Fin q) = Fin r \<and> 0 \<le> r \<and> r \<le> q \<and> (1000 \<le> q \<longrightarrow> 1 \<le> r)))"

definition log10_lookup :: "(f64 \<Rightarrow> f64) \<Rightarrow> int \<Rightarrow> int" where
  "log10_lookup lg i = (if i = 0 then 1 else max 1 (f64_to_i64 (lg (f64_of_int i))))"

definition log10_int :: "(f64 \<Rightarrow> f64) \<Rightarrow> int \<Rightarrow> int" where
  "log10_int lg t =
     (let t = (if t < 0 then 0 else t)
      in if t < 1000 then log10_lookup lg t else f64_to_i64 (lg (f64_of_int t)))"

text \<open>A concrete logarithm for the witnesses: the number of decimal digits less one.\<close>

fun digits10 :: "int \<Rightarrow> int" where
  "digits10 n = (if n < 10 then 0 else 1 + digits10 (n div 10))"

declare digits10.simps [simp del]

definition lg_digits :: "f64 \<Rightarrow> f64" where
  "lg_digits x = (case x of Fin q \<Rightarrow> Fin (of_int (digits10 \<lfloor>q\<rfloor>)) | _ \<Rightarrow> x)"

lemma digits10_bounds: "0 \<le> n \<Longrightarrow> 0 \<le> digits10 n \<and> digits10 n \<le> n"
proof (induction n rule: digits10.induct)
  case (1 n)
  show ?case
  proof (cases "n < 10")
    case False
    with 1 have "0 \<le> digits10 (n div 10) \<and> digits10 (n div 10) \<le> n div 10" by simp
    moreover have "1 + n div 10 \<le> n" using False by linarith
    ultimately show ?thesis using False by (simp add: digits10.simps [of n])
  qed (use 1 in \<open>simp add: digits10.simps [of n]\<close>)
qed

lemma log10_like_digits: "log10_like lg_digits"
proof -
  have "\<exists>r. lg_digits (Fin q) = Fin r \<and> 0 \<le> r \<and> r \<le> q \<and> (1000 \<le> q \<longrightarrow> 1 \<le> r)" if "1 \<le> q" for q
  proof -
    have b: "0 \<le> digits10 \<lfloor>q\<rfloor> \<and> digits10 \<lfloor>q\<rfloor> \<le> \<lfloor>q\<rfloor>"
      using that by (intro digits10_bounds) simp
    then have "of_int (digits10 \<lfloor>q\<rfloor>) \<le> q"
      by (meson le_floor_iff)
    moreover have "1 \<le> digits10 \<lfloor>q\<rfloor>" if "1000 \<le> q"
    proof -
      have "1000 \<le> \<lfloor>q\<rfloor>" using that by (simp add: le_floor_iff)
      moreover from this have "0 \<le> digits10 (\<lfloor>q\<rfloor> div 10)"
        using digits10_bounds [of "\<lfloor>q\<rfloor> div 10"] by linarith
      ultimately show ?thesis by (simp add: digits10.simps [of "\<lfloor>q\<rfloor>"])
    qed
    ultimately show ?thesis using b by (simp add: lg_digits_def)
  qed
  then show ?thesis by (simp add: log10_like_def)
qed

lemma log10_raw_bounds:
  assumes "log10_like lg" "1 \<le> t" "t \<le> 2 ^ 53"
  shows "0 \<le> f64_to_i64 (lg (f64_of_int t)) \<and> f64_to_i64 (lg (f64_of_int t)) \<le> t
    \<and> (1000 \<le> t \<longrightarrow> 1 \<le> f64_to_i64 (lg (f64_of_int t)))"
proof -
  have "(1 :: rat) \<le> of_int t" using assms(2) by simp
  then obtain r where r: "lg (Fin (of_int t)) = Fin r" "0 \<le> r" "r \<le> of_int t"
    "1000 \<le> (of_int t :: rat) \<longrightarrow> 1 \<le> r"
    using assms(1) unfolding log10_like_def by blast
  have "f64_of_int t = Fin (of_int t)" using assms by (intro f64_of_int_exact) simp
  then show ?thesis
    using f64_to_i64_between(1,2) [of 0 r t] f64_to_i64_between(1) [of 1 r t] r assms
    by (simp add: is_i64_def)
qed

lemma log10_int_bounds:
  assumes "log10_like lg" "t \<le> 2 ^ 53"
  shows "1 \<le> log10_int lg t" "log10_int lg t \<le> max 1 t"
proof -
  have "1 \<le> log10_int lg t \<and> log10_int lg t \<le> max 1 t"
  proof (cases "t < 1")
    case True
    then show ?thesis by (auto simp: log10_int_def log10_lookup_def Let_def)
  next
    case False
    then show ?thesis
      using log10_raw_bounds [OF assms(1), of t] assms(2)
      by (auto simp: log10_int_def log10_lookup_def Let_def)
  qed
  then show "1 \<le> log10_int lg t" "log10_int lg t \<le> max 1 t" by simp_all
qed

lemma log10_int_i64: "is_i64 (log10_int lg t)"
proof -
  have "is_i64 (f64_to_i64 x)" for x
    by (cases x) (auto simp: is_i64_def)
  then show ?thesis by (auto simp: log10_int_def log10_lookup_def Let_def is_i64_def max_def)
qed

subsection \<open>The moving average\<close>

record exp_avg =
  window :: int
  warmup :: int
  ea_count :: int
  ea_sum :: f64
  ea_value :: f64

definition new_exp_avg :: "int \<Rightarrow> int \<Rightarrow> exp_avg" where
  "new_exp_avg w n = \<lparr>window = w, warmup = n, ea_count = 0, ea_sum = Fin 0, ea_value = Fin 0\<rparr>"

definition ewma_factor :: "int \<Rightarrow> f64" where
  "ewma_factor w = fdiv (Fin 2) (fadd (f64_of_int w) (Fin 1))"

definition exp_add :: "f64 \<Rightarrow> exp_avg \<Rightarrow> f64 \<times> exp_avg" where
  "exp_add x e =
     (if ea_count e < warmup e
      then let n = i64 (ea_count e + 1); s = fadd (ea_sum e) x; v = fdiv s (f64_of_int n)
           in (v, e\<lparr>ea_count := n, ea_sum := s, ea_value := v\<rparr>)
      else let factor = ewma_factor (window e);
               v = fadd (fmul (ea_value e) (fsub (Fin 1) factor)) (fmul x factor)
           in (v, e\<lparr>ea_value := v\<rparr>))"

definition exp_update :: "(f64 \<Rightarrow> f64) \<Rightarrow> exp_avg \<Rightarrow> f64 \<times> exp_avg" where
  "exp_update f e = (f (ea_value e), e\<lparr>ea_value := f (ea_value e)\<rparr>)"

definition exp_get :: "exp_avg \<Rightarrow> f64" where "exp_get e = ea_value e"

subsection \<open>The ratio of two times\<close>

lemma unit_ratio:
  assumes "0 < a" "a \<le> b" "is_i64 b"
  shows "finite_in 0 1 (fsub (Fin 1) (fdiv (f64_of_int a) (f64_of_int b)))"
proof -
  have n: "1 \<le> a" "a \<le> 2 ^ 64" "1 \<le> b" "b \<le> 2 ^ 64" using assms by (simp_all add: is_i64_def)
  obtain p where p: "f64_of_int a = Fin p" "1 \<le> p" "p = rne (of_int a)"
    using n(1,2) by (rule f64_of_int_pos)
  obtain q where q: "f64_of_int b = Fin q" "1 \<le> q" "q = rne (of_int b)"
    using n(3,4) by (rule f64_of_int_pos)
  have pq: "p \<le> q" unfolding p(3) q(3) using assms by (intro rne_mono) simp
  have b01: "f64_bounds 0 1" by (intro f64_bounds_le) simp_all
  have r: "0 \<le> p / q" "p / q \<le> 1" using p(2) q(2) pq by simp_all
  from rnd_eq [OF b01 r] have d: "fdiv (Fin p) (Fin q) = Fin (rne (p / q))"
    "0 \<le> rne (p / q)" "rne (p / q) \<le> 1" using q(2) by simp_all
  from rnd_between [OF b01, of "1 - rne (p / q)"] d(2,3) show ?thesis by (simp add: p(1) q(1) d(1) del: fdiv.simps)
qed

end
