(* ===== verification/Vegas.thy ===== *)
theory Vegas
  imports LimitSpec
begin

text \<open>
  The Vegas limit (concurrencylimits/vegas.go): a queue length estimated from the ratio of
  the no-load round-trip time to the current one moves the limit by log-scaled steps, and a
  jittered count of samples restarts the search for the no-load time. \<open>math.Log10\<close> is the
  parameter \<open>lg\<close>; the number \<open>rand.Float64\<close> would return is an argument of each
  sample.
\<close>

subsection \<open>State and operations\<close>

record vegas =
  estimated :: f64
  v_max :: int
  smoothing :: f64
  probe_multiplier :: int
  rtt_no_load :: duration
  probe_count :: int
  probe_jitter :: f64

text \<open>The functions \<open>alpha\<close>, \<open>beta\<close>, \<open>increase\<close> and \<open>decrease\<close> of the defaults.\<close>

definition vegas_alpha :: "(f64 \<Rightarrow> f64) \<Rightarrow> int \<Rightarrow> int" where
  "vegas_alpha lg limit = i64 (3 * log10_int lg limit)"

definition vegas_beta :: "(f64 \<Rightarrow> f64) \<Rightarrow> int \<Rightarrow> int" where
  "vegas_beta lg limit = i64 (6 * log10_int lg limit)"

definition vegas_increase :: "(f64 \<Rightarrow> f64) \<Rightarrow> f64 \<Rightarrow> f64" where
  "vegas_increase lg limit = fadd limit (f64_of_int (log10_int lg (f64_to_i64 limit)))"

definition vegas_decrease :: "(f64 \<Rightarrow> f64) \<Rightarrow> f64 \<Rightarrow> f64" where
  "vegas_decrease lg limit = fsub limit (f64_of_int (log10_int lg (f64_to_i64 limit)))"

definition reset_probe_jitter :: "f64 \<Rightarrow> vegas \<Rightarrow> vegas" where
  "reset_probe_jitter r v = v\<lparr>probe_jitter := fadd (Fin (1/2)) (fmul r (Fin (1/2)))\<rparr>"

text \<open>The options set fields of the default limit; the jitter is drawn afterwards.\<close>

type_synonym vegas_option = "vegas \<Rightarrow> vegas"

definition vegas_initial_limit :: "int \<Rightarrow> vegas_option" where
  "vegas_initial_limit n v = v\<lparr>estimated := f64_of_int n\<rparr>"

definition vegas_max_concurrency :: "int \<Rightarrow> vegas_option" where
  "vegas_max_concurrency n v = v\<lparr>v_max := n\<rparr>"

definition vegas_smoothing :: "f64 \<Rightarrow> vegas_option" where
  "vegas_smoothing s v = v\<lparr>smoothing := s\<rparr>"

definition vegas_probe_multiplier :: "int \<Rightarrow> vegas_option" where
  "vegas_probe_multiplier m v = v\<lparr>probe_multiplier := m\<rparr>"

definition new_vegas :: "vegas_option list \<Rightarrow> f64 \<Rightarrow> vegas" where
  "new_vegas opts r = reset_probe_jitter r (fold id opts
     \<lparr>estimated = Fin 20, v_max = 1000, smoothing = Fin 1, probe_multiplier = 30,
      rtt_no_load = 0, probe_count = 0, probe_jitter = Fin 0\<rparr>)"

definition vegas_limit :: "vegas \<Rightarrow> int" where
  "vegas_limit v = f64_to_i64 (estimated v)"

definition should_probe :: "vegas \<Rightarrow> bool" where
  "should_probe v \<longleftrightarrow>
     fle (fmul (fmul (probe_jitter v) (f64_of_int (probe_multiplier v))) (estimated v))
       (f64_of_int (probe_count v))"

definition vegas_queue_size :: "duration \<Rightarrow> vegas \<Rightarrow> int" where
  "vegas_queue_size t v =
     f64_to_i64 (fceil (fmul (estimated v)
       (fsub (Fin 1) (fdiv (f64_of_int (rtt_no_load v)) (f64_of_int t)))))"

text \<open>The new limit the sample asks for, or \<open>None\<close> where the code returns.\<close>

definition vegas_target :: "(f64 \<Rightarrow> f64) \<Rightarrow> sample \<Rightarrow> vegas \<Rightarrow> f64 option" where
  "vegas_target lg x v =
     (let limit = estimated v; queue_size = vegas_queue_size (rtt x) v
      in if did_drop x then Some (vegas_decrease lg limit)
         else if flt (fmul (f64_of_int (inflight x)) (Fin 2)) limit then None
         else let alpha = vegas_alpha lg (f64_to_i64 limit);
                  beta = vegas_beta lg (f64_to_i64 limit);
                  threshold = log10_int lg (f64_to_i64 limit)
              in if queue_size \<le> threshold then Some (fadd limit (f64_of_int beta))
                 else if queue_size < alpha then Some (vegas_increase lg limit)
                 else if beta < queue_size then Some (vegas_decrease lg limit)
                 else None)"

definition update_estimated_limit :: "(f64 \<Rightarrow> f64) \<Rightarrow> sample \<Rightarrow> vegas \<Rightarrow> vegas" where
  "update_estimated_limit lg x v =
     (case vegas_target lg x v of
        None \<Rightarrow> v
      | Some new_limit \<Rightarrow>
          let new_limit = fmax (Fin 1) (fmin (f64_of_int (v_max v)) new_limit)
          in v\<lparr>estimated := fadd (fmul (fsub (Fin 1) (smoothing v)) (estimated v))
                 (fmul (smoothing v) new_limit)\<rparr>)"

definition vegas_on_sample :: "(f64 \<Rightarrow> f64) \<Rightarrow> f64 \<Rightarrow> sample \<Rightarrow> vegas \<Rightarrow> vegas" where
  "vegas_on_sample lg r x v =
     (if rtt x \<le> 0 then v
      else let v = v\<lparr>probe_count := i64 (probe_count v + 1)\<rparr>
      in if should_probe v
         then (reset_probe_jitter r v)\<lparr>probe_count := 0, rtt_no_load := rtt x\<rparr>
         else if rtt_no_load v = 0 \<or> rtt x < rtt_no_load v then v\<lparr>rtt_no_load := rtt x\<rparr>
         else update_estimated_limit lg x v)"

subsection \<open>The limit stays in its range\<close>

text \<open>The estimate is a number from 1 to the maximum, and the limit is not smoothed.\<close>

definition vegas_inv :: "int \<Rightarrow> vegas \<Rightarrow> bool" where
  "vegas_inv m v \<longleftrightarrow> v_max v = m \<and> 1 \<le> m \<and> m \<le> 2 ^ 53 \<and> smoothing v = Fin 1
     \<and> finite_in 1 (of_int m) (estimated v) \<and> 0 \<le> rtt_no_load v \<and> is_i64 (rtt_no_load v)"

lemma f64_of_i64_finite: "is_i64 n \<Longrightarrow> finite_in (- (2 ^ 64)) (2 ^ 64) (f64_of_int n)"
proof -
  assume n: "is_i64 n"
  have "repr (pow2 64)" by (rule repr_pow2) simp
  then have r: "repr (2 ^ 64)" by (simp add: pow2_nat)
  have b: "f64_bounds (- (2 ^ 64)) (2 ^ 64)"
    using r repr_minus [OF r] by (intro f64_bounds_le) simp_all
  have "of_int (- (2 ^ 64)) \<le> (of_int n :: rat)" "(of_int n :: rat) \<le> of_int (2 ^ 64)"
    using n by (simp_all only: of_int_le_iff is_i64_def) simp_all
  with b show ?thesis unfolding f64_of_int_def by (intro rnd_between) simp_all
qed

lemma rnd_not_nan [simp]: "rnd x \<noteq> NaN"
  and rnd_finite_repr: "rnd x = Fin r \<Longrightarrow> repr r"
  by (auto simp: rnd_def Let_def repr_rne split: if_split_asm)

lemma vegas_target_good:
  assumes "finite_in 1 m (estimated v)" "vegas_target lg x v = Some t"
  shows "t \<noteq> NaN" "t = Fin r \<Longrightarrow> repr r"
proof -
  obtain e where e: "estimated v = Fin e" using assms(1) by (rule finite_inE)
  have "is_i64 (vegas_beta lg (f64_to_i64 (Fin e)))" by (simp add: vegas_beta_def)
  then obtain a b where
    "f64_of_int (vegas_beta lg (f64_to_i64 (Fin e))) = Fin a"
    "f64_of_int (log10_int lg (f64_to_i64 (Fin e))) = Fin b"
    using f64_of_i64_finite log10_int_i64 by (metis finite_inE)
  then have "\<exists>y. t = rnd y"
    using assms(2) e
    by (auto simp: vegas_target_def vegas_increase_def vegas_decrease_def Let_def
        simp del: f64_to_i64.simps split: if_split_asm)
  then show "t \<noteq> NaN" "t = Fin r \<Longrightarrow> repr r" by (auto dest: rnd_finite_repr sym)
qed

lemma update_estimated:
  assumes "vegas_inv m v" "vegas_target lg x v = Some t"
  shows "estimated (update_estimated_limit lg x v) = fmax (Fin 1) (fmin (Fin (of_int m)) t)"
    and "finite_in 1 (of_int m) (fmax (Fin 1) (fmin (Fin (of_int m)) t))"
proof -
  note i = assms(1) [unfolded vegas_inv_def]
  have m: "f64_of_int (v_max v) = Fin (of_int m)" "repr (of_int m)" "1 \<le> (of_int m :: rat)"
    using i by (auto intro: f64_of_int_exact repr_of_int)
  show c: "finite_in 1 (of_int m) (fmax (Fin 1) (fmin (Fin (of_int m)) t))"
    using i vegas_target_good [OF _ assms(2)] m by (intro fclamp) auto
  obtain e where e: "estimated v = Fin e" using i by (auto elim: finite_inE)
  from c obtain r where r: "fmax (Fin 1) (fmin (Fin (of_int m)) t) = Fin r" "repr r" "1 \<le> r"
    "r \<le> of_int m" by (rule finite_inE)
  have "(of_int m :: rat) \<le> of_int (2 ^ 53)" using i by (simp only: of_int_le_iff)
  then have "\<bar>r\<bar> < f64_huge" using r huge_big by simp
  then have "rnd r = Fin r" using r(2) by (rule rnd_repr [rotated])
  moreover have "rnd 0 = Fin 0" by (rule rnd_repr) (use huge_big in simp_all)
  ultimately show "estimated (update_estimated_limit lg x v) = fmax (Fin 1) (fmin (Fin (of_int m)) t)"
    using assms(2) i m(1) e r(1) by (simp add: update_estimated_limit_def Let_def)
qed

lemma update_estimated_frame:
  "update_estimated_limit lg x v = v\<lparr>estimated := estimated (update_estimated_limit lg x v)\<rparr>"
  by (cases v) (simp add: update_estimated_limit_def Let_def split: option.split)

lemma vegas_inv_sample:
  assumes "vegas_inv m v" "valid_sample x"
  shows "vegas_inv m (vegas_on_sample lg r x v)"
proof -
  have u: "vegas_inv m (update_estimated_limit lg x w)" if w: "vegas_inv m w" for w
  proof (cases "vegas_target lg x w")
    case None
    with w show ?thesis by (simp add: update_estimated_limit_def)
  next
    case (Some t)
    show ?thesis
      using w update_estimated [OF w Some]
      by (subst update_estimated_frame) (simp add: vegas_inv_def)
  qed
  have "vegas_inv m (v\<lparr>probe_count := i64 (probe_count v + 1)\<rparr>)"
    using assms(1) by (simp add: vegas_inv_def)
  from u [OF this] assms show ?thesis
    by (auto simp: vegas_on_sample_def Let_def vegas_inv_def reset_probe_jitter_def valid_sample_def)
qed

lemma vegas_limit_between:
  assumes "vegas_inv m v"
  shows "1 \<le> vegas_limit v \<and> vegas_limit v \<le> m"
proof -
  obtain e where "estimated v = Fin e" "1 \<le> e" "e \<le> of_int m"
    using assms by (auto simp: vegas_inv_def elim: finite_inE)
  then show ?thesis
    using f64_to_i64_between(1,2) [of 1 e m] assms
    by (simp add: vegas_limit_def vegas_inv_def is_i64_def)
qed

interpretation vegas: rtt_limit "vegas_on_sample lg" vegas_limit "\<lambda>_. True" "vegas_inv m" 1 m
  for lg m
  by unfold_locales
    (auto intro: vegas_inv_sample simp: vegas_limit_between, simp add: vegas_on_sample_def)



subsection \<open>What a sample does to the limit\<close>

text \<open>The estimated queue is between none and the limit.\<close>

lemma vegas_queue_size_bounds:
  assumes "vegas_inv m v" "0 < rtt_no_load v" "rtt_no_load v \<le> t" "is_i64 t" "estimated v = Fin e"
  shows "0 \<le> vegas_queue_size t v" "vegas_queue_size t v \<le> \<lceil>e\<rceil>"
proof -
  have e: "1 \<le> e" "repr e" "e \<le> of_int m" using assms(1,5) by (auto simp: vegas_inv_def finite_in_def)
  obtain u where u: "fsub (Fin 1) (fdiv (f64_of_int (rtt_no_load v)) (f64_of_int t)) = Fin u"
    "0 \<le> u" "u \<le> 1" using unit_ratio [OF assms(2-4)] by (rule finite_inE)
  have m: "m \<le> 2 ^ 53" "1 \<le> m" using assms(1) by (simp_all add: vegas_inv_def)
  have "(of_int m :: rat) \<le> of_int (2 ^ 53)" using m by (simp only: of_int_le_iff)
  then have b: "f64_bounds 0 e" using e by (intro f64_bounds_le) simp_all
  have "0 \<le> e * u" "e * u \<le> e" using e u by (simp_all add: mult_left_le)
  from rnd_eq [OF b this] obtain r where r: "fmul (Fin e) (Fin u) = Fin r" "0 \<le> r" "r \<le> e" by simp
  have eq: "vegas_queue_size t v = f64_to_i64 (Fin (of_int \<lceil>r\<rceil>))"
    using r u assms(5) by (simp add: vegas_queue_size_def del: f64_to_i64.simps)
  have c: "\<lceil>r\<rceil> \<le> \<lceil>e\<rceil>" using r(3) by (rule ceiling_mono)
  have k: "\<lceil>e\<rceil> \<le> m" "0 \<le> \<lceil>r\<rceil>" using r e by (simp_all add: ceiling_le_iff)
  have "m \<le> 9007199254740992" using m by simp
  with c k have "is_i64 \<lceil>r\<rceil>" unfolding is_i64_def by linarith
  then have "vegas_queue_size t v = \<lceil>r\<rceil>" unfolding eq by (rule f64_to_i64_of_int)
  with c k(2) show "0 \<le> vegas_queue_size t v" "vegas_queue_size t v \<le> \<lceil>e\<rceil>" by simp_all
qed

lemma clamp_up:
  assumes "repr e" "1 \<le> e" "e \<le> m" "e \<le> y"
  shows "\<exists>r. fmax (Fin 1) (fmin (Fin m) (rnd y)) = Fin r \<and> e \<le> r"
proof -
  have "e \<le> rne y" using assms by (intro rne_ge)
  moreover have "- f64_huge < e" using assms(2) huge_big by simp
  ultimately show ?thesis using assms(2,3)
    by (auto simp: rnd_def Let_def fmin_def fmax_def)
qed

lemma clamp_down:
  assumes "repr e" "1 \<le> e" "e \<le> m" "e < f64_huge" "y \<le> e"
  shows "\<exists>r. fmax (Fin 1) (fmin (Fin m) (rnd y)) = Fin r \<and> r \<le> e"
proof -
  have "rne y \<le> e" using assms by (intro rne_le)
  then show ?thesis using assms(2-4)
    by (auto simp: rnd_def Let_def fmin_def fmax_def)
qed

lemma vegas_est:
  assumes "vegas_inv m v" "log10_like lg"
  obtains e l where "estimated v = Fin e" "repr e" "1 \<le> e" "e \<le> of_int m" "e < f64_huge"
    "f64_to_i64 (Fin e) = \<lfloor>e\<rfloor>" "1 \<le> \<lfloor>e\<rfloor>" "\<lfloor>e\<rfloor> \<le> m" 
    "log10_int lg \<lfloor>e\<rfloor> = l" "1 \<le> l" "l \<le> \<lfloor>e\<rfloor>" "l \<le> 2 ^ 53" "f64_of_int l = Fin (of_int l)"
proof -
  note i = assms(1) [unfolded vegas_inv_def]
  obtain e where e: "estimated v = Fin e" "repr e" "1 \<le> e" "e \<le> of_int m"
    using i by (auto elim: finite_inE)
  have "(of_int m :: rat) \<le> of_int (2 ^ 53)" using i by (simp only: of_int_le_iff)
  then have h: "e < f64_huge" using e huge_big by simp
  have t: "f64_to_i64 (Fin e) = \<lfloor>e\<rfloor>"
    using f64_to_i64_between(3) [of 1 e m] e i by (simp add: is_i64_def trunc_rat_def)
  have f: "1 \<le> \<lfloor>e\<rfloor>" using e by simp
  have "(of_int \<lfloor>e\<rfloor> :: rat) \<le> of_int m" using e of_int_floor_le [of e] by linarith
  then have g: "\<lfloor>e\<rfloor> \<le> m" by (simp only: of_int_le_iff)
  then have "\<lfloor>e\<rfloor> \<le> 2 ^ 53" using i by linarith
  from log10_int_bounds [OF assms(2) this] f
  have l: "1 \<le> log10_int lg \<lfloor>e\<rfloor>" "log10_int lg \<lfloor>e\<rfloor> \<le> \<lfloor>e\<rfloor>" by simp_all
  with \<open>\<lfloor>e\<rfloor> \<le> 2 ^ 53\<close> have l': "log10_int lg \<lfloor>e\<rfloor> \<le> 2 ^ 53" by linarith
  with l have "f64_of_int (log10_int lg \<lfloor>e\<rfloor>) = Fin (of_int (log10_int lg \<lfloor>e\<rfloor>))"
    by (intro f64_of_int_exact) simp
  with e h t f g l l' that show thesis by blast
qed

text \<open>Which way a sample pushes the limit.\<close>

lemma vegas_target_cases:
  assumes "vegas_inv m v" "log10_like lg" "vegas_target lg x v = Some t"
  obtains (down) y e where "estimated v = Fin e" "repr e" "1 \<le> e" "e \<le> of_int m" "e < f64_huge"
      "t = rnd y" "y \<le> e" "did_drop x \<or> vegas_beta lg (vegas_limit v) < vegas_queue_size (rtt x) v"
  | (up) y e where "estimated v = Fin e" "repr e" "1 \<le> e" "e \<le> of_int m" "e < f64_huge"
      "t = rnd y" "e \<le> y" "\<not> did_drop x"
      "\<not> flt (fmul (f64_of_int (inflight x)) (Fin 2)) (estimated v)"
      "vegas_queue_size (rtt x) v < vegas_alpha lg (vegas_limit v)"
proof -
  obtain e l where e: "estimated v = Fin e" "repr e" "1 \<le> e" "e \<le> of_int m" "e < f64_huge"
    and f: "f64_to_i64 (Fin e) = \<lfloor>e\<rfloor>" and l: "log10_int lg \<lfloor>e\<rfloor> = l" "1 \<le> l" "l \<le> \<lfloor>e\<rfloor>" "l \<le> 2 ^ 53"
      "f64_of_int l = Fin (of_int l)"
    using assms(1,2) by (rule vegas_est)
  have v: "vegas_limit v = \<lfloor>e\<rfloor>" using e f by (simp add: vegas_limit_def)
  have dec: "vegas_decrease lg (Fin e) = rnd (e - of_int l)"
    and inc: "vegas_increase lg (Fin e) = rnd (e + of_int l)"
    using f l by (simp_all add: vegas_decrease_def vegas_increase_def)
  have ab: "vegas_alpha lg \<lfloor>e\<rfloor> = 3 * l" "vegas_beta lg \<lfloor>e\<rfloor> = 6 * l"
    using l by (simp_all add: vegas_alpha_def vegas_beta_def i64_simps)
  have "finite_in 0 (2 ^ 64) (f64_of_int (6 * l))" using l by (intro f64_of_int_nonneg) simp_all
  then obtain q where q: "f64_of_int (6 * l) = Fin q" "0 \<le> q" by (rule finite_inE)
  note t = assms(3) [unfolded vegas_target_def Let_def e(1) f]
  have lr: "0 \<le> (of_int l :: rat)" using l by simp
  show thesis
  proof (cases "did_drop x \<or> 6 * l < vegas_queue_size (rtt x) v")
    case True
    then have "t = rnd (e - of_int l)"
      using t l ab dec by (auto split: if_split_asm)
    then show thesis using True e ab v lr by (intro down [where e = e and y = "e - of_int l"]) auto
  next
    case False
    then have n: "\<not> flt (fmul (f64_of_int (inflight x)) (Fin 2)) (Fin e)"
      using t by (auto split: if_split_asm)
    have "(t = rnd (e + q) \<or> t = rnd (e + of_int l)) \<and> vegas_queue_size (rtt x) v < 3 * l"
      using t n False l ab inc q by (auto split: if_split_asm)
    then show thesis using False n e ab v lr q(2) by (elim conjE disjE) (auto intro: up)
  qed
qed

text \<open>
  A Vegas limit moves for a reason only: a sample can raise it only when the request was
  not dropped, at least half of the limit was in use and the estimated queue is below
  \<open>alpha\<close>; it can lower it only when the request was dropped or the queue is above
  \<open>beta\<close>.
\<close>

theorem vegas_moves_for_a_reason:
  assumes "vegas_inv m v" "log10_like lg" "valid_sample x"
  shows "(vegas_limit v < vegas_limit (vegas_on_sample lg r x v) \<longrightarrow>
      \<not> did_drop x \<and> \<not> flt (fmul (f64_of_int (inflight x)) (Fin 2)) (estimated v)
      \<and> vegas_queue_size (rtt x) v < vegas_alpha lg (vegas_limit v))
    \<and> (vegas_limit (vegas_on_sample lg r x v) < vegas_limit v \<longrightarrow>
      did_drop x \<or> vegas_beta lg (vegas_limit v) < vegas_queue_size (rtt x) v)"
proof (cases "estimated (vegas_on_sample lg r x v) = estimated v")
  case True
  then show ?thesis by (simp add: vegas_limit_def)
next
  case False
  let ?w = "v\<lparr>probe_count := i64 (probe_count v + 1)\<rparr>"
  have w: "vegas_on_sample lg r x v = update_estimated_limit lg x ?w"
    using False by (auto simp: vegas_on_sample_def Let_def reset_probe_jitter_def split: if_split_asm)
  have i: "vegas_inv m ?w" using assms(1) by (simp add: vegas_inv_def)
  have same: "vegas_queue_size (rtt x) ?w = vegas_queue_size (rtt x) v" "vegas_limit ?w = vegas_limit v"
    by (simp_all add: vegas_queue_size_def vegas_limit_def)
  obtain t where t: "vegas_target lg x ?w = Some t"
    using False w by (cases "vegas_target lg x ?w") (simp_all add: update_estimated_limit_def)
  have u: "estimated (vegas_on_sample lg r x v) = fmax (Fin 1) (fmin (Fin (of_int m)) t)"
    using update_estimated(1) [OF i t] w by simp
  have j: "vegas_inv m (vegas_on_sample lg r x v)" using assms(1,3) by (rule vegas_inv_sample)
  have mono: "vegas_limit a \<le> vegas_limit b"
    if "vegas_inv m a" "vegas_inv m b" "estimated a = Fin p" "estimated b = Fin q" "p \<le> q" for a b p q
  proof -
    have "1 \<le> p" "q \<le> of_int m" "1 \<le> m" "m \<le> 2 ^ 53"
      using that by (auto simp: vegas_inv_def finite_in_def)
    then show ?thesis using that(5) unfolding vegas_limit_def that(3,4)
      by (intro f64_to_i64_mono [where lo = 1 and hi = m]) (simp_all add: is_i64_def)
  qed
  from i assms(2) t show ?thesis
  proof (cases rule: vegas_target_cases)
    case (down y e)
    then obtain s where s: "fmax (Fin 1) (fmin (Fin (of_int m)) t) = Fin s" "s \<le> e"
      using clamp_down by metis
    have "vegas_limit (vegas_on_sample lg r x v) \<le> vegas_limit v"
      by (rule mono [OF j assms(1) _ _ s(2)]) (use u s down in simp_all)
    with down same show ?thesis by auto
  next
    case (up y e)
    then obtain s where s: "fmax (Fin 1) (fmin (Fin (of_int m)) t) = Fin s" "e \<le> s"
      using clamp_up by metis
    have "vegas_limit v \<le> vegas_limit (vegas_on_sample lg r x v)"
      by (rule mono [OF assms(1) j _ _ s(2)]) (use u s up in simp_all)
    with up same show ?thesis by auto
  qed
qed

theorem vegas_moves_for_a_reason_witness:
  "\<exists>v. vegas_inv 40 v \<and> vegas_limit v = 20
     \<and> (vegas_limit (vegas_on_sample lg_digits (Fin 0) \<lparr>rtt = 5, inflight = 3, did_drop = False\<rparr> v) < vegas_limit v \<longrightarrow>
          vegas_beta lg_digits 20 < vegas_queue_size 5 v)"
proof -
  let ?v = "\<lparr>estimated = Fin 20, v_max = 40, smoothing = Fin 1, probe_multiplier = 30,
      rtt_no_load = 5, probe_count = 1, probe_jitter = Fin (1/2)\<rparr>"
  have "repr 20" using repr_of_int [of 20] by simp
  then have i: "vegas_inv 40 ?v" by (simp add: vegas_inv_def finite_in_def is_i64_def)
  have "vegas_limit ?v = 20" by (simp add: vegas_limit_def trunc_rat_def is_i64_def)
  then show ?thesis
    using vegas_moves_for_a_reason [OF i log10_like_digits, of "\<lparr>rtt = 5, inflight = 3, did_drop = False\<rparr>" "Fin 0"] i
    by (intro exI [of _ ?v]) (simp add: valid_sample_def is_i64_def)
qed

subsection \<open>Properties of a Vegas limit\<close>

text \<open>The options of vegas.go, and the limits whose initial value is in their range.\<close>

definition vegas_options :: "vegas_option set" where
  "vegas_options = range vegas_initial_limit \<union> range vegas_max_concurrency \<union> range vegas_smoothing
     \<union> range vegas_probe_multiplier"

lemma vegas_options_frame:
  "set opts \<subseteq> vegas_options \<Longrightarrow> rtt_no_load (fold id opts v) = rtt_no_load v"
  by (induction opts arbitrary: v)
    (auto simp: vegas_options_def vegas_initial_limit_def vegas_max_concurrency_def vegas_smoothing_def
      vegas_probe_multiplier_def)

lemma vegas_options_inv:
  assumes "set opts \<subseteq> vegas_options" "estimated (new_vegas opts r0) = f64_of_int n"
    and "smoothing (new_vegas opts r0) = Fin 1" "1 \<le> n" "n \<le> v_max (new_vegas opts r0)" "v_max (new_vegas opts r0) \<le> 2 ^ 53"
  shows "vegas_inv (v_max (new_vegas opts r0)) (new_vegas opts r0)"
proof -
  have "f64_of_int n = Fin (of_int n)" "repr (of_int n)"
    using assms by (auto intro: f64_of_int_exact repr_of_int)
  moreover have "rtt_no_load (new_vegas opts r0) = 0"
    using vegas_options_frame [OF assms(1)] by (simp add: new_vegas_def reset_probe_jitter_def)
  ultimately show ?thesis using assms by (simp add: vegas_inv_def is_i64_def finite_in_def)
qed

text \<open>
  The limit of a Vegas limit stays from 1 to its maximum, whatever the samples, the
  logarithm and the random numbers, for every list of options without smoothing that leaves the
  initial limit from 1 to the maximum and the maximum at most \<open>2 ^ 53\<close>.
\<close>

theorem vegas_limit_bounds:
  assumes "set opts \<subseteq> vegas_options" "v = new_vegas opts r0" "estimated v = f64_of_int n" "smoothing v = Fin 1"
    and "1 \<le> n" "n \<le> v_max v" "v_max v \<le> 2 ^ 53" "\<forall>rx \<in> set rxs. valid_sample (snd rx)"
  shows "1 \<le> vegas_limit (feed (vegas_on_sample lg) rxs v) \<and> vegas_limit (feed (vegas_on_sample lg) rxs v) \<le> v_max v"
proof -
  have "vegas_inv (v_max v) v" using assms(1-7) vegas_options_inv by blast
  then show ?thesis by (rule vegas.limit_after) (use assms(8) in auto)
qed

theorem vegas_limit_bounds_witness:
  "vegas_limit (feed (vegas_on_sample lg_digits) [(Fin 0, \<lparr>rtt = 5, inflight = 3, did_drop = True\<rparr>)]
      (new_vegas [vegas_probe_multiplier 30, vegas_max_concurrency 40, vegas_initial_limit 20] (Fin 0))) \<le> 40"
  using vegas_limit_bounds [OF _ refl, of "[vegas_probe_multiplier 30, vegas_max_concurrency 40, vegas_initial_limit 20]"
      "Fin 0" 20 "[(Fin 0, \<lparr>rtt = 5, inflight = 3, did_drop = True\<rparr>)]" lg_digits]
  by (simp add: valid_sample_def is_i64_def vegas_options_def new_vegas_def reset_probe_jitter_def
      vegas_max_concurrency_def vegas_initial_limit_def vegas_probe_multiplier_def)

text \<open>The initial limit is not clamped: a maximum below the default 20 starts above itself.\<close>

lemma vegas_starts_above_max:
  "v_max (new_vegas [vegas_max_concurrency 10] r0) = 10 \<and> vegas_limit (new_vegas [vegas_max_concurrency 10] r0) = 20"
  by (simp add: new_vegas_def reset_probe_jitter_def vegas_max_concurrency_def vegas_limit_def trunc_rat_def is_i64_def)

text \<open>
  A busy, healthy service gains: a sample that is not dropped, with at least half of the
  limit in use and a round-trip time equal to the no-load one, raises the limit by 6 or more,
  up to the maximum.
\<close>

theorem vegas_healthy_growth:
  assumes "vegas_inv m v" "log10_like lg"
    and "0 < rtt x" "is_i64 (rtt x)" "rtt_no_load v = rtt x" "\<not> did_drop x"
    and "\<not> flt (fmul (f64_of_int (inflight x)) (Fin 2)) (estimated v)"
    and "\<not> should_probe (v\<lparr>probe_count := i64 (probe_count v + 1)\<rparr>)"
  shows "min m (vegas_limit v + 6) \<le> vegas_limit (vegas_on_sample lg r x v)"
proof -
  let ?w = "v\<lparr>probe_count := i64 (probe_count v + 1)\<rparr>"
  have i: "vegas_inv m ?w" using assms(1) by (simp add: vegas_inv_def)
  obtain e l where e: "estimated v = Fin e" "repr e" "1 \<le> e" "e \<le> of_int m"
    and f: "f64_to_i64 (Fin e) = \<lfloor>e\<rfloor>" "1 \<le> \<lfloor>e\<rfloor>"
    and l: "log10_int lg \<lfloor>e\<rfloor> = l" "1 \<le> l" "l \<le> 2 ^ 53"
    using assms(1,2) by (rule vegas_est)
  have m: "1 \<le> m" "m \<le> 2 ^ 53" using assms(1) by (simp_all add: vegas_inv_def)
  have x64: "1 \<le> rtt x" "rtt x \<le> 2 ^ 64" using assms(3,4) by (simp_all add: is_i64_def)
  obtain p where p: "f64_of_int (rtt x) = Fin p" "1 \<le> p" using x64 by (rule f64_of_int_pos)
  have "rnd 1 = Fin 1" "rnd 0 = Fin 0" by (rule rnd_repr; use huge_big in simp)+
  then have q0: "vegas_queue_size (rtt x) ?w = 0"
    using p e assms(5) by (simp add: vegas_queue_size_def is_i64_def trunc_rat_def)
  have "is_i64 (6 * l)" using l by (simp add: is_i64_def)
  then have beta: "vegas_beta lg \<lfloor>e\<rfloor> = 6 * l" using l by (simp add: vegas_beta_def i64_id)
  have l6: "1 \<le> 6 * l" "6 * l \<le> 2 ^ 64" using l by simp_all
  obtain q where q: "f64_of_int (6 * l) = Fin q" "q = rne (of_int (6 * l))"
    using l6 by (rule f64_of_int_pos)
  have "of_int 6 \<le> rne (of_int (6 * l))" using l by (intro rne_ge repr_of_int) simp_all
  then have q6: "6 \<le> q" using q by simp
  have t: "vegas_target lg x ?w = Some (rnd (e + q))"
    using assms(6,7) e f l q0 beta q by (simp add: vegas_target_def Let_def del: f64_to_i64.simps)
  let ?k = "min m (\<lfloor>e\<rfloor> + 6)"
  have "of_int ?k \<le> (of_int (\<lfloor>e\<rfloor> + 6) :: rat)" by (simp only: of_int_le_iff)
  also have "\<dots> = of_int \<lfloor>e\<rfloor> + 6" by simp
  also have "\<dots> \<le> e + q" using of_int_floor_le q6 by (rule add_mono)
  finally have "of_int ?k \<le> e + q" .
  moreover have "repr (of_int ?k)" using m f by (intro repr_of_int) simp
  moreover have "1 \<le> (of_int ?k :: rat)" "of_int ?k \<le> (of_int m :: rat)" using m f by simp_all
  ultimately obtain s where s: "fmax (Fin 1) (fmin (Fin (of_int m)) (rnd (e + q))) = Fin s" "of_int ?k \<le> s"
    using clamp_up by blast
  have up: "estimated (update_estimated_limit lg x ?w) = Fin s" "finite_in 1 (of_int m) (Fin s)"
    using update_estimated [OF i t] s(1) by simp_all
  have on: "vegas_on_sample lg r x v = update_estimated_limit lg x ?w"
    using assms(3,5,8) by (simp add: vegas_on_sample_def)
  have "?k \<le> f64_to_i64 (Fin s)"
    using s(2) up(2) m f by (intro f64_to_i64_between(1) [where hi = m]) (auto simp: finite_in_def is_i64_def)
  then show ?thesis using up(1) on e f by (simp add: vegas_limit_def del: f64_to_i64.simps)
qed

theorem vegas_healthy_growth_witness:
  "\<exists>v. vegas_limit v = 20 \<and> vegas_inv 40 v
     \<and> 26 \<le> vegas_limit (vegas_on_sample lg_digits (Fin 0) \<lparr>rtt = 5, inflight = 10, did_drop = False\<rparr> v)"
proof -
  let ?v = "\<lparr>estimated = Fin 20, v_max = 40, smoothing = Fin 1, probe_multiplier = 30,
      rtt_no_load = 5, probe_count = 1, probe_jitter = Fin (1/2)\<rparr>"
  let ?x = "\<lparr>rtt = 5, inflight = 10, did_drop = False\<rparr>"
  have "repr 20" using repr_of_int [of 20] by simp
  then have i: "vegas_inv 40 ?v" by (simp add: vegas_inv_def finite_in_def is_i64_def)
  have "\<not> flt (fmul (f64_of_int 10) (Fin 2)) (Fin 20)" by simp
  moreover have "\<not> should_probe (?v\<lparr>probe_count := i64 (probe_count ?v + 1)\<rparr>)"
    by (simp add: should_probe_def i64_def)
  moreover have l: "vegas_limit ?v = 20" by (simp add: vegas_limit_def trunc_rat_def is_i64_def)
  ultimately show ?thesis
    using vegas_healthy_growth [OF i log10_like_digits, of ?x "Fin 0"] i
    by (intro exI [of _ ?v]) (simp add: is_i64_def)
qed

text \<open>
  The no-load time is the least round-trip time since the last probe, which \<open>probe_count\<close>
  counts.
\<close>

lemma vegas_no_load_step:
  assumes "1 \<le> rtt x" "probe_count v = int k" "int k < i64_max"
  shows "(probe_count (vegas_on_sample lg r x v) = int (Suc k)
      \<and> rtt_no_load (vegas_on_sample lg r x v) =
        (if rtt_no_load v = 0 then rtt x else min (rtt_no_load v) (rtt x)))
    \<or> (probe_count (vegas_on_sample lg r x v) = 0 \<and> rtt_no_load (vegas_on_sample lg r x v) = rtt x)"
proof -
  have c: "i64 (int k + 1) = int (Suc k)" using assms(3) by (simp add: i64_simps)
  have u: "probe_count (update_estimated_limit lg x w) = probe_count w"
    "rtt_no_load (update_estimated_limit lg x w) = rtt_no_load w" for w
    by (subst update_estimated_frame, simp)+
  show ?thesis using assms(1,2) c
    by (auto simp: vegas_on_sample_def Let_def u reset_probe_jitter_def)
qed

text \<open>
  The no-load round-trip time of a Vegas limit is the least of the samples since the last
  probe: of the last \<open>probe_count + 1\<close> ones, or of all when there was no probe yet.
\<close>

theorem vegas_no_load_is_minimum:
  assumes "\<forall>rx \<in> set rxs. 1 \<le> rtt (snd rx)" "rxs \<noteq> []" "int (length rxs) < i64_max"
    and "v = feed (vegas_on_sample lg) rxs
      (new_vegas [vegas_max_concurrency m, vegas_initial_limit n, vegas_probe_multiplier p] r0)"
  shows "rtt_no_load v = Min (set (take (nat (probe_count v) + 1) (rev (List.map (rtt \<circ> snd) rxs))))"
proof -
  define opts where "opts = [vegas_max_concurrency m, vegas_initial_limit n, vegas_probe_multiplier p]"
  have new: "probe_count (new_vegas opts r0) = 0 \<and> rtt_no_load (new_vegas opts r0) = 0"
    by (simp add: opts_def new_vegas_def reset_probe_jitter_def vegas_max_concurrency_def
        vegas_initial_limit_def vegas_probe_multiplier_def)
  have "\<exists>k. probe_count (feed (vegas_on_sample lg) rxs (new_vegas opts r0)) = int k \<and> k \<le> length rxs
      \<and> rtt_no_load (feed (vegas_on_sample lg) rxs (new_vegas opts r0)) =
        (if rxs = [] then 0 else Min (set (take (Suc k) (rev (List.map (rtt \<circ> snd) rxs)))))"
    using assms(1,3)
  proof (induction rxs rule: rev_induct)
    case Nil
    then show ?case using new by (intro exI [of _ 0]) simp
  next
    case (snoc rx rxs)
    obtain r x where rx: "rx = (r, x)" by (cases rx)
    let ?v = "feed (vegas_on_sample lg) rxs (new_vegas opts r0)"
    let ?L = "rev (List.map (rtt \<circ> snd) rxs)"
    from snoc obtain k where k: "probe_count ?v = int k" "k \<le> length rxs"
      "rtt_no_load ?v = (if rxs = [] then 0 else Min (set (take (Suc k) ?L)))" by auto
    have pos: "1 \<le> rtt x" "int k < i64_max" using snoc.prems k(2) rx by auto
    have ne: "rtt_no_load ?v \<noteq> 0" if "rxs \<noteq> []"
    proof -
      have "Min (set (take (Suc k) ?L)) \<in> set (take (Suc k) ?L)" using that by (intro Min_in) simp_all
      then have "Min (set (take (Suc k) ?L)) \<in> set ?L" by (rule in_set_takeD)
      with snoc.prems(1) that k(3) show ?thesis by auto
    qed
    have eq: "feed (vegas_on_sample lg) (rxs @ [rx]) (new_vegas opts r0) = vegas_on_sample lg r x ?v"
      by (simp add: feed_def run_append rx)
    from vegas_no_load_step [OF pos(1) k(1) pos(2), of lg r] show ?case
    proof (elim disjE conjE)
      assume s: "probe_count (vegas_on_sample lg r x ?v) = int (Suc k)"
        "rtt_no_load (vegas_on_sample lg r x ?v) =
          (if rtt_no_load ?v = 0 then rtt x else min (rtt_no_load ?v) (rtt x))"
      then show ?thesis unfolding eq using k ne rx
        by (intro exI [of _ "Suc k"]) (auto simp: min.commute)
    next
      assume "probe_count (vegas_on_sample lg r x ?v) = 0"
        "rtt_no_load (vegas_on_sample lg r x ?v) = rtt x"
      then show ?thesis unfolding eq using rx by (intro exI [of _ 0]) simp
    qed
  qed
  then show ?thesis using assms(2,4) by (auto simp: opts_def)
qed

theorem vegas_no_load_is_minimum_witness:
  "\<exists>v. v = feed (vegas_on_sample lg_digits)
      [(Fin 0, \<lparr>rtt = 7, inflight = 1, did_drop = False\<rparr>), (Fin 0, \<lparr>rtt = 5, inflight = 1, did_drop = False\<rparr>)]
      (new_vegas [vegas_max_concurrency 40, vegas_initial_limit 20, vegas_probe_multiplier 30] (Fin 0))
    \<and> rtt_no_load v = Min (set (take (nat (probe_count v) + 1) [5, 7]))"
  using vegas_no_load_is_minimum [OF _ _ _ refl, of
      "[(Fin 0, \<lparr>rtt = 7, inflight = 1, did_drop = False\<rparr>), (Fin 0, \<lparr>rtt = 5, inflight = 1, did_drop = False\<rparr>)]"
      lg_digits 40 20 30 "Fin 0"]
  by simp

end
