(* ===== verification/Gradient.thy ===== *)
theory Gradient
  imports LimitSpec
begin

text \<open>
  The two gradient limits (concurrencylimits/gradient.go, gradient2.go). Both multiply the
  limit by the ratio of a reference round-trip time to the current one, kept between a half
  and one, and add a queue allowance; \<open>GradientLimit\<close> takes the running minimum as the
  reference and probes for it, \<open>Gradient2Limit\<close> a long moving average. The number
  \<open>rand.IntN\<close> would return is an argument of each sample.
\<close>

subsection \<open>GradientLimit\<close>

record gradient =
  g_estimated :: f64
  g_max :: int
  g_min :: int
  g_smoothing :: f64
  rtt_tolerance :: f64
  backoff_ratio :: f64
  probe_interval :: int
  g_rtt_no_load :: duration
  reset_rtt_counter :: int

abbreviation gradient_disabled_probe :: int where "gradient_disabled_probe \<equiv> - 1"

definition gradient_queue_size :: "int \<Rightarrow> f64" where
  "gradient_queue_size limit = fmax (Fin 4) (fsqrt (f64_of_int limit))"

type_synonym gradient_option = "gradient \<Rightarrow> gradient"

definition gradient_initial_limit :: "int \<Rightarrow> gradient_option" where
  "gradient_initial_limit n g = g\<lparr>g_estimated := f64_of_int n\<rparr>"

definition gradient_max_concurrency :: "int \<Rightarrow> gradient_option" where
  "gradient_max_concurrency n g = g\<lparr>g_max := n\<rparr>"

definition gradient_min_limit :: "int \<Rightarrow> gradient_option" where
  "gradient_min_limit n g = g\<lparr>g_min := n\<rparr>"

definition gradient_rtt_tolerance :: "f64 \<Rightarrow> gradient_option" where
  "gradient_rtt_tolerance t g = g\<lparr>rtt_tolerance := t\<rparr>"

definition next_probe_countdown :: "int \<Rightarrow> gradient \<Rightarrow> int" where
  "next_probe_countdown r g =
     (if probe_interval g = gradient_disabled_probe then gradient_disabled_probe
      else i64 (probe_interval g + r))"

text \<open>The constants 0.2, 0.9, 0.8 and 0.95 are the doubles nearest to them.\<close>

definition f64_lit :: "rat \<Rightarrow> f64" where "f64_lit q = rnd q"

definition new_gradient :: "gradient_option list \<Rightarrow> int \<Rightarrow> gradient" where
  "new_gradient opts r =
     (let g = fold id opts
        \<lparr>g_estimated = Fin 50, g_max = 1000, g_min = 1, g_smoothing = f64_lit (2/10),
         rtt_tolerance = Fin 2, backoff_ratio = f64_lit (9/10), probe_interval = 1000,
         g_rtt_no_load = 0, reset_rtt_counter = 0\<rparr>
      in g\<lparr>reset_rtt_counter := next_probe_countdown r g\<rparr>)"

definition gradient_limit :: "gradient \<Rightarrow> int" where
  "gradient_limit g = f64_to_i64 (g_estimated g)"

definition gradient_of :: "duration \<Rightarrow> gradient \<Rightarrow> f64" where
  "gradient_of t g = fmax (Fin (1/2)) (fmin (Fin 1)
     (fdiv (fmul (rtt_tolerance g) (f64_of_int (g_rtt_no_load g))) (f64_of_int t)))"

text \<open>The part of \<open>OnSample\<close> after the running minimum.\<close>

definition gradient_update :: "sample \<Rightarrow> f64 \<Rightarrow> gradient \<Rightarrow> gradient" where
  "gradient_update x queue_size g =
     (let est = g_estimated g; gradient = gradient_of (rtt x) g
      in if \<not> did_drop x \<and> flt (f64_of_int (inflight x)) (fdiv est (Fin 2)) then g
         else let new_limit = (if did_drop x then fmul est (backoff_ratio g)
                   else fadd (fmul est gradient) queue_size);
                  new_limit = (if flt new_limit est
                   then fmax (f64_of_int (g_min g))
                     (fadd (fmul est (fsub (Fin 1) (g_smoothing g))) (fmul (g_smoothing g) new_limit))
                   else new_limit)
              in g\<lparr>g_estimated := fmax queue_size (fmin (f64_of_int (g_max g)) new_limit)\<rparr>)"

definition gradient_on_sample :: "int \<Rightarrow> sample \<Rightarrow> gradient \<Rightarrow> gradient" where
  "gradient_on_sample r x g =
     (if rtt x \<le> 0 then g
      else let queue_size = gradient_queue_size (f64_to_i64 (g_estimated g));
               probing = (probe_interval g \<noteq> gradient_disabled_probe);
               g = (if probing then g\<lparr>reset_rtt_counter := i64 (reset_rtt_counter g - 1)\<rparr> else g)
      in if probing \<and> reset_rtt_counter g \<le> 0
         then g\<lparr>reset_rtt_counter := next_probe_countdown r g,
                g_estimated := fmax (f64_of_int (g_min g)) queue_size, g_rtt_no_load := 0\<rparr>
         else gradient_update x queue_size
           (if g_rtt_no_load g = 0 \<or> rtt x < g_rtt_no_load g
            then g\<lparr>g_rtt_no_load := rtt x\<rparr> else g))"

subsection \<open>Gradient2Limit\<close>

record gradient2 =
  g2_estimated :: f64
  g2_max :: int
  g2_min :: int
  g2_smoothing :: f64
  g2_tolerance :: f64
  g2_queue_size :: f64
  long_rtt :: exp_avg

type_synonym gradient2_option = "gradient2 \<Rightarrow> gradient2"

definition gradient2_initial_limit :: "int \<Rightarrow> gradient2_option" where
  "gradient2_initial_limit n g = g\<lparr>g2_estimated := f64_of_int n\<rparr>"

definition gradient2_max_concurrency :: "int \<Rightarrow> gradient2_option" where
  "gradient2_max_concurrency n g = g\<lparr>g2_max := n\<rparr>"

definition gradient2_min_limit :: "int \<Rightarrow> gradient2_option" where
  "gradient2_min_limit n g = g\<lparr>g2_min := n\<rparr>"

definition gradient2_rtt_tolerance :: "f64 \<Rightarrow> gradient2_option" where
  "gradient2_rtt_tolerance t g = g\<lparr>g2_tolerance := t\<rparr>"

definition gradient2_long_window :: "int \<Rightarrow> gradient2_option" where
  "gradient2_long_window n g = g\<lparr>long_rtt := new_exp_avg n 10\<rparr>"

definition gradient2_smoothing :: "f64 \<Rightarrow> gradient2_option" where
  "gradient2_smoothing s g = g\<lparr>g2_smoothing := s\<rparr>"

definition gradient2_queue :: "int \<Rightarrow> gradient2_option" where
  "gradient2_queue n g = g\<lparr>g2_queue_size := f64_of_int n\<rparr>"

definition new_gradient2 :: "gradient2_option list \<Rightarrow> gradient2" where
  "new_gradient2 opts = fold id opts
     \<lparr>g2_estimated = Fin 20, g2_max = 200, g2_min = 20, g2_smoothing = f64_lit (2/10),
      g2_tolerance = Fin (3/2), g2_queue_size = Fin 4, long_rtt = new_exp_avg 600 10\<rparr>"

definition gradient2_limit :: "gradient2 \<Rightarrow> int" where
  "gradient2_limit g = f64_to_i64 (g2_estimated g)"

text \<open>The long average after a sample: the average, let down faster when far above it.\<close>

definition gradient2_long :: "f64 \<Rightarrow> gradient2 \<Rightarrow> f64 \<times> exp_avg" where
  "gradient2_long short g =
     (case exp_add short (long_rtt g) of (long, e) \<Rightarrow>
        if flt (Fin 2) (fdiv long short)
        then exp_update (\<lambda>current. fmul current (f64_lit (95/100))) e
        else (long, e))"

definition gradient2_on_sample :: "sample \<Rightarrow> gradient2 \<Rightarrow> gradient2" where
  "gradient2_on_sample x g =
     (if rtt x \<le> 0 then g
      else let queue_size = g2_queue_size g; short = f64_of_int (rtt x)
      in case gradient2_long short g of (long, e) \<Rightarrow>
         let g = g\<lparr>long_rtt := e\<rparr>; est = g2_estimated g
         in if flt (f64_of_int (inflight x)) (fdiv est (Fin 2)) then g
            else let gradient = fmax (Fin (1/2)) (fmin (Fin 1) (fdiv (fmul (g2_tolerance g) long) short));
                     new_limit = fadd (fmul est gradient) queue_size;
                     new_limit = fadd (fmul est (fsub (Fin 1) (g2_smoothing g)))
                       (fmul new_limit (g2_smoothing g))
                 in g\<lparr>g2_estimated := fmax (f64_of_int (g2_min g))
                        (fmin (f64_of_int (g2_max g)) new_limit)\<rparr>)"

subsection \<open>GradientLimit stays in its range\<close>

definition gradient_inv :: "int \<Rightarrow> int \<Rightarrow> gradient \<Rightarrow> bool" where
  "gradient_inv k m g \<longleftrightarrow> g_max g = m \<and> g_min g = k \<and> 1 \<le> k \<and> k \<le> m \<and> 4 \<le> m \<and> m \<le> 2 ^ 53
     \<and> finite_in 0 1 (g_smoothing g) \<and> finite_in 0 1 (backoff_ratio g)
     \<and> finite_in 0 (2 ^ 20) (rtt_tolerance g) \<and> 0 \<le> g_rtt_no_load g \<and> is_i64 (g_rtt_no_load g)
     \<and> finite_in (of_int k) (of_int m) (g_estimated g)"

lemma finite_in_int_bound: "n \<le> 2 ^ 53 \<Longrightarrow> finite_in lo (of_int n) x \<Longrightarrow> finite_in lo (2 ^ 53) x"
proof -
  assume "n \<le> 2 ^ 53" "finite_in lo (of_int n) x"
  moreover from this have "(of_int n :: rat) \<le> of_int (2 ^ 53)" by (simp only: of_int_le_iff)
  ultimately show ?thesis by (auto simp: finite_in_def)
qed

lemma gradient_queue_size_in:
  assumes "1 \<le> n" "n \<le> m" "4 \<le> m" "m \<le> 2 ^ 53"
  shows "finite_in 4 (of_int m) (gradient_queue_size n)"
proof -
  have n: "f64_of_int n = Fin (of_int n)" using assms by (intro f64_of_int_exact) simp
  have "finite_in 1 (of_int n) (fsqrt (f64_of_int n))"
    unfolding n using assms by (intro fsqrt_le_self) simp_all
  then have "finite_in (max 4 1) (max 4 (of_int n)) (gradient_queue_size n)"
    unfolding gradient_queue_size_def by (intro finite_in_max) (simp_all add: finite_in_Fin)
  moreover have "max 4 (of_int n) \<le> (of_int m :: rat)" using assms by simp
  ultimately show ?thesis by (auto elim: finite_in_weaken)
qed

text \<open>The gradient is between a half and one, whatever the times and the tolerance.\<close>

lemma gradient_of_in:
  assumes "finite_in 0 (2 ^ 20) (rtt_tolerance g)" "0 \<le> g_rtt_no_load g" "is_i64 (g_rtt_no_load g)"
    "0 < t" "is_i64 t"
  shows "finite_in (1/2) 1 (gradient_of t g)"
proof -
  have "finite_in 0 (2 ^ 64) (f64_of_int (g_rtt_no_load g))"
    using assms by (intro f64_of_int_nonneg) (simp_all add: is_i64_def)
  then have n: "finite_in 0 (2 ^ 84) (fmul (rtt_tolerance g) (f64_of_int (g_rtt_no_load g)))"
    by (rule finite_in_mul [OF assms(1)]) (simp_all add: f64_bounds_pow)
  have "1 \<le> t" "t \<le> 2 ^ 64" using assms by (simp_all add: is_i64_def)
  then obtain q where "f64_of_int t = Fin q" "repr q" "1 \<le> q" "q \<le> 2 ^ 64" by (rule f64_of_int_pos)
  then have "finite_in 1 (2 ^ 64) (f64_of_int t)" by (simp add: finite_in_Fin)
  with n have "finite_in 0 (2 ^ 84) (fdiv (fmul (rtt_tolerance g) (f64_of_int (g_rtt_no_load g))) (f64_of_int t))"
    by (rule finite_in_div) (simp_all add: f64_bounds_pow)
  then show ?thesis unfolding gradient_of_def by (intro fclamp) (auto simp: finite_in_def)
qed

lemma gradient_new_limit_in:
  assumes "finite_in 0 (2 ^ 53) est" "finite_in 0 1 s" "finite_in 0 (2 ^ 54) new"
  shows "finite_in 0 (2 ^ 55) (fadd (fmul est (fsub (Fin 1) s)) (fmul s new))"
proof -
  have "finite_in 0 (2 ^ 53) (fmul est (fsub (Fin 1) s))"
    by (rule finite_in_mul [OF assms(1) finite_in_unit_sub [OF assms(2)]]) (simp_all add: f64_bounds_pow)
  moreover have "finite_in 0 (2 ^ 54) (fmul s new)"
    by (rule finite_in_mul [OF assms(2,3)]) (simp_all add: f64_bounds_pow)
  ultimately show ?thesis by (rule finite_in_add) (simp_all add: f64_bounds_pow)
qed

lemma gradient_update_inv:
  assumes g: "gradient_inv k m g" and q: "finite_in 4 (of_int m) q" and t: "0 < rtt x" "is_i64 (rtt x)"
  shows "gradient_inv k m (gradient_update x q g)"
proof -
  note i = g [unfolded gradient_inv_def]
  let ?e = "g_estimated g" let ?s = "g_smoothing g"
  have e: "finite_in 0 (2 ^ 53) ?e"
    using i finite_in_int_bound finite_in_weaken [of "of_int k" "2 ^ 53" ?e 0 "2 ^ 53"] by auto
  have q': "finite_in 0 (2 ^ 53) q"
    using i q finite_in_int_bound finite_in_weaken [of 4 "2 ^ 53" q 0 "2 ^ 53"] by auto
  have gr: "finite_in (1/2) 1 (gradient_of (rtt x) g)" using i t by (intro gradient_of_in) simp_all
  have "finite_in 0 (2 ^ 53) (fmul ?e (gradient_of (rtt x) g))"
    by (rule finite_in_mul [OF e gr]) (simp_all add: f64_bounds_pow)
  then have n1: "finite_in 0 (2 ^ 54) (fadd (fmul ?e (gradient_of (rtt x) g)) q)"
    by (rule finite_in_add [OF _ q']) (simp_all add: f64_bounds_pow)
  have n2: "finite_in 0 (2 ^ 54) (fmul ?e (backoff_ratio g))"
    by (rule finite_in_mul [OF e, of 0 1]) (use i in \<open>simp_all add: f64_bounds_pow\<close>)
  have sm: "finite_in (of_int k) (2 ^ 55) (if flt n ?e
      then fmax (f64_of_int k) (fadd (fmul ?e (fsub (Fin 1) ?s)) (fmul ?s n)) else n)"
    if n: "finite_in 0 (2 ^ 54) n" for n
  proof -
    have "finite_in (max (of_int k) 0) (max (of_int k) (2 ^ 55))
        (fmax (f64_of_int k) (fadd (fmul ?e (fsub (Fin 1) ?s)) (fmul ?s n)))"
      by (rule finite_in_max [OF finite_in_of_int gradient_new_limit_in [OF e _ n]]) (use i in simp_all)
    moreover have "k \<le> 2 ^ 55" using i by simp
    then have "(of_int k :: rat) \<le> of_int (2 ^ 55)" by (simp only: of_int_le_iff)
    ultimately have "finite_in (of_int k) (2 ^ 55)
        (fmax (f64_of_int k) (fadd (fmul ?e (fsub (Fin 1) ?s)) (fmul ?s n)))"
      by (auto elim: finite_in_weaken)
    moreover have "finite_in (of_int k) (2 ^ 55) n" if "\<not> flt n ?e"
    proof -
      obtain a b where "?e = Fin a" "of_int k \<le> a" "n = Fin b" "repr b" "b \<le> 2 ^ 54"
        using i n by (auto simp: finite_in_def)
      with that show ?thesis by (simp add: finite_in_Fin)
    qed
    ultimately show ?thesis by simp
  qed
  have fin: "finite_in (of_int k) (of_int m) (fmax q (fmin (f64_of_int m) n))"
    if n: "finite_in (of_int k) (2 ^ 55) n" for n
  proof -
    have "finite_in (min (of_int m) (of_int k)) (min (of_int m) (2 ^ 55)) (fmin (f64_of_int m) n)"
      by (rule finite_in_min [OF finite_in_of_int n]) (use i in simp)
    from finite_in_max [OF q this] show ?thesis
      by (rule finite_in_weaken) (use i in simp_all)
  qed
  have res: "gradient_inv k m (g\<lparr>g_estimated := fmax q (fmin (f64_of_int m) n)\<rparr>)"
    if "finite_in (of_int k) (2 ^ 55) n" for n
    using fin [OF that] i unfolding gradient_inv_def by simp
  define new where "new = (if did_drop x then fmul ?e (backoff_ratio g)
      else fadd (fmul ?e (gradient_of (rtt x) g)) q)"
  have "finite_in 0 (2 ^ 54) new" using n1 n2 by (simp add: new_def)
  note r = res [OF sm [OF this]]
  have "gradient_update x q g = g \<or> gradient_update x q g = g\<lparr>g_estimated := fmax q (fmin (f64_of_int m)
      (if flt new ?e then fmax (f64_of_int k) (fadd (fmul ?e (fsub (Fin 1) ?s)) (fmul ?s new)) else new))\<rparr>"
    using i unfolding gradient_update_def new_def Let_def
    by (cases "\<not> did_drop x \<and> flt (f64_of_int (inflight x)) (fdiv ?e (Fin 2))")
      (simp_all only: if_True if_False simp_thms)
  then show ?thesis using r g by (elim disjE) (simp_all only:)
qed

lemma gradient_inv_sample:
  assumes g: "gradient_inv k m g" and x: "valid_sample x"
  shows "gradient_inv k m (gradient_on_sample r x g)"
proof -
  note i = g [unfolded gradient_inv_def]
  have n: "1 \<le> f64_to_i64 (g_estimated g)" "f64_to_i64 (g_estimated g) \<le> m"
    using finite_in_trunc [of k m "g_estimated g"] i by (simp_all add: is_i64_def)
  have q: "finite_in 4 (of_int m) (gradient_queue_size (f64_to_i64 (g_estimated g)))"
    using n i by (intro gradient_queue_size_in) simp_all
  have frame: "gradient_inv k m (h\<lparr>reset_rtt_counter := c\<rparr>) = gradient_inv k m h" for h c
    by (simp add: gradient_inv_def)
  have p: "finite_in (of_int k) (of_int m) (fmax (f64_of_int k) (gradient_queue_size (f64_to_i64 (g_estimated g))))"
  proof -
    have "finite_in (max (of_int k) 4) (max (of_int k) (of_int m))
        (fmax (f64_of_int k) (gradient_queue_size (f64_to_i64 (g_estimated g))))"
      by (rule finite_in_max [OF finite_in_of_int q]) (use i in simp)
    then show ?thesis by (rule finite_in_weaken) (use i in simp_all)
  qed
  have low: "gradient_inv k m (h\<lparr>g_rtt_no_load := rtt x\<rparr>)" if "gradient_inv k m h" "0 < rtt x" for h
    using that x by (simp add: gradient_inv_def valid_sample_def)
  show ?thesis
    using g i p q x gradient_update_inv [OF _ q, of k _ x]
    by (auto simp: gradient_on_sample_def Let_def frame low valid_sample_def)
      (auto simp: gradient_inv_def is_i64_def)
qed

interpretation gradient: rtt_limit gradient_on_sample gradient_limit "\<lambda>_. True" "gradient_inv k m" k m
  for k m
proof unfold_locales
  fix g assume "gradient_inv k m g"
  then show "k \<le> gradient_limit g \<and> gradient_limit g \<le> m"
    using finite_in_trunc [of k m "g_estimated g"]
    by (simp add: gradient_limit_def gradient_inv_def is_i64_def)
qed (auto intro: gradient_inv_sample, simp add: gradient_on_sample_def)

subsection \<open>Gradient2Limit stays in its range\<close>

text \<open>The average of positive samples below \<open>2 ^ 64\<close> stays there.\<close>

definition exp_inv :: "exp_avg \<Rightarrow> bool" where
  "exp_inv e \<longleftrightarrow> 1 \<le> window e \<and> window e \<le> 2 ^ 52 \<and> warmup e = 10 \<and> 0 \<le> ea_count e \<and> ea_count e \<le> 10
     \<and> finite_in 0 (of_int (ea_count e) * 2 ^ 64) (ea_sum e) \<and> finite_in 0 (2 ^ 64) (ea_value e)"

lemma ewma_factor_in:
  assumes "1 \<le> w" "w \<le> 2 ^ 52"
  shows "finite_in 0 1 (ewma_factor w)"
proof -
  have w: "f64_of_int w = Fin (of_int w)" using assms by (intro f64_of_int_exact) simp
  have "rnd (of_int (w + 1)) = Fin (of_int (w + 1))" using assms by (intro rnd_of_small) simp
  then have e: "ewma_factor w = rnd (2 / of_int (w + 1))"
    using assms by (simp add: ewma_factor_def w)
  have "(2 :: rat) \<le> of_int (w + 1)" using assms(1) by simp
  then have "0 \<le> 2 / (of_int (w + 1) :: rat)" "2 / (of_int (w + 1) :: rat) \<le> 1" by simp_all
  moreover have "f64_bounds 0 1" by (intro f64_bounds_le) simp_all
  ultimately show ?thesis unfolding e by (intro rnd_between)
qed

lemma exp_add_inv:
  assumes e: "exp_inv e" and x: "finite_in 0 (2 ^ 64) x"
  shows "exp_inv (snd (exp_add x e)) \<and> finite_in 0 (2 ^ 64) (fst (exp_add x e))"
proof (cases "ea_count e < 10")
  case True
  note i = e [unfolded exp_inv_def]
  let ?n = "ea_count e + 1"
  have n: "i64 ?n = ?n" using i by (simp add: i64_simps)
  have r: "repr (of_int (2 ^ 64 * ?n))"
    using repr_scale [of "of_int ?n" 64] repr_of_int [of ?n] i True by simp
  have "(of_int ?n :: rat) \<le> 10" using True by simp
  then have b: "f64_bounds 0 (of_int ?n * 2 ^ 64)"
    using r by (intro f64_bounds_le) (simp_all add: mult.commute)
  have s: "finite_in 0 (of_int ?n * 2 ^ 64) (fadd (ea_sum e) x)"
    using i x b by (intro finite_in_add [of 0 "of_int (ea_count e) * 2 ^ 64" _ 0 "2 ^ 64"])
      (simp_all add: distrib_right)
  have ni: "finite_in (of_int ?n) (of_int ?n) (f64_of_int ?n)" using i True by (intro finite_in_of_int) simp
  have p: "0 < (of_int ?n :: rat)" using i by (simp only: of_int_0_less_iff) simp
  then have "finite_in 0 (2 ^ 64) (fdiv (fadd (ea_sum e) x) (f64_of_int ?n))"
    by (intro finite_in_div [OF s ni]) (simp_all add: pos_divide_le_eq distrib_left)
  then show ?thesis using i n s True by (simp add: exp_add_def exp_inv_def Let_def)
next
  case False
  note i = e [unfolded exp_inv_def]
  have "finite_in 0 (2 ^ 64) (fadd (fmul (ea_value e) (fsub (Fin 1) (ewma_factor (window e))))
      (fmul x (ewma_factor (window e))))"
    using i x by (intro ewma_in ewma_factor_in) simp_all
  moreover have c: "ea_count e = 10" using i False by simp
  moreover have "finite_in 0 (of_int 10 * 2 ^ 64) (ea_sum e)" using i unfolding c by blast
  ultimately show ?thesis using i False by (simp add: exp_add_def exp_inv_def Let_def)
qed

lemma f64_clamp_int:
  assumes "1 \<le> k" "k \<le> m" "m \<le> 2 ^ 53" "finite_in lo hi x"
  shows "finite_in (of_int k) (of_int m) (fmax (f64_of_int k) (fmin (f64_of_int m) x))"
proof -
  have "f64_of_int k = Fin (of_int k)" "f64_of_int m = Fin (of_int m)" "repr (of_int k)" "repr (of_int m)"
    using assms by (auto intro: f64_of_int_exact repr_of_int)
  moreover have "(of_int k :: rat) \<le> of_int m" using assms(2) by (simp only: of_int_le_iff)
  ultimately show ?thesis using assms(4) by (auto intro!: fclamp simp: finite_in_def [of lo hi])
qed

definition gradient2_ok :: "gradient2 \<Rightarrow> bool" where
  "gradient2_ok g \<longleftrightarrow> finite_in 0 1 (g2_smoothing g) \<and> finite_in 0 (2 ^ 20) (g2_tolerance g)
     \<and> finite_in 0 (2 ^ 53) (g2_queue_size g) \<and> exp_inv (long_rtt g)
     \<and> finite_in 0 (2 ^ 53) (g2_estimated g)"

lemma gradient2_long_in:
  assumes "exp_inv (long_rtt g)" "finite_in 0 (2 ^ 64) x"
  shows "exp_inv (snd (gradient2_long x g)) \<and> finite_in 0 (2 ^ 64) (fst (gradient2_long x g))"
proof -
  have l: "finite_in 0 1 (f64_lit (95/100))"
    unfolding f64_lit_def by (rule rnd_between) (simp_all add: f64_bounds_le)
  obtain long e where le: "exp_add x (long_rtt g) = (long, e)" by fastforce
  have e: "exp_inv e" "finite_in 0 (2 ^ 64) long" using exp_add_inv [OF assms] le by simp_all
  then have "finite_in 0 (2 ^ 64) (ea_value e)" by (simp add: exp_inv_def)
  then have "finite_in 0 (2 ^ 64) (fmul (ea_value e) (f64_lit (95/100)))"
    by (rule finite_in_mul [OF _ l]) simp_all
  with e show ?thesis by (simp add: gradient2_long_def exp_update_def exp_inv_def le)
qed

text \<open>What a timed sample does: the average moves, and a busy one sets a clamped finite limit.\<close>

lemma gradient2_step:
  assumes g: "gradient2_ok g" and x: "0 < rtt x" "is_i64 (rtt x)"
  obtains e new where "exp_inv e" "finite_in 0 (2 ^ 55) new"
    "gradient2_on_sample x g = g\<lparr>long_rtt := e\<rparr> \<or> gradient2_on_sample x g =
      g\<lparr>long_rtt := e, g2_estimated := fmax (f64_of_int (g2_min g)) (fmin (f64_of_int (g2_max g)) new)\<rparr>"
proof -
  note i = g [unfolded gradient2_ok_def]
  have "1 \<le> rtt x" "rtt x \<le> 2 ^ 64" using x by (simp_all add: is_i64_def)
  then obtain q where "f64_of_int (rtt x) = Fin q" "repr q" "1 \<le> q" "q \<le> 2 ^ 64" by (rule f64_of_int_pos)
  then have sh: "finite_in 1 (2 ^ 64) (f64_of_int (rtt x))" by (simp add: finite_in_Fin)
  obtain long e where le: "gradient2_long (f64_of_int (rtt x)) g = (long, e)" by fastforce
  have lo: "exp_inv e" "finite_in 0 (2 ^ 64) long"
    using gradient2_long_in [of g "f64_of_int (rtt x)"] i finite_in_weaken [OF sh, of 0 "2 ^ 64"] le by simp_all
  define gr where "gr = fmax (Fin (1/2)) (fmin (Fin 1) (fdiv (fmul (g2_tolerance g) long) (f64_of_int (rtt x))))"
  have "finite_in 0 (2 ^ 84) (fmul (g2_tolerance g) long)"
    by (rule finite_in_mul [OF _ lo(2), of 0 "2 ^ 20"]) (use i in simp_all)
  then have "finite_in 0 (2 ^ 84) (fdiv (fmul (g2_tolerance g) long) (f64_of_int (rtt x)))"
    by (rule finite_in_div [OF _ sh]) simp_all
  then have gr: "finite_in (1/2) 1 gr" unfolding gr_def by (intro fclamp) (auto simp: finite_in_def)
  let ?e = "g2_estimated g" let ?s = "g2_smoothing g"
  have est: "finite_in 0 (2 ^ 53) ?e" using i by simp
  have "finite_in 0 (2 ^ 53) (fmul ?e gr)" by (rule finite_in_mul [OF est gr]) simp_all
  then have n: "finite_in 0 (2 ^ 54) (fadd (fmul ?e gr) (g2_queue_size g))"
    by (rule finite_in_add) (use i in auto)
  define new where "new = fadd (fmul ?e (fsub (Fin 1) ?s)) (fmul (fadd (fmul ?e gr) (g2_queue_size g)) ?s)"
  have "finite_in 0 (2 ^ 53) (fmul ?e (fsub (Fin 1) ?s))"
    by (rule finite_in_mul [OF est finite_in_unit_sub]) (use i in simp_all)
  moreover have "finite_in 0 (2 ^ 54) (fmul (fadd (fmul ?e gr) (g2_queue_size g)) ?s)"
    by (rule finite_in_mul [OF n]) (use i in auto)
  ultimately have new: "finite_in 0 (2 ^ 55) new" unfolding new_def by (rule finite_in_add) simp_all
  show thesis
    by (rule that [OF lo(1) new]) (use x in \<open>simp add: gradient2_on_sample_def Let_def le new_def gr_def\<close>)
qed

definition gradient2_inv :: "int \<Rightarrow> int \<Rightarrow> gradient2 \<Rightarrow> bool" where
  "gradient2_inv k m g \<longleftrightarrow> g2_max g = m \<and> g2_min g = k \<and> 1 \<le> k \<and> k \<le> m \<and> m \<le> 2 ^ 53
     \<and> gradient2_ok g \<and> finite_in (of_int k) (of_int m) (g2_estimated g)"

lemma gradient2_inv_sample:
  assumes g: "gradient2_inv k m g" and x: "valid_sample x"
  shows "gradient2_inv k m (gradient2_on_sample x g)"
proof (cases "rtt x \<le> 0")
  case False
  note i = g [unfolded gradient2_inv_def]
  have "0 < rtt x" "is_i64 (rtt x)" using False x by (simp_all add: valid_sample_def)
  with i obtain e new where e: "exp_inv e" "finite_in 0 (2 ^ 55) new"
    "gradient2_on_sample x g = g\<lparr>long_rtt := e\<rparr> \<or> gradient2_on_sample x g =
      g\<lparr>long_rtt := e, g2_estimated := fmax (f64_of_int (g2_min g)) (fmin (f64_of_int (g2_max g)) new)\<rparr>"
    using gradient2_step by metis
  have c: "finite_in (of_int k) (of_int m) (fmax (f64_of_int k) (fmin (f64_of_int m) new))"
    using e(2) by (rule f64_clamp_int [rotated 3]) (use i in simp_all)
  have "finite_in 0 (2 ^ 53) y" if "finite_in (of_int k) (of_int m) y" for y
    using finite_in_int_bound [OF _ that] i finite_in_weaken [of "of_int k" "2 ^ 53" y 0 "2 ^ 53"] by simp
  then show ?thesis using e(1,3) c i by (auto simp: gradient2_inv_def gradient2_ok_def)
qed (use g in \<open>simp add: gradient2_on_sample_def\<close>)

interpretation gradient2: rtt_limit "\<lambda>_ :: unit. gradient2_on_sample" gradient2_limit "\<lambda>_. True"
  "gradient2_inv k m" k m
  for k m
proof unfold_locales
  fix g assume "gradient2_inv k m g"
  then show "k \<le> gradient2_limit g \<and> gradient2_limit g \<le> m"
    using finite_in_trunc [of k m "g2_estimated g"]
    by (simp add: gradient2_limit_def gradient2_inv_def is_i64_def)
qed (auto intro: gradient2_inv_sample, simp add: gradient2_on_sample_def)

subsection \<open>Properties of the gradient limits\<close>

lemma f64_lit_unit: "0 \<le> q \<Longrightarrow> q \<le> 1 \<Longrightarrow> finite_in 0 1 (f64_lit q)"
  unfolding f64_lit_def by (rule rnd_between) (simp_all add: f64_bounds_le)

lemmas gradient_option_defs = gradient_max_concurrency_def gradient_min_limit_def
  gradient_initial_limit_def new_gradient_def
lemmas gradient2_option_defs = gradient2_max_concurrency_def gradient2_min_limit_def
  gradient2_initial_limit_def new_gradient2_def

lemma repr_add_half: "\<bar>n\<bar> \<le> 2 ^ 51 \<Longrightarrow> repr (of_int n + 1/2)"
proof -
  assume "\<bar>n\<bar> \<le> 2 ^ 51"
  then have "\<bar>2 * n + 1\<bar> \<le> 2 ^ 53" by simp
  moreover have "of_int n + 1/2 = of_int (2 * n + 1) * pow2 (- 1)" by (simp add: pow2_def)
  ultimately show ?thesis unfolding repr_def by (intro exI [of _ "2 * n + 1"] exI [of _ "- 1"]) simp
qed

lemma new_exp_inv: "exp_inv (new_exp_avg 600 10)"
  by (simp add: exp_inv_def new_exp_avg_def finite_in_Fin)

text \<open>The options of gradient.go.\<close>

definition gradient_options :: "gradient_option set" where
  "gradient_options = range gradient_initial_limit \<union> range gradient_max_concurrency \<union> range gradient_min_limit
     \<union> range gradient_rtt_tolerance"

lemma gradient_options_frame:
  "set opts \<subseteq> gradient_options \<Longrightarrow> g_rtt_no_load (fold id opts g) = g_rtt_no_load g
    \<and> g_smoothing (fold id opts g) = g_smoothing g \<and> backoff_ratio (fold id opts g) = backoff_ratio g"
  by (induction opts arbitrary: g)
    (auto simp: gradient_options_def gradient_initial_limit_def gradient_max_concurrency_def gradient_min_limit_def
      gradient_rtt_tolerance_def)

text \<open>
  C28. The limit of a \<open>GradientLimit\<close> stays from its minimum to its maximum, whatever the
  samples and the random numbers, for every list of options that leaves the initial limit from
  the minimum to the maximum, the minimum at least 1, the maximum from 4 to \<open>2 ^ 53\<close> and the
  RTT tolerance from 0 to \<open>2 ^ 20\<close>.
\<close>

theorem gradient_limit_bounds:
  assumes "set opts \<subseteq> gradient_options" "g = new_gradient opts r0" "g_estimated g = f64_of_int n"
    and "1 \<le> g_min g" "g_min g \<le> n" "n \<le> g_max g" "4 \<le> g_max g" "g_max g \<le> 2 ^ 53"
    and "finite_in 0 (2 ^ 20) (rtt_tolerance g)" "\<forall>rx \<in> set rxs. valid_sample (snd rx)"
  shows "g_min g \<le> gradient_limit (feed gradient_on_sample rxs g) \<and> gradient_limit (feed gradient_on_sample rxs g) \<le> g_max g"
proof -
  have "f64_of_int n = Fin (of_int n)" "repr (of_int n)"
    using assms by (auto intro: f64_of_int_exact repr_of_int)
  moreover have "g_rtt_no_load g = 0" "g_smoothing g = f64_lit (2/10)" "backoff_ratio g = f64_lit (9/10)"
    using gradient_options_frame [OF assms(1)] by (simp_all add: assms(2) new_gradient_def Let_def)
  ultimately have "gradient_inv (g_min g) (g_max g) g"
    using assms(3-9) f64_lit_unit [of "2/10"] f64_lit_unit [of "9/10"]
    by (simp add: gradient_inv_def finite_in_Fin is_i64_def)
  then show ?thesis by (rule gradient.limit_after) (use assms(10) in auto)
qed

theorem gradient_limit_bounds_witness:
  "gradient_limit (feed gradient_on_sample [(3, \<lparr>rtt = 5, inflight = 3, did_drop = True\<rparr>)] (new_gradient
      [gradient_initial_limit 20, gradient_max_concurrency 40, gradient_min_limit 2] 0)) \<le> 40"
  using gradient_limit_bounds [OF _ refl, of "[gradient_initial_limit 20, gradient_max_concurrency 40, gradient_min_limit 2]"
      0 20 "[(3, \<lparr>rtt = 5, inflight = 3, did_drop = True\<rparr>)]"]
  by (simp add: valid_sample_def is_i64_def gradient_options_def gradient_option_defs Let_def finite_in_Fin)

text \<open>The initial limit is not clamped: a maximum below the default 50 starts above itself.\<close>

lemma gradient_starts_above_max:
  "g_max (new_gradient [gradient_max_concurrency 30] r0) = 30
    \<and> gradient_limit (new_gradient [gradient_max_concurrency 30] r0) = 50"
  by (simp add: gradient_option_defs gradient_limit_def Let_def trunc_rat_def is_i64_def)

lemma gradient_drop_floor:
  assumes "finite_in 0 (2 ^ 53) (g_estimated g)" "finite_in 0 1 (g_smoothing g)"
    "finite_in 0 1 (backoff_ratio g)" "did_drop x" "g_min g = 1" "0 \<le> g_max g" "g_max g < 4"
  shows "g_estimated (gradient_update x (Fin 4) g) = Fin 4"
proof -
  define new where "new = fmul (g_estimated g) (backoff_ratio g)"
  let ?s = "fadd (fmul (g_estimated g) (fsub (Fin 1) (g_smoothing g))) (fmul (g_smoothing g) new)"
  have f1: "finite_in 0 (2 ^ 53) new" unfolding new_def
    by (rule finite_in_mul [OF assms(1,3)]) simp_all
  have f2: "finite_in 0 (2 ^ 55) ?s"
    by (rule gradient_new_limit_in [OF assms(1,2) finite_in_weaken [OF f1]]) simp_all
  have "finite_in 0 (2 ^ 55) (if flt new (g_estimated g) then fmax (Fin 1) ?s else new)"
    using finite_in_weaken [OF f1, of 0 "2 ^ 55"] finite_in_max [OF _ f2, of 1 1 "Fin 1"]
      finite_in_weaken [of 1 "2 ^ 55" "fmax (Fin 1) ?s" 0 "2 ^ 55"] by (simp add: finite_in_Fin)
  moreover have "fmax (Fin 4) (fmin (f64_of_int (g_max g)) y) = Fin 4" if "finite_in lo hi y" for lo hi y
    using that assms(6,7) f64_of_int_exact [of "g_max g"] by (auto simp: finite_in_def)
  ultimately have "fmax (Fin 4) (fmin (f64_of_int (g_max g))
      (if flt new (g_estimated g) then fmax (Fin 1) ?s else new)) = Fin 4" by blast
  then show ?thesis using assms(4,5) unfolding new_def
    by (simp add: gradient_update_def Let_def cong: if_cong split del: if_split)
qed

text \<open>
  A maximum below 4 is not respected by \<open>GradientLimit\<close>: from an initial limit within the
  maximum, the first dropped request moves the limit up to 4, the least queue allowance.
\<close>

theorem gradient_exceeds_max:
  assumes "1 \<le> n" "n \<le> m" "m < 4" "0 < t" "is_i64 t" "0 \<le> r0" "r0 < 1000"
  shows "gradient_limit (gradient_on_sample r \<lparr>rtt = t, inflight = j, did_drop = True\<rparr>
    (new_gradient [gradient_max_concurrency m, gradient_initial_limit n] r0)) = 4"
proof -
  have n: "f64_of_int n = Fin (of_int n)" "repr (of_int n)" "f64_of_int m = Fin (of_int m)"
    using assms by (auto intro: f64_of_int_exact repr_of_int)
  have t: "f64_to_i64 (Fin (of_int n)) = n" using assms by (intro f64_to_i64_of_int) (simp add: is_i64_def)
  have "finite_in 1 (of_int n) (fsqrt (Fin (of_int n)))" using assms by (intro fsqrt_le_self) simp_all
  then obtain s where s: "fsqrt (Fin (of_int n)) = Fin s" "s \<le> of_int n" by (rule finite_inE)
  have "(of_int n :: rat) \<le> 4" using assms by simp
  then have q: "gradient_queue_size n = Fin 4" using s by (simp add: gradient_queue_size_def n)
  define g where "g = (new_gradient [gradient_max_concurrency m, gradient_initial_limit n] r0)
      \<lparr>reset_rtt_counter := 999 + r0, g_rtt_no_load := t\<rparr>"
  have g: "g_estimated g = Fin (of_int n)" "g_max g = m" "g_min g = 1"
    "g_smoothing g = f64_lit (2/10)" "backoff_ratio g = f64_lit (9/10)"
    by (simp_all add: g_def gradient_option_defs Let_def n)
  have "gradient_on_sample r \<lparr>rtt = t, inflight = j, did_drop = True\<rparr>
      (new_gradient [gradient_max_concurrency m, gradient_initial_limit n] r0)
    = gradient_update \<lparr>rtt = t, inflight = j, did_drop = True\<rparr> (Fin 4) g"
    using assms(4-7) t q
    by (simp add: gradient_on_sample_def gradient_option_defs next_probe_countdown_def Let_def i64_simps
        n g_def del: f64_to_i64.simps)
  moreover have "g_estimated (gradient_update \<lparr>rtt = t, inflight = j, did_drop = True\<rparr> (Fin 4) g) = Fin 4"
    using g n assms f64_lit_unit [of "2/10"] f64_lit_unit [of "9/10"]
    by (intro gradient_drop_floor) (simp_all add: finite_in_Fin)
  ultimately show ?thesis by (simp add: gradient_limit_def trunc_rat_def is_i64_def)
qed

theorem gradient_exceeds_max_witness:
  "gradient_limit (gradient_on_sample 0 \<lparr>rtt = 5, inflight = 1, did_drop = True\<rparr>
    (new_gradient [gradient_max_concurrency 2, gradient_initial_limit 2] 0)) = 4"
  by (rule gradient_exceeds_max) (simp_all add: is_i64_def)

text \<open>
  The limit of a \<open>Gradient2Limit\<close> stays from its minimum to its maximum, whatever the
  samples, when the options put the minimum below the maximum.
\<close>

theorem gradient2_limit_bounds:
  assumes "1 \<le> k" "k \<le> n" "n \<le> m" "m \<le> 2 ^ 53" "\<forall>ux \<in> set uxs. valid_sample (snd ux)"
  shows "k \<le> gradient2_limit (feed (\<lambda>_ :: unit. gradient2_on_sample) uxs (new_gradient2
      [gradient2_max_concurrency m, gradient2_min_limit k, gradient2_initial_limit n]))
    \<and> gradient2_limit (feed (\<lambda>_ :: unit. gradient2_on_sample) uxs (new_gradient2
      [gradient2_max_concurrency m, gradient2_min_limit k, gradient2_initial_limit n])) \<le> m"
proof -
  have n: "f64_of_int n = Fin (of_int n)" "repr (of_int n)"
    using assms by (auto intro: f64_of_int_exact repr_of_int)
  have "(of_int n :: rat) \<le> of_int (2 ^ 53)" using assms by (simp only: of_int_le_iff)
  moreover have "repr (3/2)" using repr_add_half [of 1] by simp
  ultimately have "gradient2_inv k m (new_gradient2
      [gradient2_max_concurrency m, gradient2_min_limit k, gradient2_initial_limit n])"
    using assms(1-4) n f64_lit_unit [of "2/10"] new_exp_inv
    by (simp add: gradient2_inv_def gradient2_ok_def gradient2_option_defs finite_in_Fin)
  then show ?thesis by (rule gradient2.limit_after) (use assms(5) in auto)
qed

theorem gradient2_limit_bounds_witness:
  "gradient2_limit (feed (\<lambda>_ :: unit. gradient2_on_sample) [((), \<lparr>rtt = 5, inflight = 30, did_drop = False\<rparr>)]
      (new_gradient2 [gradient2_max_concurrency 50, gradient2_min_limit 10, gradient2_initial_limit 20])) \<le> 50"
  using gradient2_limit_bounds [of 10 20 50 "[((), \<lparr>rtt = 5, inflight = 30, did_drop = False\<rparr>)]"]
  by (simp add: valid_sample_def is_i64_def)

text \<open>
  A maximum below the default minimum of 20 has no effect on a \<open>Gradient2Limit\<close>:
  the limit is 20 whatever the samples.
\<close>

theorem gradient2_max_ineffective:
  assumes "0 \<le> m" "m < 20" "\<forall>ux \<in> set uxs. valid_sample (snd ux)"
  shows "gradient2_limit (feed (\<lambda>_ :: unit. gradient2_on_sample) uxs
    (new_gradient2 [gradient2_max_concurrency m])) = 20"
proof -
  define good where "good g \<longleftrightarrow> gradient2_ok g \<and> g2_max g = m \<and> g2_min g = 20 \<and> g2_estimated g = Fin 20" for g
  have r20: "repr 20" "repr (3/2)" using repr_of_int [of 20] repr_add_half [of 1] by simp_all
  then have init: "good (new_gradient2 [gradient2_max_concurrency m])"
    using f64_lit_unit [of "2/10"] new_exp_inv
    by (simp add: good_def gradient2_ok_def gradient2_option_defs finite_in_Fin)
  have step: "good (gradient2_on_sample x g)" if "good g" "valid_sample x" for g x
  proof (cases "rtt x \<le> 0")
    case False
    then have "0 < rtt x" "is_i64 (rtt x)" using that(2) by (simp_all add: valid_sample_def)
    with that(1) obtain e new where e: "exp_inv e" "finite_in 0 (2 ^ 55) new"
      "gradient2_on_sample x g = g\<lparr>long_rtt := e\<rparr> \<or> gradient2_on_sample x g =
        g\<lparr>long_rtt := e, g2_estimated := fmax (f64_of_int (g2_min g)) (fmin (f64_of_int (g2_max g)) new)\<rparr>"
      unfolding good_def using gradient2_step by metis
    have "fmax (f64_of_int 20) (fmin (f64_of_int m) new) = Fin 20"
      using e(2) assms(1,2) f64_of_int_exact [of m] by (auto simp: finite_in_def)
    then show ?thesis using e(1,3) that(1) by (auto simp: good_def gradient2_ok_def)
  qed (use that in \<open>simp add: gradient2_on_sample_def\<close>)
  have "good (feed (\<lambda>_ :: unit. gradient2_on_sample) uxs (new_gradient2 [gradient2_max_concurrency m]))"
    unfolding feed_def by (rule run_invariant [where P = good and Q = "\<lambda>ux. valid_sample (snd ux)", OF step init assms(3)])
  then show ?thesis by (simp add: good_def gradient2_limit_def trunc_rat_def is_i64_def)
qed

theorem gradient2_max_ineffective_witness:
  "gradient2_limit (feed (\<lambda>_ :: unit. gradient2_on_sample) [((), \<lparr>rtt = 5, inflight = 30, did_drop = True\<rparr>)]
      (new_gradient2 [gradient2_max_concurrency 5])) = 20"
  by (rule gradient2_max_ineffective) (simp_all add: valid_sample_def is_i64_def)

end
