(* ===== verification/Windowed.thy ===== *)
theory Windowed
  imports LimitSpec Vegas Gradient
begin

text \<open>
  The windowed wrapper (concurrencylimits/windowed.go) over any limit: samples are gathered in
  a window, and when the window's time is over its aggregate goes to the wrapped limit, if
  there are enough samples. Part one of \<open>OnSample\<close> runs under the mutex and says what the
  wrapped limit is to be told, part two tells it. The clock reading is an argument, paired with
  the input of the wrapped limit. A limit that meets the contract of \<open>LimitSpec\<close> meets it
  when it is wrapped.
\<close>

subsection \<open>The sample window\<close>

record sample_window =
  min_rtt :: duration
  sum_rtt :: duration
  sw_count :: int
  max_in_flight :: int
  sw_drop :: bool

definition empty_window :: sample_window where
  "empty_window = \<lparr>min_rtt = 0, sum_rtt = 0, sw_count = 0, max_in_flight = 0, sw_drop = False\<rparr>"

definition window_add :: "sample \<Rightarrow> sample_window \<Rightarrow> sample_window" where
  "window_add x s =
     \<lparr>min_rtt = (if sw_count s = 0 \<or> rtt x < min_rtt s then rtt x else min_rtt s),
      sum_rtt = i64 (sum_rtt s + rtt x), sw_count = i64 (sw_count s + 1),
      max_in_flight = (if max_in_flight s < inflight x then inflight x else max_in_flight s),
      sw_drop = (sw_drop s \<or> did_drop x)\<rparr>"

definition candidate_rtt :: "sample_window \<Rightarrow> duration" where
  "candidate_rtt s = min_rtt s"

definition tracked_rtt :: "sample_window \<Rightarrow> duration" where
  "tracked_rtt s = (if sw_count s = 0 then 0 else i64 (sum_rtt s sdiv sw_count s))"

definition clamp_duration :: "duration \<Rightarrow> duration \<Rightarrow> duration \<Rightarrow> duration" where
  "clamp_duration d lo hi = (if d < lo then lo else if hi < d then hi else d)"

subsection \<open>The wrapper\<close>

record 'd windowed =
  delegate :: 'd
  min_window_time :: duration
  max_window_time :: duration
  window_size :: int
  min_rtt_threshold :: duration
  w_window :: sample_window
  next_update :: time

definition default_window_size :: int where "default_window_size = 10"
definition default_min_window_time :: duration where "default_min_window_time = second"
definition default_max_window_time :: duration where "default_max_window_time = second"
definition default_min_rtt_threshold :: duration where "default_min_rtt_threshold = 100 * microsecond"

type_synonym 'd windowed_option = "'d windowed \<Rightarrow> 'd windowed"

definition windowed_min_window_time :: "duration \<Rightarrow> 'd windowed_option" where
  "windowed_min_window_time d w = w\<lparr>min_window_time := d\<rparr>"

definition windowed_max_window_time :: "duration \<Rightarrow> 'd windowed_option" where
  "windowed_max_window_time d w = w\<lparr>max_window_time := d\<rparr>"

definition windowed_window_size :: "int \<Rightarrow> 'd windowed_option" where
  "windowed_window_size n w = w\<lparr>window_size := n\<rparr>"

definition windowed_min_rtt_threshold :: "duration \<Rightarrow> 'd windowed_option" where
  "windowed_min_rtt_threshold d w = w\<lparr>min_rtt_threshold := d\<rparr>"

definition new_windowed :: "'d \<Rightarrow> 'd windowed_option list \<Rightarrow> 'd windowed" where
  "new_windowed d opts = fold id opts
     \<lparr>delegate = d, min_window_time = default_min_window_time, max_window_time = default_max_window_time,
      window_size = default_window_size, min_rtt_threshold = default_min_rtt_threshold,
      w_window = empty_window, next_update = zero_time\<rparr>"

definition windowed_limit :: "('d \<Rightarrow> int) \<Rightarrow> 'd windowed \<Rightarrow> int" where
  "windowed_limit get_limit w = get_limit (delegate w)"

definition windowed_collect :: "time \<Rightarrow> sample \<Rightarrow> 'd windowed \<Rightarrow> 'd windowed \<times> sample option" where
  "windowed_collect now x w =
     (if rtt x < min_rtt_threshold w then (w, None)
      else let w = w\<lparr>w_window := window_add x (w_window w)\<rparr>
      in if is_zero (next_update w)
         then (w\<lparr>next_update := time_add now (min_window_time w)\<rparr>, None)
         else if \<not> after now (next_update w) then (w, None)
         else let current = w_window w;
                  w = w\<lparr>w_window := empty_window,
                        next_update := time_add now (clamp_duration (i64 (candidate_rtt current * 2))
                          (min_window_time w) (max_window_time w))\<rparr>
              in (w, if window_size w \<le> sw_count current
                     then Some \<lparr>rtt = tracked_rtt current, inflight = max_in_flight current,
                                did_drop = sw_drop current\<rparr>
                     else None))"

definition windowed_on_sample ::
  "('e \<Rightarrow> sample \<Rightarrow> 'd \<Rightarrow> 'd) \<Rightarrow> time \<times> 'e \<Rightarrow> sample \<Rightarrow> 'd windowed \<Rightarrow> 'd windowed" where
  "windowed_on_sample on_sample te x w =
     (case windowed_collect (fst te) x w of
        (w', None) \<Rightarrow> w'
      | (w', Some y) \<Rightarrow> w'\<lparr>delegate := on_sample (snd te) y (delegate w')\<rparr>)"

subsection \<open>The contract of the wrapped limit carries over\<close>

definition window_ok :: "sample_window \<Rightarrow> bool" where
  "window_ok s \<longleftrightarrow> is_i64 (sum_rtt s) \<and> is_i64 (max_in_flight s)"

definition windowed_inv :: "('d \<Rightarrow> bool) \<Rightarrow> 'd windowed \<Rightarrow> bool" where
  "windowed_inv P w \<longleftrightarrow> P (delegate w) \<and> window_ok (w_window w)"

lemma window_add_ok: "window_ok s \<Longrightarrow> valid_sample x \<Longrightarrow> window_ok (window_add x s)"
  by (simp add: window_ok_def window_add_def valid_sample_def)

lemma empty_window_ok: "window_ok empty_window"
  by (simp add: window_ok_def empty_window_def is_i64_def)

lemma tracked_valid:
  "window_ok s \<Longrightarrow> valid_sample \<lparr>rtt = tracked_rtt s, inflight = max_in_flight s, did_drop = d\<rparr>"
  by (simp add: window_ok_def valid_sample_def tracked_rtt_def is_i64_def [of 0])

lemma windowed_collect_inv:
  assumes "windowed_inv P w" "valid_sample x" "windowed_collect now x w = (w', y)"
  shows "windowed_inv P w' \<and> delegate w' = delegate w \<and> (\<forall>z. y = Some z \<longrightarrow> valid_sample z)"
  using assms
  by (auto simp: windowed_collect_def windowed_inv_def Let_def window_add_ok empty_window_ok
      intro: tracked_valid split: if_split_asm)

locale windowed_over = limit_contract on_sample get_limit env_ok inv lo hi
  for on_sample :: "'e \<Rightarrow> sample \<Rightarrow> 's \<Rightarrow> 's" and get_limit env_ok inv lo hi
begin

lemma windowed_inv_sample:
  assumes "windowed_inv inv w" "env_ok (snd te)" "valid_sample x"
  shows "windowed_inv inv (windowed_on_sample on_sample te x w)"
proof -
  obtain w' y where c: "windowed_collect (fst te) x w = (w', y)" by fastforce
  note k = windowed_collect_inv [OF assms(1,3) c]
  show ?thesis
  proof (cases y)
    case None
    with k c show ?thesis by (simp add: windowed_on_sample_def)
  next
    case (Some z)
    with k assms(2) have "inv (on_sample (snd te) z (delegate w'))"
      by (auto simp: windowed_inv_def intro: inv_sample)
    with k c Some show ?thesis by (simp add: windowed_on_sample_def windowed_inv_def)
  qed
qed

end

sublocale windowed_over \<subseteq> windowed: limit_contract "windowed_on_sample on_sample"
  "windowed_limit get_limit" "\<lambda>te. env_ok (snd te)" "windowed_inv inv" lo hi
  by unfold_locales
    (rule windowed_inv_sample, assumption+,
      use limit_between in \<open>auto simp: windowed_limit_def windowed_inv_def\<close>)

interpretation windowed_vegas: windowed_over "vegas_on_sample lg" vegas_limit "\<lambda>_. True" "vegas_inv m" 1 m
  for lg m ..

interpretation windowed_gradient2: windowed_over "\<lambda>_ :: unit. gradient2_on_sample" gradient2_limit
  "\<lambda>_. True" "gradient2_inv k m" k m
  for k m ..

subsection \<open>Properties of the wrapper\<close>

lemma window_add_fields:
  "sw_count s \<noteq> 0 \<Longrightarrow> min_rtt (window_add x s) = min (rtt x) (min_rtt s)"
  "max_in_flight (window_add x s) = max (inflight x) (max_in_flight s)"
  "sum_rtt (window_add x s) = i64 (sum_rtt s + rtt x)"
  "sw_count (window_add x s) = i64 (sw_count s + 1)"
  "sw_drop (window_add x s) \<longleftrightarrow> sw_drop s \<or> did_drop x"
  by (auto simp: window_add_def)

lemma window_of_samples:
  assumes "xs \<noteq> []" "\<forall>x \<in> set xs. 0 \<le> rtt x" "(\<Sum>x\<leftarrow>xs. rtt x) \<le> i64_max" "int (length xs) \<le> i64_max"
  shows "min_rtt (fold window_add xs empty_window) = Min (rtt ` set xs)
    \<and> sum_rtt (fold window_add xs empty_window) = (\<Sum>x\<leftarrow>xs. rtt x)
    \<and> sw_count (fold window_add xs empty_window) = int (length xs)
    \<and> max_in_flight (fold window_add xs empty_window) = Max (insert 0 (inflight ` set xs))
    \<and> (sw_drop (fold window_add xs empty_window) \<longleftrightarrow> (\<exists>x \<in> set xs. did_drop x))"
  using assms
proof (induction xs rule: rev_induct)
  case (snoc x xs)
  show ?case
  proof (cases "xs = []")
    case True
    with snoc.prems show ?thesis
      by (auto simp: window_add_def empty_window_def i64_simps max_def)
  next
    case False
    have pos: "0 \<le> rtt x" "0 \<le> (\<Sum>x\<leftarrow>xs. rtt x)"
      using snoc.prems(2) by (auto intro!: sum_list_nonneg)
    have len: "0 < length xs" using False by simp
    from snoc False pos have ih: "min_rtt (fold window_add xs empty_window) = Min (rtt ` set xs)"
      "sum_rtt (fold window_add xs empty_window) = (\<Sum>x\<leftarrow>xs. rtt x)"
      "sw_count (fold window_add xs empty_window) = int (length xs)"
      "max_in_flight (fold window_add xs empty_window) = Max (insert 0 (inflight ` set xs))"
      "sw_drop (fold window_add xs empty_window) \<longleftrightarrow> (\<exists>x \<in> set xs. did_drop x)" by auto
    have "Max (insert 0 (inflight ` set (xs @ [x]))) = max (inflight x) (Max (insert 0 (inflight ` set xs)))"
    proof -
      have "insert 0 (inflight ` set (xs @ [x])) = insert (inflight x) (insert 0 (inflight ` set xs))" by auto
      then show ?thesis
        using Max_insert [of "insert 0 (inflight ` set xs)" "inflight x"] by (simp del: Max_insert)
    qed
    moreover have "Min (rtt ` set (xs @ [x])) = min (rtt x) (Min (rtt ` set xs))"
      using False by simp
    moreover have "i64 (int (length xs) + 1) = int (length xs) + 1"
      "i64 ((\<Sum>x\<leftarrow>xs. rtt x) + rtt x) = (\<Sum>x\<leftarrow>xs. rtt x) + rtt x"
      using snoc.prems(3,4) pos by (simp_all add: i64_simps)
    moreover have "fold window_add (xs @ [x]) empty_window = window_add x (fold window_add xs empty_window)"
      by simp
    ultimately show ?thesis using len ih by (simp only: window_add_fields set_append set_simps
          map_append sum_list.append length_append) (auto simp: window_add_fields)
  qed
qed simp

lemma sum_list_bounds:
  fixes f :: "'b \<Rightarrow> int"
  assumes "xs \<noteq> []"
  shows "Min (f ` set xs) * int (length xs) \<le> (\<Sum>x\<leftarrow>xs. f x)"
    "(\<Sum>x\<leftarrow>xs. f x) \<le> Max (f ` set xs) * int (length xs)"
proof -
  have "(\<Sum>x\<leftarrow>xs. f x) \<ge> k * int (length xs)" if "\<forall>x \<in> set xs. k \<le> f x" for k
    using that by (induction xs) (auto simp: algebra_simps)
  moreover have "(\<Sum>x\<leftarrow>xs. f x) \<le> k * int (length xs)" if "\<forall>x \<in> set xs. f x \<le> k" for k
    using that by (induction xs) (auto simp: algebra_simps)
  ultimately show "Min (f ` set xs) * int (length xs) \<le> (\<Sum>x\<leftarrow>xs. f x)"
    "(\<Sum>x\<leftarrow>xs. f x) \<le> Max (f ` set xs) * int (length xs)" by simp_all
qed

text \<open>A sample below the threshold changes nothing, one within the window only enters it.\<close>

lemma on_sample_short:
  "rtt x < min_rtt_threshold w \<Longrightarrow> windowed_on_sample f te x w = w"
  by (simp add: windowed_on_sample_def windowed_collect_def)

lemma on_sample_within:
  "min_rtt_threshold w \<le> rtt x \<Longrightarrow> next_update w \<noteq> 0 \<Longrightarrow> fst te \<le> next_update w \<Longrightarrow>
    windowed_on_sample f te x w = w\<lparr>w_window := window_add x (w_window w)\<rparr>"
  by (simp add: windowed_on_sample_def windowed_collect_def Let_def time_defs)

lemma on_sample_first:
  "min_rtt_threshold w \<le> rtt x \<Longrightarrow> next_update w = 0 \<Longrightarrow>
    windowed_on_sample f te x w = w\<lparr>w_window := window_add x (w_window w), next_update := fst te + min_window_time w\<rparr>"
  by (simp add: windowed_on_sample_def windowed_collect_def Let_def time_defs)

definition long_samples :: "duration \<Rightarrow> ((time \<times> 'e) \<times> sample) list \<Rightarrow> ((time \<times> 'e) \<times> sample) list" where
  "long_samples thr = filter (\<lambda>ex. thr \<le> rtt (snd ex))"

lemma feed_within:
  assumes "next_update w \<noteq> 0" "\<forall>ex \<in> set (long_samples (min_rtt_threshold w) exs). fst (fst ex) \<le> next_update w"
  shows "feed (windowed_on_sample f) exs w
    = w\<lparr>w_window := fold window_add (List.map snd (long_samples (min_rtt_threshold w) exs)) (w_window w)\<rparr>"
  using assms
proof (induction exs arbitrary: w)
  case (Cons ex exs)
  obtain te x where ex: "ex = (te, x)" by (cases ex)
  show ?case
  proof (cases "rtt x < min_rtt_threshold w")
    case True
    with Cons ex show ?thesis by (simp add: long_samples_def on_sample_short)
  next
    case False
    with Cons.prems ex have "windowed_on_sample f te x w = w\<lparr>w_window := window_add x (w_window w)\<rparr>"
      by (intro on_sample_within) (simp_all add: long_samples_def)
    with Cons.IH [of "w\<lparr>w_window := window_add x (w_window w)\<rparr>"] Cons.prems False ex show ?thesis
      by (simp add: long_samples_def)
  qed
qed (simp add: long_samples_def)

text \<open>When the window of a wrapper ends: the first sample of a new wrapper starts its window.\<close>

definition window_end :: "'d windowed \<Rightarrow> ((time \<times> 'e) \<times> sample) list \<Rightarrow> time" where
  "window_end w exs = (if next_update w \<noteq> 0 then next_update w
     else case long_samples (min_rtt_threshold w) exs of
            [] \<Rightarrow> 0 | ex # _ \<Rightarrow> fst (fst ex) + min_window_time w)"

lemma feed_window:
  assumes "window_end w exs \<noteq> 0" "\<forall>ex \<in> set (long_samples (min_rtt_threshold w) exs). fst (fst ex) \<le> window_end w exs"
  shows "feed (windowed_on_sample f) exs w
    = w\<lparr>w_window := fold window_add (List.map snd (long_samples (min_rtt_threshold w) exs)) (w_window w),
        next_update := window_end w exs\<rparr>"
  using assms
proof (induction exs)
  case Nil
  then show ?case by (simp add: window_end_def long_samples_def split: if_split_asm)
next
  case (Cons ex exs)
  obtain te x where ex: "ex = (te, x)" by (cases ex)
  consider "rtt x < min_rtt_threshold w" | "min_rtt_threshold w \<le> rtt x" "next_update w \<noteq> 0"
    | "min_rtt_threshold w \<le> rtt x" "next_update w = 0" by linarith
  then show ?case
  proof cases
    case 1
    then have "long_samples (min_rtt_threshold w) (ex # exs) = long_samples (min_rtt_threshold w) exs"
      by (simp add: long_samples_def ex)
    moreover from this have "window_end w (ex # exs) = window_end w exs" by (simp only: window_end_def)
    ultimately show ?thesis using Cons 1 ex by (simp add: on_sample_short)
  next
    case 2
    then have "window_end w (ex # exs) = next_update w" by (simp add: window_end_def)
    with 2 Cons.prems show ?thesis by (simp only: feed_within) simp
  next
    case 3
    define v where "v = w\<lparr>w_window := window_add x (w_window w), next_update := fst te + min_window_time w\<rparr>"
    have e: "window_end w (ex # exs) = fst te + min_window_time w"
      using 3 by (simp add: window_end_def long_samples_def ex)
    have "windowed_on_sample f te x w = v" unfolding v_def using 3 by (rule on_sample_first)
    moreover have "feed (windowed_on_sample f) exs v
        = v\<lparr>w_window := fold window_add (List.map snd (long_samples (min_rtt_threshold v) exs)) (w_window v)\<rparr>"
      using Cons.prems 3 unfolding e by (intro feed_within) (simp_all add: v_def long_samples_def ex)
    ultimately show ?thesis using 3 e by (simp add: v_def ex long_samples_def)
  qed
qed

text \<open>
  C36. What the wrapped limit is told, for any wrapped limit and from any empty window, that of
  a new wrapper too. Samples below the RTT threshold change nothing; the window ends a minimum
  window time after the first long sample of a new wrapper, later at \<open>nextUpdate\<close>. As long
  as no long sample is later than that end the wrapped limit is not touched. The first long
  sample after it gives the wrapped limit exactly one sample when the window has at least
  \<open>windowSize\<close>, and none otherwise: the truncated mean of their round-trip times (so
  between the least and the greatest), the greatest of their in-flight counts and whether one
  of them was a drop. The next window is empty and ends twice the least round-trip time later,
  clamped to the window times. The sum of the round-trip times and the count must fit an int64.
\<close>

theorem windowed_report:
  assumes "w_window w = empty_window" "0 \<le> min_rtt_threshold w"
    and "window_end w exs \<noteq> 0" "\<forall>ex \<in> set (long_samples (min_rtt_threshold w) exs). fst (fst ex) \<le> window_end w exs"
    and "window_end w exs < t" "min_rtt_threshold w \<le> rtt x"
    and "xs = List.map snd (long_samples (min_rtt_threshold w) exs) @ [x]"
    and "(\<Sum>y\<leftarrow>xs. rtt y) \<le> i64_max" "int (length xs) \<le> i64_max"
    and "during = feed (windowed_on_sample on_sample) exs w"
    and "next = windowed_on_sample on_sample (t, e) x during"
  shows "delegate during = delegate w
    \<and> (\<exists>mean. delegate next =
        (if window_size w \<le> int (length xs)
         then on_sample e \<lparr>rtt = mean, inflight = Max (insert 0 (inflight ` set xs)), did_drop = (\<exists>y \<in> set xs. did_drop y)\<rparr>
                (delegate w)
         else delegate w)
      \<and> mean = (\<Sum>y\<leftarrow>xs. rtt y) div int (length xs) \<and> Min (rtt ` set xs) \<le> mean \<and> mean \<le> Max (rtt ` set xs))
    \<and> w_window next = empty_window
    \<and> next_update next = t + clamp_duration (i64 (Min (rtt ` set xs) * 2)) (min_window_time w) (max_window_time w)"
proof -
  have ne: "xs \<noteq> []" "0 < int (length xs)" by (simp_all add: assms(7))
  have pos: "\<forall>y \<in> set xs. 0 \<le> rtt y" using assms(2,6,7) by (auto simp: long_samples_def)
  define s where "s = fold window_add xs empty_window"
  note f = window_of_samples [OF ne(1) pos assms(8,9), folded s_def]
  let ?mean = "(\<Sum>y\<leftarrow>xs. rtt y) div int (length xs)"
  have sum0: "0 \<le> (\<Sum>y\<leftarrow>xs. rtt y)" using pos by (auto intro!: sum_list_nonneg)
  have "0 \<le> ?mean" "?mean \<le> (\<Sum>y\<leftarrow>xs. rtt y)"
    using zdiv_mono2 [OF sum0, of 1 "int (length xs)"] sum0 ne(2)
    by (simp_all add: pos_imp_zdiv_nonneg_iff Suc_leI)
  then have mean: "tracked_rtt s = ?mean"
    using f sum0 ne assms(8) by (simp add: tracked_rtt_def sdiv_nonneg i64_simps)
  have b: "Min (rtt ` set xs) \<le> ?mean" "?mean \<le> Max (rtt ` set xs)"
    using zdiv_mono1 [OF sum_list_bounds(1) [OF ne(1), of rtt] ne(2)]
      zdiv_mono1 [OF sum_list_bounds(2) [OF ne(1), of rtt] ne(2)] ne by simp_all
  have d: "during = w\<lparr>w_window := fold window_add (List.map snd (long_samples (min_rtt_threshold w) exs)) empty_window,
      next_update := window_end w exs\<rparr>"
    unfolding assms(10) assms(1) [symmetric] using assms(3,4) by (rule feed_window)
  have "windowed_collect t x during =
      (during\<lparr>w_window := empty_window, next_update := t + clamp_duration (i64 (Min (rtt ` set xs) * 2)) (min_window_time w) (max_window_time w)\<rparr>,
       if window_size w \<le> int (length xs)
       then Some \<lparr>rtt = ?mean, inflight = Max (insert 0 (inflight ` set xs)), did_drop = (\<exists>y \<in> set xs. did_drop y)\<rparr>
       else None)"
    using assms(3,5,6) f mean by (simp add: d windowed_collect_def Let_def time_defs s_def assms(7) candidate_rtt_def)
  then have "next = (during\<lparr>w_window := empty_window, next_update := t + clamp_duration (i64 (Min (rtt ` set xs) * 2)) (min_window_time w) (max_window_time w),
      delegate := (if window_size w \<le> int (length xs)
         then on_sample e \<lparr>rtt = ?mean, inflight = Max (insert 0 (inflight ` set xs)), did_drop = (\<exists>y \<in> set xs. did_drop y)\<rparr>
                (delegate w)
         else delegate w)\<rparr>)"
    by (simp add: assms(11) windowed_on_sample_def d)
  with b show ?thesis by (simp add: d)
qed

theorem windowed_report_witness:
  "\<exists>mean. delegate (windowed_on_sample (\<lambda>_ :: unit. Cons) (3 * second, ()) \<lparr>rtt = second, inflight = 1, did_drop = False\<rparr>
      (feed (windowed_on_sample (\<lambda>_. Cons))
        [((1, ()), \<lparr>rtt = 5, inflight = 9, did_drop = False\<rparr>), ((second, ()), \<lparr>rtt = 2 * second, inflight = 3, did_drop = True\<rparr>)]
        (new_windowed [] [windowed_window_size 2])))
    = [\<lparr>rtt = mean, inflight = 3, did_drop = True\<rparr>] \<and> 2 * mean = 3 * second"
proof -
  let ?w = "new_windowed [] [windowed_window_size 2] :: sample list windowed"
  let ?exs = "[((1, ()), \<lparr>rtt = 5, inflight = 9, did_drop = False\<rparr>), ((second, ()), \<lparr>rtt = 2 * second, inflight = 3, did_drop = True\<rparr>)]"
  let ?x = "\<lparr>rtt = second, inflight = 1, did_drop = False\<rparr>"
  have w: "w_window ?w = empty_window" "min_rtt_threshold ?w = 100 * microsecond" "next_update ?w = 0"
    "min_window_time ?w = second" "window_size ?w = 2" "delegate ?w = []"
    by (simp_all add: new_windowed_def windowed_window_size_def default_min_rtt_threshold_def
        default_min_window_time_def time_defs)
  have l: "long_samples (min_rtt_threshold ?w) ?exs = [((second, ()), \<lparr>rtt = 2 * second, inflight = 3, did_drop = True\<rparr>)]"
    unfolding w by (simp add: long_samples_def)
  have e: "window_end ?w ?exs = 2 * second" by (simp add: window_end_def w long_samples_def)
  show ?thesis
    using windowed_report [of ?w ?exs "3 * second" ?x _ _ "\<lambda>_. Cons" _ "()", OF w(1) _ _ _ _ _ refl _ _ refl refl] l e w
    by auto
qed

text \<open>The samples a run of \<open>windowed_collect\<close> leaves in the window.\<close>

definition collect_all :: "(time \<times> sample) list \<Rightarrow> 'd windowed \<Rightarrow> 'd windowed" where
  "collect_all = run (\<lambda>tx w. fst (windowed_collect (fst tx) (snd tx) w))"

lemma clamp_duration_ge: "lo \<le> hi \<Longrightarrow> lo \<le> clamp_duration d lo hi"
  by (simp add: clamp_duration_def)

lemma collect_next_update:
  assumes "0 < t" "0 \<le> min_window_time w" "min_window_time w \<le> max_window_time w"
    and "t + min_window_time w \<le> next_update w" "t \<le> s"
  shows "t + min_window_time w \<le> next_update (fst (windowed_collect s x w))
    \<and> min_window_time (fst (windowed_collect s x w)) = min_window_time w
    \<and> max_window_time (fst (windowed_collect s x w)) = max_window_time w"
  using assms clamp_duration_ge [OF assms(3), of "i64 (candidate_rtt (window_add x (w_window w)) * 2)"]
  by (auto simp: windowed_collect_def Let_def time_defs)

lemma collect_all_next_update:
  assumes "0 < t" "0 \<le> min_window_time w" "min_window_time w \<le> max_window_time w"
    and "t + min_window_time w \<le> next_update w" "\<forall>sx \<in> set sxs. t \<le> fst sx"
  shows "t + min_window_time w \<le> next_update (collect_all sxs w)
    \<and> min_window_time (collect_all sxs w) = min_window_time w
    \<and> max_window_time (collect_all sxs w) = max_window_time w"
  using assms
proof (induction sxs arbitrary: w)
  case (Cons sx sxs)
  let ?w = "fst (windowed_collect (fst sx) (snd sx) w)"
  have "t + min_window_time w \<le> next_update ?w \<and> min_window_time ?w = min_window_time w
      \<and> max_window_time ?w = max_window_time w"
    using Cons.prems by (intro collect_next_update) simp_all
  with Cons.IH [of ?w] Cons.prems show ?case by (simp add: collect_all_def)
qed (simp add: collect_all_def)

text \<open>
  The wrapped limit is updated at most once per window: two updates are more than the
  minimum window time apart, whatever samples come between them.
\<close>

theorem windowed_spacing:
  assumes "windowed_collect t x w = (w', Some y)"
    and "0 < t" "0 \<le> min_window_time w" "min_window_time w \<le> max_window_time w"
    and "\<forall>sx \<in> set sxs. t \<le> fst sx" "t \<le> t'"
    and "snd (windowed_collect t' x' (collect_all sxs w')) = Some z"
  shows "t + min_window_time w < t'"
proof -
  have w': "t + min_window_time w \<le> next_update w' \<and> min_window_time w' = min_window_time w
      \<and> max_window_time w' = max_window_time w"
    using assms(1,4) clamp_duration_ge [OF assms(4), of "i64 (candidate_rtt (window_add x (w_window w)) * 2)"]
    by (auto simp: windowed_collect_def Let_def time_defs split: if_split_asm)
  then have "t + min_window_time w' \<le> next_update (collect_all sxs w')"
    using collect_all_next_update [of t w' sxs] assms(2-5) by simp
  moreover have "next_update (collect_all sxs w') < t'"
    using assms(7) by (auto simp: windowed_collect_def Let_def time_defs split: if_split_asm)
  ultimately show ?thesis using w' by simp
qed

theorem windowed_spacing_witness:
  "(20 :: int) + 10 < 31"
proof -
  let ?w = "\<lparr>delegate = (), min_window_time = 10, max_window_time = 10, window_size = 1,
      min_rtt_threshold = 1, w_window = empty_window, next_update = 10\<rparr>"
  let ?x = "\<lparr>rtt = 4, inflight = 3, did_drop = True\<rparr>"
  have "windowed_collect 20 ?x ?w = (?w\<lparr>next_update := 30\<rparr>, Some \<lparr>rtt = 4, inflight = 3, did_drop = True\<rparr>)"
    by (simp add: windowed_collect_def Let_def time_defs window_add_def empty_window_def i64_def
        tracked_rtt_def candidate_rtt_def clamp_duration_def sdiv_nonneg)
  moreover have "snd (windowed_collect 31 ?x (collect_all [(25, ?x)] (?w\<lparr>next_update := 30\<rparr>)))
      = Some \<lparr>rtt = 4, inflight = 3, did_drop = True\<rparr>"
    by (simp add: collect_all_def windowed_collect_def Let_def time_defs window_add_def empty_window_def i64_def
        tracked_rtt_def candidate_rtt_def clamp_duration_def sdiv_nonneg)
  ultimately show ?thesis using windowed_spacing [of 20 ?x ?w _ _ "[(25, ?x)]" 31] by simp
qed

text \<open>
  A wrapped Vegas limit stays from 1 to the maximum of the limit it wraps, whatever the
  samples, the clock, the window options and the random numbers.
\<close>

theorem windowed_vegas_bounds:
  assumes "1 \<le> n" "n \<le> m" "m \<le> 2 ^ 53" "\<forall>tx \<in> set txs. valid_sample (snd tx)"
  shows "1 \<le> windowed_limit vegas_limit (feed (windowed_on_sample (vegas_on_sample lg)) txs
      (new_windowed (new_vegas [vegas_max_concurrency m, vegas_initial_limit n] r0)
        [windowed_min_window_time a, windowed_max_window_time b, windowed_window_size c]))
    \<and> windowed_limit vegas_limit (feed (windowed_on_sample (vegas_on_sample lg)) txs
      (new_windowed (new_vegas [vegas_max_concurrency m, vegas_initial_limit n] r0)
        [windowed_min_window_time a, windowed_max_window_time b, windowed_window_size c])) \<le> m"
proof -
  have "f64_of_int n = Fin (of_int n)" "repr (of_int n)"
    using assms by (auto intro: f64_of_int_exact repr_of_int)
  then have "vegas_inv m (new_vegas [vegas_max_concurrency m, vegas_initial_limit n] r0)"
    using assms(1-3) by (simp add: vegas_inv_def new_vegas_def reset_probe_jitter_def is_i64_def
        vegas_max_concurrency_def vegas_initial_limit_def finite_in_def)
  then have "windowed_inv (vegas_inv m) (new_windowed (new_vegas [vegas_max_concurrency m, vegas_initial_limit n] r0)
      [windowed_min_window_time a, windowed_max_window_time b, windowed_window_size c])"
    by (simp add: windowed_inv_def new_windowed_def default_min_window_time_def default_max_window_time_def windowed_min_window_time_def
        windowed_max_window_time_def windowed_window_size_def empty_window_ok)
  then show ?thesis by (rule windowed_vegas.windowed.limit_after) (use assms(4) in auto)
qed

theorem windowed_vegas_bounds_witness:
  "windowed_limit vegas_limit (feed (windowed_on_sample (vegas_on_sample lg_digits))
      [((5, Fin 0), \<lparr>rtt = 5, inflight = 3, did_drop = True\<rparr>)]
      (new_windowed (new_vegas [vegas_max_concurrency 40, vegas_initial_limit 20] (Fin 0))
        [windowed_min_window_time 1, windowed_max_window_time 2, windowed_window_size 3])) \<le> 40"
  using windowed_vegas_bounds [of 20 40 "[((5, Fin 0), \<lparr>rtt = 5, inflight = 3, did_drop = True\<rparr>)]"
      lg_digits "Fin 0" 1 2 3]
  by (simp add: valid_sample_def is_i64_def)

end
