(* ===== verification/Limiter.thy ===== *)
theory Limiter
  imports LimitSpec Vegas Gradient Http "HOL-Library.Multiset"
begin

text \<open>
  The fail-fast limiter (concurrencylimits/limiter.go) and the HTTP middleware over any
  limiter (handler.go). \<open>Acquire\<close> and the listener's callbacks are several atomic
  operations each, so that requests interleave between them: every atomic operation is one
  step, over any limit algorithm that meets the contract of \<open>LimitSpec\<close>. Logging is left
  out.
\<close>

subsection \<open>State\<close>

text \<open>
  A request between its \<open>inflight.Add(1)\<close> and its \<open>inflight.Add(-1)\<close>: its number, the
  start time and the count it saw.
\<close>

record entry =
  entry_id :: nat
  start :: time
  current :: int

text \<open>
  \<open>undoing\<close> requests have found the count above the limit and have not taken their count
  back, \<open>admitted\<close> ones hold a listener, \<open>finishing\<close> ones have set its \<open>done\<close> flag
  and \<open>sampling\<close> ones have given their count back and have not reported; with the two flags
  of \<open>finish\<close>.
\<close>

record 'd limiter =
  limit_alg :: 'd
  count_inflight :: int
  entered :: "entry multiset"
  undoing :: "entry multiset"
  admitted :: "entry multiset"
  finishing :: "(entry \<times> bool \<times> bool) multiset"
  sampling :: "(entry \<times> bool) multiset"
  rejected_ids :: "nat multiset"
  done_ids :: "nat multiset"
  started :: "nat multiset"

definition new_simple_limiter :: "'d \<Rightarrow> 'd limiter" where
  "new_simple_limiter d = \<lparr>limit_alg = d, count_inflight = 0, entered = {#}, undoing = {#},
     admitted = {#}, finishing = {#}, sampling = {#}, rejected_ids = {#}, done_ids = {#}, started = {#}\<rparr>"

subsection \<open>Acquire\<close>

text \<open>
  \<open>inflight.Add(1)\<close>. The count is the number of goroutines between the two additions, so
  it is taken to stay below the end of \<open>int64\<close>.
\<close>

definition limiter_add :: "time \<Rightarrow> nat \<Rightarrow> 'd limiter \<Rightarrow> 'd limiter option" where
  "limiter_add now i l =
     (if i \<in># started l \<or> i64_max \<le> count_inflight l then None
      else let n = count_inflight l + 1
           in Some (l\<lparr>count_inflight := n, started := add_mset i (started l),
                entered := add_mset \<lparr>entry_id = i, start = now, current = n\<rparr> (entered l)\<rparr>))"

definition limiter_decide :: "('d \<Rightarrow> int) \<Rightarrow> entry \<Rightarrow> 'd limiter \<Rightarrow> 'd limiter option" where
  "limiter_decide get_limit e l =
     (if e \<notin># entered l then None
      else let l' = l\<lparr>entered := entered l - {#e#}\<rparr>
           in if get_limit (limit_alg l) < current e
              then Some (l'\<lparr>undoing := add_mset e (undoing l)\<rparr>)
              else Some (l'\<lparr>admitted := add_mset e (admitted l)\<rparr>))"

definition limiter_undo :: "entry \<Rightarrow> 'd limiter \<Rightarrow> 'd limiter option" where
  "limiter_undo e l =
     (if e \<notin># undoing l then None
      else Some (l\<lparr>undoing := undoing l - {#e#}, count_inflight := count_inflight l - 1,
             rejected_ids := add_mset (entry_id e) (rejected_ids l)\<rparr>))"

subsection \<open>The listener\<close>

text \<open>
  \<open>OnSuccess\<close>, \<open>OnIgnore\<close> and \<open>OnDropped\<close> call \<open>finish\<close> with these flags; the
  compare-and-swap lets only the first call of a request through.
\<close>

datatype outcome = OnSuccess | OnIgnore | OnDropped

fun finish_flags :: "outcome \<Rightarrow> bool \<times> bool" where
  "finish_flags OnSuccess = (True, False)"
| "finish_flags OnIgnore = (False, False)"
| "finish_flags OnDropped = (True, True)"

definition listener_finish :: "entry \<Rightarrow> outcome \<Rightarrow> 'd limiter \<Rightarrow> 'd limiter" where
  "listener_finish e out l =
     (if e \<in># admitted l
      then l\<lparr>admitted := admitted l - {#e#}, finishing := add_mset (e, finish_flags out) (finishing l)\<rparr>
      else l)"

definition listener_release :: "entry \<times> bool \<times> bool \<Rightarrow> 'd limiter \<Rightarrow> 'd limiter option" where
  "listener_release f l =
     (if f \<notin># finishing l then None
      else let l' = l\<lparr>finishing := finishing l - {#f#}, count_inflight := count_inflight l - 1\<rparr>
           in if fst (snd f) then Some (l'\<lparr>sampling := add_mset (fst f, snd (snd f)) (sampling l)\<rparr>)
              else Some (l'\<lparr>done_ids := add_mset (entry_id (fst f)) (done_ids l)\<rparr>))"

definition listener_sample ::
  "('e \<Rightarrow> sample \<Rightarrow> 'd \<Rightarrow> 'd) \<Rightarrow> time \<Rightarrow> 'e \<Rightarrow> entry \<times> bool \<Rightarrow> 'd limiter \<Rightarrow> 'd limiter option" where
  "listener_sample on_sample now r s l =
     (if s \<notin># sampling l then None
      else Some (l\<lparr>sampling := sampling l - {#s#},
             done_ids := add_mset (entry_id (fst s)) (done_ids l),
             limit_alg := on_sample r \<lparr>rtt = time_sub now (start (fst s)),
                 inflight = current (fst s), did_drop = snd s\<rparr> (limit_alg l)\<rparr>))"

definition limiter_inflight :: "'d limiter \<Rightarrow> int" where
  "limiter_inflight l = count_inflight l"

definition current_limit :: "('d \<Rightarrow> int) \<Rightarrow> 'd limiter \<Rightarrow> int" where
  "current_limit get_limit l = get_limit (limit_alg l)"

subsection \<open>Steps\<close>

datatype 'e limiter_event =
    LAdd time nat | LDecide entry | LUndo entry | LFinish entry outcome
  | LRelease "entry \<times> bool \<times> bool" | LSample time 'e "entry \<times> bool"

fun limiter_exec ::
  "('e \<Rightarrow> sample \<Rightarrow> 'd \<Rightarrow> 'd) \<Rightarrow> ('d \<Rightarrow> int) \<Rightarrow> 'e limiter_event \<Rightarrow> 'd limiter \<Rightarrow> 'd limiter option" where
  "limiter_exec os gl (LAdd now i) l = limiter_add now i l"
| "limiter_exec os gl (LDecide e) l = limiter_decide gl e l"
| "limiter_exec os gl (LUndo e) l = limiter_undo e l"
| "limiter_exec os gl (LFinish e out) l = Some (listener_finish e out l)"
| "limiter_exec os gl (LRelease f) l = listener_release f l"
| "limiter_exec os gl (LSample now r s) l = listener_sample os now r s l"

text \<open>The steps whose random or clock input is one the limit algorithm allows.\<close>

fun event_ok :: "('e \<Rightarrow> bool) \<Rightarrow> 'e limiter_event \<Rightarrow> bool" where
  "event_ok ok (LSample now r s) \<longleftrightarrow> ok r"
| "event_ok ok _ \<longleftrightarrow> True"

inductive limiter_step ::
  "('e \<Rightarrow> sample \<Rightarrow> 'd \<Rightarrow> 'd) \<Rightarrow> ('d \<Rightarrow> int) \<Rightarrow> ('e \<Rightarrow> bool) \<Rightarrow> 'd limiter \<Rightarrow> 'd limiter \<Rightarrow> bool"
  for os gl ok where
  limiter_stepI: "event_ok ok ev \<Longrightarrow> limiter_exec os gl ev l = Some m \<Longrightarrow> limiter_step os gl ok l m"

inductive_cases limiter_stepE: "limiter_step os gl ok l m"

lemmas limiter_defs = limiter_add_def limiter_decide_def limiter_undo_def listener_finish_def
  listener_release_def listener_sample_def

subsection \<open>Invariants\<close>

text \<open>The requests that are counted, and where every request that started is.\<close>

definition live :: "'d limiter \<Rightarrow> entry multiset" where
  "live l = entered l + undoing l + admitted l + image_mset fst (finishing l)"

definition below :: "int \<Rightarrow> 'd limiter \<Rightarrow> entry multiset" where
  "below k l = filter_mset (\<lambda>e. current e \<le> k) (live l)"

text \<open>
  The counter is the number of live requests; at most \<open>k\<close> of them have seen a count of at
  most \<open>k\<close>; a request that holds a listener saw at most \<open>hi\<close>.
\<close>

definition count_inv :: "'d limiter \<Rightarrow> bool" where
  "count_inv l \<longleftrightarrow> count_inflight l = int (size (live l))
     \<and> (\<forall>k \<ge> 0. int (size (below k l)) \<le> k)
     \<and> (\<forall>e \<in># live l. 1 \<le> current e \<and> current e \<le> i64_max)
     \<and> (\<forall>s \<in># sampling l. 1 \<le> current (fst s) \<and> current (fst s) \<le> i64_max)"

definition granted_inv :: "int \<Rightarrow> 'd limiter \<Rightarrow> bool" where
  "granted_inv hi l \<longleftrightarrow> (\<forall>e \<in># admitted l. current e \<le> hi)
     \<and> (\<forall>f \<in># finishing l. current (fst f) \<le> hi)"

definition place_inv :: "'d limiter \<Rightarrow> bool" where
  "place_inv l \<longleftrightarrow> started l = image_mset entry_id (live l) + image_mset (entry_id \<circ> fst) (sampling l)
      + rejected_ids l + done_ids l"

definition uniq_inv :: "'d limiter \<Rightarrow> bool" where
  "uniq_inv l \<longleftrightarrow> (\<forall>i. count (started l) i \<le> 1)"

lemma new_limiter_inv:
  "count_inv (new_simple_limiter d)" "granted_inv hi (new_simple_limiter d)"
  "place_inv (new_simple_limiter d)" "uniq_inv (new_simple_limiter d)"
  by (simp_all add: uniq_inv_def count_inv_def below_def granted_inv_def place_inv_def live_def new_simple_limiter_def)

lemma msplit: "e \<in># M \<Longrightarrow> \<exists>N. M = add_mset e N"
  by (rule multi_member_split)

lemma limiter_add_inv:
  assumes "limiter_add now i l = Some m"
  shows "count_inv l \<Longrightarrow> count_inv m" "granted_inv hi l \<Longrightarrow> granted_inv hi m"
    "place_inv l \<Longrightarrow> place_inv m" "limit_alg m = limit_alg l" "uniq_inv l \<Longrightarrow> uniq_inv m"
proof -
  let ?e = "\<lparr>entry_id = i, start = now, current = count_inflight l + 1\<rparr>"
  have m: "i \<notin># started l" "count_inflight l < i64_max"
    "m = l\<lparr>count_inflight := count_inflight l + 1, started := add_mset i (started l),
       entered := add_mset ?e (entered l)\<rparr>"
    using assms by (auto simp: limiter_add_def Let_def split: if_split_asm)
  have lv: "live m = add_mset ?e (live l)" by (simp add: m(3) live_def)
  show "count_inv m" if c: "count_inv l"
  proof -
    have "int (size (below k m)) \<le> k" if "0 \<le> k" for k
    proof (cases "count_inflight l + 1 \<le> k")
      case True
      have "size (below k m) \<le> size (live m)" unfolding below_def by (rule size_filter_mset_lesseq)
      then show ?thesis using True c by (simp add: lv count_inv_def)
    next
      case False
      then have "below k m = below k l" by (simp add: below_def lv)
      then show ?thesis using c that by (simp add: count_inv_def)
    qed
    moreover have "sampling m = sampling l" "count_inflight m = count_inflight l + 1" by (simp_all add: m(3))
    ultimately show ?thesis using c m(2) by (simp add: count_inv_def lv)
  qed
  show "granted_inv hi l \<Longrightarrow> granted_inv hi m" by (simp add: m(3) granted_inv_def)
  have k: "started m = add_mset i (started l)" "sampling m = sampling l" "rejected_ids m = rejected_ids l"
    "done_ids m = done_ids l" by (simp_all add: m(3))
  show "place_inv l \<Longrightarrow> place_inv m" by (simp add: place_inv_def lv k)
  show "uniq_inv l \<Longrightarrow> uniq_inv m" using m(1) by (auto simp: uniq_inv_def m(3) not_in_iff)
  show "limit_alg m = limit_alg l" by (simp add: m(3))
qed

text \<open>A step that moves or removes live requests keeps the counts.\<close>

lemma count_inv_shrink:
  assumes "count_inv l" "live m \<subseteq># live l" "count_inflight m = int (size (live m))"
    "\<forall>s \<in># sampling m. fst s \<in># live l \<or> s \<in># sampling l"
  shows "count_inv m"
proof -
  have "size (below k m) \<le> size (below k l)" for k
    unfolding below_def using assms(2) by (intro size_mset_mono multiset_filter_mono)
  then have "\<forall>k \<ge> 0. int (size (below k m)) \<le> k"
    using assms(1) by (meson count_inv_def of_nat_le_iff order_trans)
  moreover have "\<forall>e \<in># live m. e \<in># live l" using assms(2) by (auto dest: mset_subset_eqD)
  ultimately show ?thesis using assms(1,3,4) unfolding count_inv_def by blast
qed

lemma limiter_decide_inv:
  assumes "limiter_decide gl e l = Some m"
  shows "count_inv l \<Longrightarrow> count_inv m" "place_inv l \<Longrightarrow> place_inv m" "limit_alg m = limit_alg l"
    "gl (limit_alg l) \<le> hi \<Longrightarrow> granted_inv hi l \<Longrightarrow> granted_inv hi m"
proof -
  have "e \<in># entered l" using assms by (auto simp: limiter_decide_def split: if_split_asm)
  then obtain N where N: "entered l = add_mset e N" by (auto dest: multi_member_split)
  have lv: "live m = live l" and k: "started m = started l" "sampling m = sampling l" "rejected_ids m = rejected_ids l"
    "done_ids m = done_ids l" "count_inflight m = count_inflight l"
    using assms by (auto simp: limiter_decide_def Let_def live_def N split: if_split_asm)
  show "count_inv l \<Longrightarrow> count_inv m" by (simp add: count_inv_def below_def lv k)
  show "place_inv l \<Longrightarrow> place_inv m" by (simp add: place_inv_def lv k)
  show "limit_alg m = limit_alg l" using assms by (auto simp: limiter_decide_def Let_def split: if_split_asm)
  show "gl (limit_alg l) \<le> hi \<Longrightarrow> granted_inv hi l \<Longrightarrow> granted_inv hi m"
    using assms by (auto simp: limiter_decide_def Let_def granted_inv_def split: if_split_asm)
qed

lemma limiter_undo_inv:
  assumes "limiter_undo e l = Some m"
  shows "count_inv l \<Longrightarrow> count_inv m" "place_inv l \<Longrightarrow> place_inv m" "limit_alg m = limit_alg l"
    "granted_inv hi l \<Longrightarrow> granted_inv hi m"
proof -
  have "e \<in># undoing l" using assms by (auto simp: limiter_undo_def split: if_split_asm)
  then obtain N where N: "undoing l = add_mset e N" by (auto dest: multi_member_split)
  have lv: "live l = add_mset e (live m)" and k: "started m = started l" "sampling m = sampling l"
    "rejected_ids m = add_mset (entry_id e) (rejected_ids l)"
    "done_ids m = done_ids l" "count_inflight m = count_inflight l - 1" "limit_alg m = limit_alg l"
    "admitted m = admitted l" "finishing m = finishing l"
    using assms by (auto simp: limiter_undo_def live_def N split: if_split_asm)
  show "count_inv l \<Longrightarrow> count_inv m"
    by (rule count_inv_shrink [of l]) (auto simp: lv k count_inv_def)
  show "place_inv l \<Longrightarrow> place_inv m" by (simp add: place_inv_def lv k)
  show "limit_alg m = limit_alg l" "granted_inv hi l \<Longrightarrow> granted_inv hi m" by (simp_all add: k granted_inv_def)
qed

lemma listener_finish_inv:
  "count_inv l \<Longrightarrow> count_inv (listener_finish e out l)"
  "place_inv l \<Longrightarrow> place_inv (listener_finish e out l)"
  "granted_inv hi l \<Longrightarrow> granted_inv hi (listener_finish e out l)"
  "limit_alg (listener_finish e out l) = limit_alg l"
proof -
  let ?m = "listener_finish e out l"
  have lv: "live ?m = live l"
  proof (cases "e \<in># admitted l")
    case True
    then obtain N where "admitted l = add_mset e N" by (auto dest: multi_member_split)
    then show ?thesis by (simp add: listener_finish_def live_def)
  qed (simp add: listener_finish_def)
  have k: "started ?m = started l" "sampling ?m = sampling l" "rejected_ids ?m = rejected_ids l"
    "done_ids ?m = done_ids l" "count_inflight ?m = count_inflight l" by (simp_all add: listener_finish_def)
  show "count_inv l \<Longrightarrow> count_inv ?m" by (simp add: count_inv_def below_def lv k)
  show "place_inv l \<Longrightarrow> place_inv ?m" by (simp add: place_inv_def lv k)
  show "granted_inv hi l \<Longrightarrow> granted_inv hi ?m"
    by (auto simp: granted_inv_def listener_finish_def dest: in_diffD)
  show "limit_alg ?m = limit_alg l" by (simp add: listener_finish_def)
qed

lemma listener_release_inv:
  assumes "listener_release f l = Some m"
  shows "count_inv l \<Longrightarrow> count_inv m" "place_inv l \<Longrightarrow> place_inv m" "limit_alg m = limit_alg l"
    "granted_inv hi l \<Longrightarrow> granted_inv hi m"
proof -
  have "f \<in># finishing l" using assms by (auto simp: listener_release_def split: if_split_asm)
  then obtain N where N: "finishing l = add_mset f N" by (auto dest: multi_member_split)
  have lv: "live l = add_mset (fst f) (live m)" and k: "started m = started l"
    "image_mset entry_id (image_mset fst (sampling m)) + done_ids m
      = add_mset (entry_id (fst f)) (image_mset entry_id (image_mset fst (sampling l)) + done_ids l)"
    "rejected_ids m = rejected_ids l" "count_inflight m = count_inflight l - 1" "limit_alg m = limit_alg l"
    "admitted m = admitted l" "finishing m = N"
    "\<forall>s \<in># sampling m. fst s = fst f \<or> s \<in># sampling l"
    using assms by (auto simp: listener_release_def Let_def live_def N split: if_split_asm)
  show "count_inv l \<Longrightarrow> count_inv m"
    by (rule count_inv_shrink [of l]) (use k(8) in \<open>auto simp: lv k(4) count_inv_def\<close>)
  show "place_inv l \<Longrightarrow> place_inv m" using k(2)
    by (simp add: place_inv_def lv k(1,3) multiset.map_comp ac_simps)
  show "limit_alg m = limit_alg l" "granted_inv hi l \<Longrightarrow> granted_inv hi m" by (simp_all add: k granted_inv_def N)
qed

lemma listener_sample_inv:
  assumes "listener_sample os now r s l = Some m"
  shows "count_inv l \<Longrightarrow> count_inv m" "place_inv l \<Longrightarrow> place_inv m" "granted_inv hi l \<Longrightarrow> granted_inv hi m"
    "\<exists>t. limit_alg m = os r \<lparr>rtt = time_sub now t, inflight = current (fst s), did_drop = snd s\<rparr> (limit_alg l)
      \<and> s \<in># sampling l"
proof -
  have s: "s \<in># sampling l" using assms by (auto simp: listener_sample_def split: if_split_asm)
  then obtain N where N: "sampling l = add_mset s N" by (auto dest: multi_member_split)
  have lv: "live m = live l" and k: "started m = started l" "sampling m = N" "rejected_ids m = rejected_ids l"
    "done_ids m = add_mset (entry_id (fst s)) (done_ids l)" "count_inflight m = count_inflight l"
    "admitted m = admitted l" "finishing m = finishing l"
    using assms by (auto simp: listener_sample_def live_def N split: if_split_asm)
  show "count_inv l \<Longrightarrow> count_inv m" by (auto simp: count_inv_def below_def lv k N)
  show "place_inv l \<Longrightarrow> place_inv m" by (simp add: place_inv_def lv k N ac_simps)
  show "granted_inv hi l \<Longrightarrow> granted_inv hi m" by (simp add: k granted_inv_def)
  show "\<exists>t. limit_alg m = os r \<lparr>rtt = time_sub now t, inflight = current (fst s), did_drop = snd s\<rparr> (limit_alg l)
      \<and> s \<in># sampling l"
    using assms s by (auto simp: listener_sample_def)
qed


definition limiter_inv :: "('d \<Rightarrow> bool) \<Rightarrow> int \<Rightarrow> 'd limiter \<Rightarrow> bool" where
  "limiter_inv P hi l \<longleftrightarrow> P (limit_alg l) \<and> count_inv l \<and> granted_inv hi l \<and> place_inv l \<and> uniq_inv l"

text \<open>
  A limiter over a limit algorithm that meets its contract: whatever the interleaving, at
  most \<open>hi\<close> requests hold a listener.
\<close>

locale limiter_over = limit_contract on_sample get_limit env_ok inv lo hi
  for on_sample :: "'e \<Rightarrow> sample \<Rightarrow> 's \<Rightarrow> 's" and get_limit env_ok inv lo hi +
  fixes d0 :: 's
  assumes inv_d0: "inv d0" and hi_nonneg: "0 \<le> hi"
begin

abbreviation "the_step \<equiv> limiter_step on_sample get_limit env_ok"

lemma limiter_inv_step:
  assumes l: "limiter_inv inv hi l" and step: "the_step l m"
  shows "limiter_inv inv hi m"
proof -
  obtain ev where ok: "event_ok env_ok ev" and ex: "limiter_exec on_sample get_limit ev l = Some m"
    using step by (rule limiter_stepE)
  have le: "get_limit (limit_alg l) \<le> hi" using l limit_between by (simp add: limiter_inv_def)
  have uniq: "started m = started l \<Longrightarrow> uniq_inv m" using l by (simp add: limiter_inv_def uniq_inv_def)
  show ?thesis
  proof (cases ev)
    case (LAdd now i)
    with ex have "limiter_add now i l = Some m" by simp
    note h = limiter_add_inv [OF this]
    from h h(2) [of hi] l show ?thesis by (simp add: limiter_inv_def)
  next
    case (LDecide e)
    then have "started m = started l" using ex by (auto simp: limiter_decide_def Let_def split: if_split_asm)
    moreover from LDecide ex have "limiter_decide get_limit e l = Some m" by simp
    note h = limiter_decide_inv [OF this]
    ultimately show ?thesis using h(1-3) h(4) [of hi] l le uniq by (simp add: limiter_inv_def)
  next
    case (LUndo e)
    then have "started m = started l" using ex by (auto simp: limiter_undo_def split: if_split_asm)
    moreover from LUndo ex have "limiter_undo e l = Some m" by simp
    note h = limiter_undo_inv [OF this]
    ultimately show ?thesis using h(1-3) h(4) [of hi] l uniq by (simp add: limiter_inv_def)
  next
    case (LFinish e out)
    then have "m = listener_finish e out l" using ex by simp
    moreover from this have "started m = started l" by (simp add: listener_finish_def)
    ultimately show ?thesis using l uniq listener_finish_inv [where l = l and e = e and out = out]
      by (simp add: limiter_inv_def)
  next
    case (LRelease f)
    then have "started m = started l" using ex by (auto simp: listener_release_def Let_def split: if_split_asm)
    moreover from LRelease ex have "listener_release f l = Some m" by simp
    note h = listener_release_inv [OF this]
    ultimately show ?thesis using h(1-3) h(4) [of hi] l uniq by (simp add: limiter_inv_def)
  next
    case (LSample now r s)
    then have m: "listener_sample on_sample now r s l = Some m" using ex by simp
    have "started m = started l" using m by (auto simp: listener_sample_def split: if_split_asm)
    moreover obtain t where t: "limit_alg m = on_sample r
        \<lparr>rtt = time_sub now t, inflight = current (fst s), did_drop = snd s\<rparr> (limit_alg l)"
      "s \<in># sampling l" using listener_sample_inv(4) [OF m] by blast
    moreover have "valid_sample \<lparr>rtt = time_sub now t, inflight = current (fst s), did_drop = snd s\<rparr>"
      using l t(2) by (auto simp: valid_sample_def is_i64_def time_sub_def limiter_inv_def count_inv_def)
    ultimately show ?thesis using LSample ok l uniq listener_sample_inv(1-3) [OF m] inv_sample
      by (simp add: limiter_inv_def)
  qed
qed

end

sublocale limiter_over \<subseteq> sys: transition_system "new_simple_limiter d0" the_step "limiter_inv inv hi"
  by unfold_locales
    (use inv_d0 in \<open>simp add: limiter_inv_def new_limiter_inv, simp add: new_simple_limiter_def\<close>,
     rule limiter_inv_step)

context limiter_over begin

lemma reach_inv: "reach (new_simple_limiter d0) the_step l \<Longrightarrow> limiter_inv inv hi l"
  by (rule sys.inv_reach)

lemma admitted_bounded:
  assumes "reach (new_simple_limiter d0) the_step l"
  shows "int (size (admitted l + image_mset fst (finishing l))) \<le> hi"
proof -
  note i = reach_inv [OF assms, unfolded limiter_inv_def]
  let ?A = "admitted l + image_mset fst (finishing l)"
  have "filter_mset (\<lambda>e. current e \<le> hi) ?A = ?A"
    using i by (intro filter_mset_eq_conv [THEN iffD2]) (auto simp: granted_inv_def)
  then have "?A \<subseteq># below hi l"
    unfolding below_def live_def by (metis multiset_filter_mono mset_subset_eq_add_right add.assoc)
  then have "size ?A \<le> size (below hi l)" by (rule size_mset_mono)
  also have "int (size (below hi l)) \<le> hi" using i hi_nonneg by (simp add: count_inv_def)
  finally show ?thesis by simp
qed

lemma inflight_counts:
  "reach (new_simple_limiter d0) the_step l \<Longrightarrow> limiter_inflight l = int (size (live l))"
  using reach_inv [of l] by (simp add: limiter_inv_def count_inv_def limiter_inflight_def)

end

subsection \<open>The limiter over the package's limits\<close>

lemma fixed_limiter: "0 \<le> n \<Longrightarrow> limiter_over fixed_on_sample fixed_limit (\<lambda>_. True) (\<lambda>f. f = n) n n n"
  by unfold_locales (simp_all add: fixed_on_sample_def fixed_limit_def)

lemma vegas_limiter:
  "vegas_inv m v \<Longrightarrow> limiter_over (vegas_on_sample lg) vegas_limit (\<lambda>_. True) (vegas_inv m) 1 m v"
  by unfold_locales (auto intro: vegas_inv_sample simp: vegas_limit_between, simp add: vegas_inv_def)

text \<open>The limiter over a Vegas limit with its defaults, as the package's users make it.\<close>

lemma default_vegas_inv: "vegas_inv 1000 (new_vegas [] r0)"
  using repr_of_int [of 20]
  by (simp add: vegas_inv_def new_vegas_def reset_probe_jitter_def is_i64_def finite_in_def)

interpretation default_limiter: limiter_over "vegas_on_sample lg" vegas_limit "\<lambda>_. True"
  "vegas_inv 1000" 1 1000 "new_vegas [] r0"
  for lg r0
  by (rule vegas_limiter) (rule default_vegas_inv)

subsection \<open>Runs\<close>

fun run_limiter ::
  "('e \<Rightarrow> sample \<Rightarrow> 'd \<Rightarrow> 'd) \<Rightarrow> ('d \<Rightarrow> int) \<Rightarrow> 'e limiter_event list \<Rightarrow> 'd limiter \<Rightarrow> 'd limiter option" where
  "run_limiter os gl [] l = Some l"
| "run_limiter os gl (ev # evs) l =
     (case limiter_exec os gl ev l of None \<Rightarrow> None | Some m \<Rightarrow> run_limiter os gl evs m)"

lemma run_limiter_reach:
  "run_limiter os gl evs l = Some m \<Longrightarrow> list_all (event_ok ok) evs \<Longrightarrow> reach l (limiter_step os gl ok) m"
proof (induction evs arbitrary: l)
  case (Cons ev evs)
  then obtain n where n: "limiter_exec os gl ev l = Some n" "run_limiter os gl evs n = Some m"
    by (auto split: option.splits)
  have "reach l (limiter_step os gl ok) n"
    using n(1) Cons.prems(2) by (auto intro: reach.intros limiter_stepI)
  with Cons.IH [OF n(2)] Cons.prems(2) show ?case by (auto intro: reach_trans)
qed (simp add: reach.intros)

abbreviation fixed_step :: "int limiter \<Rightarrow> int limiter \<Rightarrow> bool" where
  "fixed_step \<equiv> limiter_step (fixed_on_sample :: unit \<Rightarrow> sample \<Rightarrow> int \<Rightarrow> int) fixed_limit (\<lambda>_. True)"

abbreviation fixed_run :: "unit limiter_event list \<Rightarrow> int limiter \<Rightarrow> int limiter option" where
  "fixed_run \<equiv> run_limiter fixed_on_sample fixed_limit"

subsection \<open>Properties of the limiter\<close>

text \<open>
  C4. Admission is bounded under every interleaving: over a Vegas limit of any options without
  smoothing that leave the initial limit from 1 to the maximum, and the maximum at most
  \<open>2 ^ 53\<close>, at most the maximum of requests hold a listener that has not finished, although
  the count and the limit are read by separate atomic operations and the limit moves.
\<close>

theorem limiter_never_exceeds:
  assumes "set opts \<subseteq> vegas_options" "v = new_vegas opts r0" "estimated v = f64_of_int n" "smoothing v = Fin 1"
    and "1 \<le> n" "n \<le> v_max v" "v_max v \<le> 2 ^ 53"
    and "reach (new_simple_limiter v) (limiter_step (vegas_on_sample lg) vegas_limit (\<lambda>_. True)) l"
  shows "int (size (admitted l) + size (finishing l)) \<le> v_max v"
proof -
  have "vegas_inv (v_max v) v" using assms(1-7) vegas_options_inv by blast
  from limiter_over.admitted_bounded [OF vegas_limiter [OF this] assms(8)] show ?thesis by simp
qed

definition demo_entry :: "nat \<Rightarrow> int \<Rightarrow> entry" where
  "demo_entry i n = \<lparr>entry_id = i, start = 5, current = n\<rparr>"

theorem limiter_never_exceeds_witness:
  "\<exists>l. run_limiter (vegas_on_sample lg_digits) vegas_limit [LAdd 5 0, LDecide (demo_entry 0 1)]
      (new_simple_limiter (new_vegas [vegas_max_concurrency 40, vegas_initial_limit 20] (Fin 0))) = Some l
    \<and> admitted l = {#demo_entry 0 1#} \<and> int (size (admitted l) + size (finishing l)) \<le> 40"
proof -
  let ?l0 = "new_simple_limiter (new_vegas [vegas_max_concurrency 40, vegas_initial_limit 20] (Fin 0))"
  obtain l where l: "run_limiter (vegas_on_sample lg_digits) vegas_limit [LAdd 5 0, LDecide (demo_entry 0 1)] ?l0
      = Some l" "admitted l = {#demo_entry 0 1#}"
    by (simp add: limiter_defs new_simple_limiter_def demo_entry_def new_vegas_def reset_probe_jitter_def
        vegas_max_concurrency_def vegas_initial_limit_def vegas_limit_def trunc_rat_def is_i64_def)
  have "reach ?l0 (limiter_step (vegas_on_sample lg_digits) vegas_limit (\<lambda>_. True)) l"
    using l(1) by (rule run_limiter_reach) simp
  then have "int (size (admitted l) + size (finishing l)) \<le> 40"
    using limiter_never_exceeds [OF _ refl, of "[vegas_max_concurrency 40, vegas_initial_limit 20]" "Fin 0" 20 lg_digits l]
    by (simp add: vegas_options_def new_vegas_def reset_probe_jitter_def vegas_max_concurrency_def vegas_initial_limit_def)
  with l show ?thesis by blast
qed

text \<open>
  C24. No slot is lost: the in-flight count is at all times the number of requests between
  their two atomic additions, so that it is back to zero when they have all finished,
  rejected requests and repeated listener calls included.
\<close>

theorem limiter_count_exact:
  assumes "0 \<le> n" "reach (new_simple_limiter n) fixed_step l"
  shows "limiter_inflight l = int (size (entered l) + size (undoing l) + size (admitted l) + size (finishing l))"
  using limiter_over.inflight_counts [OF fixed_limiter [OF assms(1)] assms(2)] by (simp add: live_def)

theorem limiter_count_exact_witness:
  "\<exists>l. fixed_run [LAdd 5 0, LDecide (demo_entry 0 1), LAdd 5 1, LDecide (demo_entry 1 2)]
      (new_simple_limiter 1) = Some l \<and> limiter_inflight l = 2"
proof -
  obtain l where l: "fixed_run
      [LAdd 5 0, LDecide (demo_entry 0 1), LAdd 5 1, LDecide (demo_entry 1 2)] (new_simple_limiter 1) = Some l"
    "entered l = {#}" "undoing l = {#demo_entry 1 2#}" "admitted l = {#demo_entry 0 1#}" "finishing l = {#}"
    by (simp add: limiter_defs new_simple_limiter_def demo_entry_def fixed_limit_def)
  have "reach (new_simple_limiter 1) fixed_step l"
    using l(1) by (rule run_limiter_reach) simp
  from limiter_count_exact [OF _ this] l show ?thesis by simp
qed

text \<open>
  The listener's callbacks are idempotent: after the first callback of a request, any
  further one, of whatever kind, changes nothing, so a request gives back one slot and is
  sampled at most once.
\<close>

theorem listener_idempotent:
  assumes "0 \<le> n" "reach (new_simple_limiter n) fixed_step l"
  shows "listener_finish e out2 (listener_finish e out1 l) = listener_finish e out1 l"
proof -
  have "limiter_inv (\<lambda>f. f = n) n l"
    using limiter_over.reach_inv [OF fixed_limiter [OF assms(1)] assms(2)] .
  then have u: "uniq_inv l" and p: "place_inv l" by (simp_all add: limiter_inv_def)
  have "count (started l) (entry_id e) \<le> 1" using u by (simp add: uniq_inv_def)
  then have c: "count (image_mset entry_id (admitted l)) (entry_id e) \<le> 1"
    unfolding p [unfolded place_inv_def] by (simp add: live_def)
  have "e \<notin># admitted l - {#e#}"
  proof
    assume "e \<in># admitted l - {#e#}"
    then obtain N where "admitted l = add_mset e (add_mset e N)"
      by (metis diff_union_swap insert_DiffM in_diffD multi_member_split)
    with c show False by simp
  qed
  then show ?thesis by (simp add: listener_finish_def)
qed

theorem listener_idempotent_witness:
  "\<exists>l. admitted l = {#demo_entry 0 1#} \<and> fixed_run [LAdd 5 0, LDecide (demo_entry 0 1)] (new_simple_limiter 1) = Some l
    \<and> listener_finish (demo_entry 0 1) OnDropped (listener_finish (demo_entry 0 1) OnSuccess l)
      = listener_finish (demo_entry 0 1) OnSuccess l"
proof -
  obtain l where l: "fixed_run [LAdd 5 0, LDecide (demo_entry 0 1)] (new_simple_limiter 1) = Some l"
    "admitted l = {#demo_entry 0 1#}"
    by (simp add: limiter_defs new_simple_limiter_def demo_entry_def fixed_limit_def)
  have "reach (new_simple_limiter 1) fixed_step l" using l(1) by (rule run_limiter_reach) simp
  from listener_idempotent [OF _ this] l show ?thesis by simp
qed

text \<open>
  A rejected request's count is visible until it is taken back, so that a request can be
  rejected while fewer requests than the limit are in flight: with limit 1, request 1 is
  rejected because of request 0, request 0 finishes, and request 2 is rejected because of the
  count of request 1, when no request is admitted at all.
\<close>

theorem limiter_spurious_rejection:
  "map_option (\<lambda>l. (fixed_limit (limit_alg l), admitted l, finishing l, undoing l))
     (fixed_run
       [LAdd 5 0, LDecide (demo_entry 0 1), LAdd 5 1, LDecide (demo_entry 1 2),
        LFinish (demo_entry 0 1) OnIgnore, LRelease (demo_entry 0 1, False, False),
        LAdd 5 2, LDecide (demo_entry 2 2)] (new_simple_limiter 1))
   = Some (1, {#}, {#}, {#demo_entry 1 2, demo_entry 2 2#})"
  by (simp add: limiter_defs new_simple_limiter_def demo_entry_def fixed_limit_def Let_def add_mset_commute)

subsection \<open>Acquire as one operation\<close>

text \<open>
  A caller's \<open>Acquire\<close> and listener callback seen as single operations, the way a wrapper
  uses them: \<open>crowd\<close> is the number of other goroutines whose count is in at that moment
  without a listener, which only makes a rejection likelier.
\<close>

definition simple_acquire ::
  "('d \<Rightarrow> int) \<Rightarrow> time \<times> nat \<Rightarrow> 'd limiter \<Rightarrow> entry option \<times> 'd limiter" where
  "simple_acquire get_limit env l =
     (let n = count_inflight l + 1 + int (snd env);
          e = \<lparr>entry_id = size (started l), start = fst env, current = n\<rparr>;
          l' = l\<lparr>started := add_mset (size (started l)) (started l)\<rparr>
      in if get_limit (limit_alg l) < n
         then (None, l'\<lparr>rejected_ids := add_mset (size (started l)) (rejected_ids l)\<rparr>)
         else (Some e, l'\<lparr>count_inflight := count_inflight l + 1, admitted := add_mset e (admitted l)\<rparr>))"

definition simple_finish ::
  "('e \<Rightarrow> sample \<Rightarrow> 'd \<Rightarrow> 'd) \<Rightarrow> time \<times> 'e \<Rightarrow> entry \<Rightarrow> outcome \<Rightarrow> 'd limiter \<Rightarrow> 'd limiter" where
  "simple_finish on_sample env e out l =
     (if e \<notin># admitted l then l
      else let l' = l\<lparr>admitted := admitted l - {#e#}, count_inflight := count_inflight l - 1,
                done_ids := add_mset (entry_id e) (done_ids l)\<rparr>
           in if fst (finish_flags out)
              then l'\<lparr>limit_alg := on_sample (snd env) \<lparr>rtt = time_sub (fst env) (start e),
                     inflight = current e, did_drop = snd (finish_flags out)\<rparr> (limit_alg l)\<rparr>
              else l')"

text \<open>Without a crowd they are the atomic operations one after the other.\<close>

lemma simple_acquire_steps:
  assumes "size (started l) \<notin># started l" "count_inflight l < i64_max"
    and "simple_acquire gl (now, 0) l = (r, m)"
  shows "run_limiter os gl (LAdd now (size (started l))
      # LDecide \<lparr>entry_id = size (started l), start = now, current = count_inflight l + 1\<rparr>
      # (if r = None then [LUndo \<lparr>entry_id = size (started l), start = now, current = count_inflight l + 1\<rparr>]
         else [])) l = Some m"
  using assms by (auto simp: simple_acquire_def limiter_defs Let_def split: if_split_asm)

lemma simple_finish_steps:
  assumes "e \<in># admitted l"
  shows "run_limiter os gl (LFinish e out # LRelease (e, finish_flags out)
      # (if fst (finish_flags out) then [LSample now r (e, snd (finish_flags out))] else [])) l
    = Some (simple_finish os (now, r) e out l)"
  using assms by (cases l; cases out) (auto simp: simple_finish_def limiter_defs Let_def)

subsection \<open>The middleware\<close>

text \<open>
  The same \<open>codeWriter\<close> as in the queue package, and what the middleware answers and
  reports to the listener: \<open>OnDropped\<close> on a panic, which it re-raises, or a status of 500
  or more, \<open>OnSuccess\<close> otherwise.
\<close>

definition cl_write_header :: "int \<Rightarrow> code_writer \<Rightarrow> code_writer" where
  "cl_write_header c w =
     (if cw_wrote w then w
      else w\<lparr>cw_wrote := True, cw_code := c, cw_inner := cw_inner w @ [WriteHeader c]\<rparr>)"

definition cl_write :: "string \<Rightarrow> code_writer \<Rightarrow> code_writer" where
  "cl_write b w =
     (let w' = (if \<not> cw_wrote w then cl_write_header StatusOK w else w)
      in w'\<lparr>cw_inner := cw_inner w' @ [Write b]\<rparr>)"

definition cl_unwrap :: "code_writer \<Rightarrow> http_call list" where
  "cl_unwrap w = cw_inner w"

fun cl_call :: "http_call \<Rightarrow> code_writer \<Rightarrow> code_writer" where
  "cl_call (WriteHeader c) w = cl_write_header c w"
| "cl_call (Write b) w = cl_write b w"
| "cl_call (SetHeader k v) w = w\<lparr>cw_inner := cw_inner w @ [SetHeader k v]\<rparr>"

definition cl_serve :: "'p handler_run \<Rightarrow> http_call list \<Rightarrow> code_writer" where
  "cl_serve h w = run cl_call (calls h) (new_code_writer w)"

lemma cl_serve_eq: "cl_serve h w = serve h w"
proof -
  have "cl_call = cw_call"
  proof (intro ext)
    fix c and w :: code_writer
    show "cl_call c w = cw_call c w"
      by (cases c) (simp_all add: cl_write_header_def cw_write_header_def cl_write_def cw_write_def)
  qed
  then show ?thesis by (simp add: cl_serve_def serve_def)
qed

definition cl_handler ::
  "'t option \<Rightarrow> 'p handler_run \<Rightarrow> http_call list \<times> 'p option \<times> outcome option" where
  "cl_handler listener h =
     (case listener of
        None \<Rightarrow> (shed_response, None, None)
      | Some _ \<Rightarrow>
          let cw = cl_serve h [] in
          if panics h \<noteq> None then (cw_inner cw, panics h, Some OnDropped)
          else (cw_inner cw, None, Some (if StatusInternalServerError \<le> cw_code cw then OnDropped else OnSuccess)))"

text \<open>
  The middleware answers 503 and calls no listener when it is not admitted; otherwise it
  passes the response and the panic through and calls the listener once, with
  \<open>OnDropped\<close> exactly when the handler panicked or the client's status is at least 500
  (for a handler without informational responses).
\<close>

theorem cl_handler_correct:
  assumes "\<forall>c \<in> set (calls h). \<not> informational c"
  shows "cl_handler None h = (shed_response, None, None)
    \<and> fst (snd (cl_handler (Some l) h)) = panics h
    \<and> snd (snd (cl_handler (Some l) h)) =
        Some (if panics h = None \<and> status_of (fst (cl_handler (Some l) h)) < StatusInternalServerError
              then OnSuccess else OnDropped)"
  using serve_code [OF assms] by (auto simp: cl_handler_def cl_serve_eq Let_def)

theorem cl_handler_correct_witness:
  "snd (snd (cl_handler (Some ()) \<lparr>calls = [WriteHeader 502], panics = None :: unit option\<rparr>)) = Some OnDropped"
  using cl_handler_correct [of "\<lparr>calls = [WriteHeader 502], panics = None :: unit option\<rparr>" "()"]
  by (simp add: cl_handler_def cl_serve_eq serve_def new_code_writer_def cw_write_header_def)

subsection \<open>A request through the middleware\<close>

text \<open>
  The methods \<open>Handler\<close> of the limiters: acquire, serve, and tell the listener. The two
  environments are those of the acquisition and of the listener's call.
\<close>

definition simple_handler ::
  "('e \<Rightarrow> sample \<Rightarrow> 'd \<Rightarrow> 'd) \<Rightarrow> ('d \<Rightarrow> int) \<Rightarrow> time \<times> nat \<Rightarrow> time \<times> 'e \<Rightarrow> 'p handler_run
    \<Rightarrow> 'd limiter \<Rightarrow> http_call list \<times> 'p option \<times> 'd limiter" where
  "simple_handler on_sample get_limit env env' h l =
     (case simple_acquire get_limit env l of
        (None, l') \<Rightarrow> (fst (cl_handler (None :: entry option) h), None, l')
      | (Some e, l') \<Rightarrow>
          (case cl_handler (Some e) h of
             (resp, panic, out) \<Rightarrow> (resp, panic, simple_finish on_sample env' e (the out) l')))"

text \<open>
  C34. One request through the middleware of a limiter: above the limit it is answered 503 and
  the limit algorithm learns nothing; otherwise the client gets the handler's response and
  panic, the count of requests in flight is what it was before, and the algorithm gets exactly
  one sample, with the time between the two clock readings, the count the request saw, and
  the drop flag set exactly on a panic or a status of 500 or more.
\<close>

theorem middleware_request:
  assumes "\<forall>c \<in> set (calls h). \<not> informational c"
    and "simple_handler os gl (t0, others) (t1, r) h l = (resp, panic, l')"
  shows "count_inflight l' = count_inflight l \<and> admitted l' = admitted l
    \<and> (if gl (limit_alg l) < count_inflight l + 1 + int others
       then resp = shed_response \<and> panic = None \<and> limit_alg l' = limit_alg l
       else panic = panics h
         \<and> limit_alg l' = os r \<lparr>rtt = time_sub t1 t0, inflight = count_inflight l + 1 + int others,
             did_drop = (panic \<noteq> None \<or> StatusInternalServerError \<le> status_of resp)\<rparr> (limit_alg l))"
proof -
  have out: "snd (snd (cl_handler (Some e) h)) = Some (if panics h = None
        \<and> status_of (fst (cl_handler (Some e) h)) < StatusInternalServerError then OnSuccess else OnDropped)"
    and pan: "fst (snd (cl_handler (Some e) h)) = panics h" for e :: entry
    using cl_handler_correct [OF assms(1), of e] by (iprover elim: conjE)+
  show ?thesis
  proof (cases "gl (limit_alg l) < count_inflight l + 1 + int others")
    case True
    then show ?thesis using assms(2) by (auto simp: simple_handler_def simple_acquire_def cl_handler_def Let_def)
  next
    case False
    define e where "e = \<lparr>entry_id = size (started l), start = t0, current = count_inflight l + 1 + int others\<rparr>"
    obtain y p x where c: "cl_handler (Some e) h = (y, p, x)" by (metis prod_cases3)
    have x: "x = Some (if panics h = None \<and> status_of y < StatusInternalServerError then OnSuccess else OnDropped)"
      "p = panics h" using out [of e] pan [of e] c by simp_all
    have "resp = y" "panic = p" "l' = simple_finish os (t1, r) e (the x)
        (l\<lparr>started := add_mset (size (started l)) (started l), count_inflight := count_inflight l + 1,
           admitted := add_mset e (admitted l)\<rparr>)"
      using assms(2) False c by (simp_all add: simple_handler_def simple_acquire_def e_def [symmetric] Let_def)
    then show ?thesis using False x by (auto simp: simple_finish_def e_def Let_def)
  qed
qed

theorem middleware_request_witness:
  "\<exists>resp panic l'. simple_handler fixed_on_sample fixed_limit (5, 0) (9, ())
      \<lparr>calls = [WriteHeader 502], panics = None :: unit option\<rparr> (new_simple_limiter 3) = (resp, panic, l')
    \<and> count_inflight l' = 0 \<and> panic = None"
proof -
  let ?h = "\<lparr>calls = [WriteHeader 502], panics = None :: unit option\<rparr>"
  obtain resp panic l' where r: "simple_handler fixed_on_sample fixed_limit (5, 0) (9, ()) ?h (new_simple_limiter 3)
      = (resp, panic, l')" by (rule prod_cases3)
  have "\<forall>c \<in> set (calls ?h). \<not> informational c" by simp
  from middleware_request [OF this r] r show ?thesis
    by (intro exI [of _ resp] exI [of _ panic] exI [of _ l']) (simp add: new_simple_limiter_def fixed_limit_def)
qed

end
