(* ===== verification/Lifo.thy ===== *)
theory Lifo
  imports Limiter "HOL-Library.Sublist"
begin

text \<open>
  The blocking limiter with a LIFO backlog (concurrencylimits/lifo.go) over any limiter: the
  \<open>Limiter\<close> and \<open>Listener\<close> interfaces are the locale \<open>permit_source\<close>, which the
  fail-fast limiter of \<open>Limiter\<close> provides. Each critical section, and each call of the
  delegate outside the mutex, is one step; a waiter is a request number.
\<close>

subsection \<open>The Limiter interface\<close>

text \<open>
  \<open>tokens\<close> are the listeners handed out and not finished. A granted \<open>acquire\<close> adds the
  one it returns, a refused one adds none, finishing takes one away, and there are never more
  than \<open>cap\<close>.
\<close>

locale permit_source =
  fixes acquire :: "'a \<Rightarrow> 'l \<Rightarrow> 't option \<times> 'l"
    and finish :: "'f \<Rightarrow> 't \<Rightarrow> outcome \<Rightarrow> 'l \<Rightarrow> 'l"
    and tokens :: "'l \<Rightarrow> 't multiset"
    and finish_ok :: "'f \<Rightarrow> bool"
    and source_inv :: "'l \<Rightarrow> bool"
    and cap :: int
  assumes acquire_some: "source_inv l \<Longrightarrow> acquire a l = (Some t, m) \<Longrightarrow>
      source_inv m \<and> tokens m = add_mset t (tokens l)"
    and acquire_none: "source_inv l \<Longrightarrow> acquire a l = (None, m) \<Longrightarrow>
      source_inv m \<and> tokens m = tokens l"
    and finish_token: "source_inv l \<Longrightarrow> finish_ok f \<Longrightarrow> t \<in># tokens l \<Longrightarrow>
      source_inv (finish f t out l) \<and> tokens (finish f t out l) = tokens l - {#t#}"
    and tokens_bounded: "source_inv l \<Longrightarrow> int (size (tokens l)) \<le> cap"

text \<open>The fail-fast limiter provides it, whatever limit algorithm it is over.\<close>

definition simple_inv :: "('d \<Rightarrow> bool) \<Rightarrow> int \<Rightarrow> 'd limiter \<Rightarrow> bool" where
  "simple_inv P hi l \<longleftrightarrow> P (limit_alg l) \<and> count_inflight l = int (size (admitted l))
     \<and> (\<forall>e \<in># admitted l. 1 \<le> current e \<and> current e \<le> hi) \<and> int (size (admitted l)) \<le> hi"

locale simple_source = limit_contract on_sample get_limit env_ok inv lo hi
  for on_sample :: "'e \<Rightarrow> sample \<Rightarrow> 's \<Rightarrow> 's" and get_limit env_ok inv lo hi +
  assumes hi_i64: "hi \<le> i64_max"
begin

lemma simple_acquire_some:
  assumes "simple_inv inv hi l" "simple_acquire get_limit a l = (Some t, m)"
  shows "simple_inv inv hi m \<and> admitted m = add_mset t (admitted l)"
proof -
  have "get_limit (limit_alg l) \<le> hi" using assms(1) limit_between by (simp add: simple_inv_def)
  with assms show ?thesis
    by (auto simp: simple_acquire_def Let_def simple_inv_def split: if_split_asm)
qed

lemma simple_acquire_none:
  "simple_inv inv hi l \<Longrightarrow> simple_acquire get_limit a l = (None, m) \<Longrightarrow>
    simple_inv inv hi m \<and> admitted m = admitted l"
  by (auto simp: simple_acquire_def Let_def simple_inv_def split: if_split_asm)

lemma simple_inv_size: "simple_inv inv hi l \<Longrightarrow> int (size (admitted l)) \<le> hi"
  by (simp add: simple_inv_def)

lemma simple_finish_token:
  assumes "simple_inv inv hi l" "env_ok (snd f)" "t \<in># admitted l"
  shows "simple_inv inv hi (simple_finish on_sample f t out l)
    \<and> admitted (simple_finish on_sample f t out l) = admitted l - {#t#}"
proof -
  obtain N where N: "admitted l = add_mset t N" using assms(3) by (auto dest: multi_member_split)
  have "valid_sample \<lparr>rtt = time_sub (fst f) (start t), inflight = current t, did_drop = d\<rparr>" for d
    using assms(1) hi_i64 by (auto simp: valid_sample_def is_i64_def time_sub_def simple_inv_def N)
  then have "inv (on_sample (snd f) \<lparr>rtt = time_sub (fst f) (start t), inflight = current t, did_drop = d\<rparr>
      (limit_alg l))" for d using assms(1,2) by (intro inv_sample) (simp_all add: simple_inv_def)
  then show ?thesis using assms(1) by (auto simp: simple_finish_def Let_def simple_inv_def N)
qed

end

sublocale simple_source \<subseteq> source: permit_source "simple_acquire get_limit" "simple_finish on_sample"
  admitted "\<lambda>f. env_ok (snd f)" "simple_inv inv hi" hi
  by unfold_locales
    (rule simple_acquire_some simple_acquire_none simple_finish_token simple_inv_size, assumption+)+

subsection \<open>State and steps\<close>

record ('l, 't) lifo =
  inner :: 'l
  backlog_size :: int
  backlog :: "nat list"                  \<comment> \<open>index 0 is the newest waiter\<close>
  missed :: "nat multiset"               \<comment> \<open>fast path refused, not yet in the backlog\<close>
  ready :: "(nat \<times> 't) multiset"         \<comment> \<open>\<open>removed\<close> with a listener, not yet returned\<close>
  holders :: "(nat \<times> 't) multiset"       \<comment> \<open>returned with a listener\<close>
  unblocking :: nat                      \<comment> \<open>calls of unblock under way\<close>
  lifo_rejected :: "nat multiset"
  lifo_finished :: "nat multiset"
  lifo_started :: "nat multiset"
  enqueued :: "nat list"                 \<comment> \<open>every waiter ever enqueued, the newest first\<close>

definition default_backlog_size :: int where "default_backlog_size = 100"

definition new_lifo :: "'l \<Rightarrow> int \<Rightarrow> ('l, 't) lifo" where
  "new_lifo d n =
     \<lparr>inner = d, backlog_size = (if n \<le> 0 then default_backlog_size else n), backlog = [],
      missed = {#}, ready = {#}, holders = {#}, unblocking = 0, lifo_rejected = {#},
      lifo_finished = {#}, lifo_started = {#}, enqueued = []\<rparr>"

text \<open>\<open>tryAcquire\<close>: the fast path, then the backlog under the mutex.\<close>

definition lifo_try ::
  "('a \<Rightarrow> 'l \<Rightarrow> 't option \<times> 'l) \<Rightarrow> 'a \<Rightarrow> nat \<Rightarrow> ('l, 't) lifo \<Rightarrow> ('l, 't) lifo option" where
  "lifo_try acquire a i b =
     (if i \<in># lifo_started b then None
      else let b' = b\<lparr>lifo_started := add_mset i (lifo_started b)\<rparr>
      in case acquire a (inner b) of
           (Some t, l) \<Rightarrow> Some (b'\<lparr>inner := l, holders := add_mset (i, t) (holders b)\<rparr>)
         | (None, l) \<Rightarrow> Some (b'\<lparr>inner := l, missed := add_mset i (missed b)\<rparr>))"

definition lifo_enqueue :: "nat \<Rightarrow> ('l, 't) lifo \<Rightarrow> ('l, 't) lifo option" where
  "lifo_enqueue i b =
     (if i \<notin># missed b then None
      else let b' = b\<lparr>missed := missed b - {#i#}\<rparr>
      in if backlog_size b \<le> int (length (backlog b))
         then Some (b'\<lparr>lifo_rejected := add_mset i (lifo_rejected b)\<rparr>)
         else Some (b'\<lparr>backlog := i # backlog b, enqueued := i # enqueued b\<rparr>))"

text \<open>
  A waiter that was given a listener returns it, whether \<open>ready\<close> or the timer woke it; a
  waiter whose timer fires before removes itself.
\<close>

definition lifo_return :: "nat \<times> 't \<Rightarrow> ('l, 't) lifo \<Rightarrow> ('l, 't) lifo option" where
  "lifo_return w b =
     (if w \<notin># ready b then None
      else Some (b\<lparr>ready := ready b - {#w#}, holders := add_mset w (holders b)\<rparr>))"

definition remove_waiter :: "nat \<Rightarrow> nat list \<Rightarrow> nat list" where
  "remove_waiter i ws = remove1 i ws"

definition lifo_timeout :: "nat \<Rightarrow> ('l, 't) lifo \<Rightarrow> ('l, 't) lifo option" where
  "lifo_timeout i b =
     (if i \<notin> set (backlog b) then None
      else Some (b\<lparr>backlog := remove_waiter i (backlog b), lifo_rejected := add_mset i (lifo_rejected b)\<rparr>))"

text \<open>The listener's callbacks: the inner one, then \<open>unblock\<close>; a repeated one unblocks again.\<close>

definition lifo_finish ::
  "('f \<Rightarrow> 't \<Rightarrow> outcome \<Rightarrow> 'l \<Rightarrow> 'l) \<Rightarrow> 'f \<Rightarrow> nat \<times> 't \<Rightarrow> outcome \<Rightarrow> ('l, 't) lifo \<Rightarrow> ('l, 't) lifo option" where
  "lifo_finish finish f w out b =
     (if w \<in># holders b
      then Some (b\<lparr>inner := finish f (snd w) out (inner b), holders := holders b - {#w#},
             lifo_finished := add_mset (fst w) (lifo_finished b), unblocking := unblocking b + 1\<rparr>)
      else if fst w \<in># lifo_finished b then Some (b\<lparr>unblocking := unblocking b + 1\<rparr>)
      else None)"

definition lifo_unblock ::
  "('a \<Rightarrow> 'l \<Rightarrow> 't option \<times> 'l) \<Rightarrow> 'a \<Rightarrow> ('l, 't) lifo \<Rightarrow> ('l, 't) lifo option" where
  "lifo_unblock acquire a b =
     (if unblocking b = 0 then None
      else let b' = b\<lparr>unblocking := unblocking b - 1\<rparr>
      in case backlog b of
           [] \<Rightarrow> Some b'
         | w # rest \<Rightarrow> (case acquire a (inner b) of
               (None, l) \<Rightarrow> Some (b'\<lparr>inner := l\<rparr>)
             | (Some t, l) \<Rightarrow> Some (b'\<lparr>inner := l, backlog := rest, ready := add_mset (w, t) (ready b)\<rparr>)))"

datatype ('a, 'f, 't) lifo_event =
    FTry 'a nat | FEnqueue nat | FReturn "nat \<times> 't" | FTimeout nat
  | FFinish 'f "nat \<times> 't" outcome | FUnblock 'a

fun lifo_exec ::
  "('a \<Rightarrow> 'l \<Rightarrow> 't option \<times> 'l) \<Rightarrow> ('f \<Rightarrow> 't \<Rightarrow> outcome \<Rightarrow> 'l \<Rightarrow> 'l) \<Rightarrow>
    ('a, 'f, 't) lifo_event \<Rightarrow> ('l, 't) lifo \<Rightarrow> ('l, 't) lifo option" where
  "lifo_exec acq fin (FTry a i) b = lifo_try acq a i b"
| "lifo_exec acq fin (FEnqueue i) b = lifo_enqueue i b"
| "lifo_exec acq fin (FReturn w) b = lifo_return w b"
| "lifo_exec acq fin (FTimeout i) b = lifo_timeout i b"
| "lifo_exec acq fin (FFinish f w out) b = lifo_finish fin f w out b"
| "lifo_exec acq fin (FUnblock a) b = lifo_unblock acq a b"

fun lifo_event_ok :: "('f \<Rightarrow> bool) \<Rightarrow> ('a, 'f, 't) lifo_event \<Rightarrow> bool" where
  "lifo_event_ok ok (FFinish f w out) \<longleftrightarrow> ok f"
| "lifo_event_ok ok _ \<longleftrightarrow> True"

inductive lifo_step ::
  "('a \<Rightarrow> 'l \<Rightarrow> 't option \<times> 'l) \<Rightarrow> ('f \<Rightarrow> 't \<Rightarrow> outcome \<Rightarrow> 'l \<Rightarrow> 'l) \<Rightarrow> ('f \<Rightarrow> bool) \<Rightarrow>
    ('l, 't) lifo \<Rightarrow> ('l, 't) lifo \<Rightarrow> bool" for acq fin ok where
  lifo_stepI: "lifo_event_ok ok ev \<Longrightarrow> lifo_exec acq fin ev b = Some c \<Longrightarrow> lifo_step acq fin ok b c"

inductive_cases lifo_stepE: "lifo_step acq fin ok b c"

lemmas lifo_defs = lifo_try_def lifo_enqueue_def lifo_return_def lifo_timeout_def lifo_finish_def
  lifo_unblock_def remove_waiter_def

subsection \<open>Invariants\<close>

text \<open>
  The backlog within its size and in the order of its enqueues, newest first; every request in
  one place; and every token of the delegate with exactly one owner.
\<close>

definition owners :: "('l, 't) lifo \<Rightarrow> (nat \<times> 't) multiset" where
  "owners b = ready b + holders b"

definition backlog_inv :: "('l, 't) lifo \<Rightarrow> bool" where
  "backlog_inv b \<longleftrightarrow> int (length (backlog b)) \<le> backlog_size b \<and> subseq (backlog b) (enqueued b)"

definition lifo_place_inv :: "('l, 't) lifo \<Rightarrow> bool" where
  "lifo_place_inv b \<longleftrightarrow> lifo_started b = missed b + mset (backlog b) + image_mset fst (owners b)
     + lifo_rejected b + lifo_finished b"

definition lifo_uniq_inv :: "('l, 't) lifo \<Rightarrow> bool" where
  "lifo_uniq_inv b \<longleftrightarrow> (\<forall>i. count (lifo_started b) i \<le> 1)"

definition token_inv :: "('l \<Rightarrow> bool) \<Rightarrow> ('l \<Rightarrow> 't multiset) \<Rightarrow> ('l, 't) lifo \<Rightarrow> bool" where
  "token_inv P tok b \<longleftrightarrow> P (inner b) \<and> tok (inner b) = image_mset snd (owners b)"

lemma remove1_subseq: "subseq (remove1 x xs) xs"
  by (induction xs) auto

lemma lifo_exec_backlog: "backlog_inv b \<Longrightarrow> lifo_exec acq fin ev b = Some c \<Longrightarrow> backlog_inv c"
proof (cases ev)
  case (FTimeout i)
  assume a: "backlog_inv b" "lifo_exec acq fin ev b = Some c"
  then have c: "c = b\<lparr>backlog := remove1 i (backlog b), lifo_rejected := add_mset i (lifo_rejected b)\<rparr>"
    using FTimeout by (auto simp: lifo_timeout_def remove_waiter_def split: if_split_asm)
  have "subseq (remove1 i (backlog b)) (backlog b)" by (rule remove1_subseq)
  then show ?thesis using a(1) unfolding c
    by (auto simp: backlog_inv_def length_remove1 intro: subseq_order.trans)
qed (auto simp: backlog_inv_def lifo_defs Let_def split: if_split_asm list.splits option.splits prod.splits
    dest: subseq_Cons')

lemma lifo_exec_place: "lifo_place_inv b \<Longrightarrow> lifo_exec acq fin ev b = Some c \<Longrightarrow> lifo_place_inv c"
proof (cases ev)
  case (FTry a i)
  assume "lifo_place_inv b" "lifo_exec acq fin ev b = Some c"
  with FTry show ?thesis
    by (auto simp: lifo_place_inv_def owners_def lifo_try_def Let_def ac_simps split: if_split_asm option.splits prod.splits)
next
  case (FEnqueue i)
  assume a: "lifo_place_inv b" "lifo_exec acq fin ev b = Some c"
  then have "i \<in># missed b" using FEnqueue by (auto simp: lifo_enqueue_def split: if_split_asm)
  then obtain N where "missed b = add_mset i N" by (auto dest: multi_member_split)
  with a FEnqueue show ?thesis
    by (auto simp: lifo_place_inv_def owners_def lifo_enqueue_def Let_def ac_simps split: if_split_asm)
next
  case (FReturn w)
  assume a: "lifo_place_inv b" "lifo_exec acq fin ev b = Some c"
  then have "w \<in># ready b" using FReturn by (auto simp: lifo_return_def split: if_split_asm)
  then obtain N where "ready b = add_mset w N" by (auto dest: multi_member_split)
  with a FReturn show ?thesis by (auto simp: lifo_place_inv_def owners_def lifo_return_def ac_simps)
next
  case (FTimeout i)
  assume a: "lifo_place_inv b" "lifo_exec acq fin ev b = Some c"
  then have "i \<in># mset (backlog b)" using FTimeout by (auto simp: lifo_timeout_def split: if_split_asm)
  then obtain N where "mset (backlog b) = add_mset i N" using multi_member_split by metis
  with a FTimeout show ?thesis
    by (auto simp: lifo_place_inv_def owners_def lifo_timeout_def remove_waiter_def ac_simps split: if_split_asm)
next
  case (FFinish f w out)
  assume a: "lifo_place_inv b" "lifo_exec acq fin ev b = Some c"
  show ?thesis
  proof (cases "w \<in># holders b")
    case True
    then obtain N where "holders b = add_mset w N" by (auto dest: multi_member_split)
    with a FFinish show ?thesis by (auto simp: lifo_place_inv_def owners_def lifo_finish_def ac_simps)
  next
    case False
    with a FFinish show ?thesis
      by (auto simp: lifo_place_inv_def owners_def lifo_finish_def split: if_split_asm)
  qed
next
  case (FUnblock a)
  assume "lifo_place_inv b" "lifo_exec acq fin ev b = Some c"
  with FUnblock show ?thesis
    by (auto simp: lifo_place_inv_def owners_def lifo_unblock_def Let_def ac_simps
        split: if_split_asm list.splits option.splits prod.splits)
qed

lemma lifo_exec_uniq: "lifo_uniq_inv b \<Longrightarrow> lifo_exec acq fin ev b = Some c \<Longrightarrow> lifo_uniq_inv c"
  by (cases ev) (auto simp: lifo_uniq_inv_def lifo_defs Let_def not_in_iff
      split: if_split_asm list.splits option.splits prod.splits)

lemma new_lifo_inv:
  "backlog_inv (new_lifo d n)" "lifo_place_inv (new_lifo d n)" "lifo_uniq_inv (new_lifo d n)"
  by (simp_all add: new_lifo_def backlog_inv_def lifo_place_inv_def lifo_uniq_inv_def owners_def
      default_backlog_size_def)

definition lifo_inv :: "('l \<Rightarrow> bool) \<Rightarrow> ('l \<Rightarrow> 't multiset) \<Rightarrow> ('l, 't) lifo \<Rightarrow> bool" where
  "lifo_inv P tok b \<longleftrightarrow> token_inv P tok b \<and> backlog_inv b \<and> lifo_place_inv b \<and> lifo_uniq_inv b"

context permit_source begin

lemma lifo_exec_tokens:
  assumes "token_inv source_inv tokens b" "lifo_event_ok finish_ok ev" "lifo_exec acquire finish ev b = Some c"
  shows "token_inv source_inv tokens c"
proof (cases ev)
  case (FTry a i)
  obtain r l where "acquire a (inner b) = (r, l)" by fastforce
  with FTry assms(1,3) acquire_some [of "inner b" a _ l] acquire_none [of "inner b" a l] show ?thesis
    by (cases r) (auto simp: token_inv_def owners_def lifo_try_def Let_def split: if_split_asm)
next
  case (FReturn w)
  then have "w \<in># ready b" using assms(3) by (auto simp: lifo_return_def split: if_split_asm)
  then obtain N where "ready b = add_mset w N" by (auto dest: multi_member_split)
  with FReturn assms(1,3) show ?thesis by (auto simp: token_inv_def owners_def lifo_return_def)
next
  case (FFinish f w out)
  show ?thesis
  proof (cases "w \<in># holders b")
    case True
    then obtain N where N: "holders b = add_mset w N" by (auto dest: multi_member_split)
    have "snd w \<in># tokens (inner b)" using assms(1) by (simp add: token_inv_def owners_def N)
    with finish_token [of "inner b" f "snd w" out] FFinish True assms show ?thesis
      by (auto simp: token_inv_def owners_def lifo_finish_def N)
  next
    case False
    with FFinish assms show ?thesis by (auto simp: token_inv_def owners_def lifo_finish_def split: if_split_asm)
  qed
next
  case (FUnblock a)
  obtain r l where "acquire a (inner b) = (r, l)" by fastforce
  with FUnblock assms(1,3) acquire_some [of "inner b" a _ l] acquire_none [of "inner b" a l] show ?thesis
    by (cases r) (auto simp: token_inv_def owners_def lifo_unblock_def Let_def split: if_split_asm list.splits)
qed (use assms in \<open>auto simp: token_inv_def owners_def lifo_enqueue_def lifo_timeout_def Let_def split: if_split_asm\<close>)

lemma lifo_step_inv:
  "lifo_inv source_inv tokens b \<Longrightarrow> lifo_step acquire finish finish_ok b c \<Longrightarrow> lifo_inv source_inv tokens c"
  by (auto simp: lifo_inv_def elim!: lifo_stepE
      intro: lifo_exec_tokens lifo_exec_backlog lifo_exec_place lifo_exec_uniq)

lemma lifo_reach_inv:
  assumes "reach (new_lifo d n) (lifo_step acquire finish finish_ok) b" "source_inv d" "tokens d = {#}"
  shows "lifo_inv source_inv tokens b"
  using assms
proof (induction rule: reach.induct)
  case reach_init
  then show ?case by (simp add: lifo_inv_def new_lifo_inv token_inv_def owners_def) (simp add: new_lifo_def)
next
  case (reach_step s t)
  then show ?case by (blast intro: lifo_step_inv)
qed

end

subsection \<open>Over the fail-fast limiter and a Vegas limit\<close>

interpretation lifo_vegas: simple_source "vegas_on_sample lg" vegas_limit "\<lambda>_. True" "vegas_inv 1000" 1 1000
  for lg
  by unfold_locales simp

fun run_lifo ::
  "('a \<Rightarrow> 'l \<Rightarrow> 't option \<times> 'l) \<Rightarrow> ('f \<Rightarrow> 't \<Rightarrow> outcome \<Rightarrow> 'l \<Rightarrow> 'l) \<Rightarrow>
    ('a, 'f, 't) lifo_event list \<Rightarrow> ('l, 't) lifo \<Rightarrow> ('l, 't) lifo option" where
  "run_lifo acq fin [] b = Some b"
| "run_lifo acq fin (ev # evs) b =
     (case lifo_exec acq fin ev b of None \<Rightarrow> None | Some c \<Rightarrow> run_lifo acq fin evs c)"

lemma run_lifo_reach:
  "run_lifo acq fin evs b = Some c \<Longrightarrow> list_all (lifo_event_ok ok) evs \<Longrightarrow> reach b (lifo_step acq fin ok) c"
proof (induction evs arbitrary: b)
  case (Cons ev evs)
  then obtain n where n: "lifo_exec acq fin ev b = Some n" "run_lifo acq fin evs n = Some c"
    by (auto split: option.splits)
  have "reach b (lifo_step acq fin ok) n"
    using n(1) Cons.prems(2) by (auto intro: reach.intros lifo_stepI)
  with Cons.IH [OF n(2)] Cons.prems(2) show ?case by (auto intro: reach_trans)
qed (simp add: reach.intros)

abbreviation lifo_vegas_step ::
  "(f64 \<Rightarrow> f64) \<Rightarrow> (vegas limiter, entry) lifo \<Rightarrow> (vegas limiter, entry) lifo \<Rightarrow> bool" where
  "lifo_vegas_step lg \<equiv> lifo_step (simple_acquire vegas_limit) (simple_finish (vegas_on_sample lg)) (\<lambda>_. True)"

abbreviation new_lifo_vegas :: "f64 \<Rightarrow> int \<Rightarrow> (vegas limiter, entry) lifo" where
  "new_lifo_vegas r0 k \<equiv> new_lifo (new_simple_limiter (new_vegas [] r0)) k"

lemma lifo_vegas_inv:
  assumes "reach (new_lifo_vegas r0 k) (lifo_vegas_step lg) b"
  shows "lifo_inv (simple_inv (vegas_inv 1000) 1000) admitted b"
proof -
  have "simple_inv (vegas_inv 1000) 1000 (new_simple_limiter (new_vegas [] r0))"
    using default_vegas_inv by (simp add: simple_inv_def new_simple_limiter_def)
  moreover have "admitted (new_simple_limiter (new_vegas [] r0)) = {#}" by (simp add: new_simple_limiter_def)
  ultimately show ?thesis
    using lifo_vegas.source.lifo_reach_inv [where b = b] assms by simp
qed

text \<open>
  C9. No permit leaks through the backlog: in every reachable state the listeners the inner
  limiter has out are exactly those of the requests that were handed one and have not
  finished, whether they got it at once or from the backlog; its in-flight count is their
  number and at most the maximum limit.
\<close>

theorem lifo_permits_exact:
  assumes "reach (new_lifo_vegas r0 k) (lifo_vegas_step lg) b"
  shows "admitted (inner b) = image_mset snd (ready b + holders b)
    \<and> limiter_inflight (inner b) = int (size (ready b + holders b))
    \<and> int (size (ready b + holders b)) \<le> 1000"
proof -
  have i: "token_inv (simple_inv (vegas_inv 1000) 1000) admitted b"
    using lifo_vegas_inv [OF assms] by (simp add: lifo_inv_def)
  then have a: "admitted (inner b) = image_mset snd (ready b + holders b)" "simple_inv (vegas_inv 1000) 1000 (inner b)"
    by (simp_all add: token_inv_def owners_def)
  from a(2) have "count_inflight (inner b) = int (size (admitted (inner b)))"
    "int (size (admitted (inner b))) \<le> 1000" by (simp_all add: simple_inv_def)
  with a(1) show ?thesis by (simp add: limiter_inflight_def)
qed

abbreviation demo_new_lifo :: "(vegas limiter, entry) lifo" where
  "demo_new_lifo \<equiv> new_lifo_vegas (Fin 0) 0"

lemmas lifo_demo = lifo_defs simple_acquire_def simple_finish_def new_lifo_def new_simple_limiter_def demo_entry_def
  new_vegas_def reset_probe_jitter_def vegas_limit_def trunc_rat_def is_i64_def default_backlog_size_def

theorem lifo_permits_exact_witness:
  "\<exists>b. run_lifo (simple_acquire vegas_limit) (simple_finish (vegas_on_sample lg_digits)) [FTry (5, 0) 7] demo_new_lifo = Some b
    \<and> holders b = {#(7, demo_entry 0 1)#} \<and> limiter_inflight (inner b) = 1"
proof -
  obtain b where b: "run_lifo (simple_acquire vegas_limit) (simple_finish (vegas_on_sample lg_digits))
      [FTry (5, 0) 7] demo_new_lifo = Some b" "holders b = {#(7, demo_entry 0 1)#}" "ready b = {#}"
    by (simp add: lifo_demo Let_def)
  have "reach demo_new_lifo (lifo_vegas_step lg_digits) b" using b(1) by (rule run_lifo_reach) simp
  from lifo_permits_exact [OF this] b show ?thesis by simp
qed

text \<open>
  C35. The backlog is bounded and last in, first out: it never holds more than its size (100
  when it was given as 0 or less), its waiters stand in the order in which they entered, the
  newest first, and a completion that frees a permit hands it to the newest waiter, leaving
  the others as they are.
\<close>

theorem lifo_newest_first:
  assumes "reach (new_lifo_vegas r0 k) (lifo_vegas_step lg) b"
    and "lifo_unblock (simple_acquire vegas_limit) a b = Some c"
  shows "length (backlog b) \<le> nat (if k \<le> 0 then 100 else k) \<and> subseq (backlog b) (enqueued b)
    \<and> (ready c = ready b \<and> backlog c = backlog b
       \<or> (\<exists>t. ready c = add_mset (hd (backlog b), t) (ready b) \<and> backlog c = tl (backlog b)))"
proof -
  have size: "backlog_size b = (if k \<le> 0 then 100 else k)" using assms(1)
  proof (induction rule: reach.induct)
    case (reach_step s t)
    from reach_step(2) obtain ev where "lifo_exec (simple_acquire vegas_limit) (simple_finish (vegas_on_sample lg)) ev s = Some t"
      by (rule lifo_stepE)
    then have "backlog_size t = backlog_size s"
      by (cases ev) (auto simp: lifo_defs Let_def split: if_split_asm option.splits prod.splits list.splits)
    with reach_step show ?case by simp
  qed (simp add: new_lifo_def default_backlog_size_def)
  have "backlog_inv b" using lifo_vegas_inv [OF assms(1)] by (simp add: lifo_inv_def)
  with size assms(2) show ?thesis
    by (auto simp: backlog_inv_def lifo_unblock_def Let_def split: if_split_asm option.splits prod.splits list.splits)
qed

theorem lifo_newest_first_witness:
  "\<exists>b c. run_lifo (simple_acquire vegas_limit) (simple_finish (vegas_on_sample lg_digits))
      [FTry (5, 0) 7, FTry (5, 99) 1, FEnqueue 1, FTry (5, 99) 2, FEnqueue 2,
       FFinish (6, Fin 0) (7, demo_entry 0 1) OnIgnore] demo_new_lifo = Some b
    \<and> lifo_unblock (simple_acquire vegas_limit) (6, 0) b = Some c
    \<and> backlog b = [2, 1] \<and> backlog c = [1] \<and> length (backlog b) \<le> 100"
proof -
  obtain b c where b: "run_lifo (simple_acquire vegas_limit) (simple_finish (vegas_on_sample lg_digits))
      [FTry (5, 0) 7, FTry (5, 99) 1, FEnqueue 1, FTry (5, 99) 2, FEnqueue 2,
       FFinish (6, Fin 0) (7, demo_entry 0 1) OnIgnore] demo_new_lifo = Some b"
    and c: "lifo_unblock (simple_acquire vegas_limit) (6, 0) b = Some c" "backlog b = [2, 1]" "backlog c = [1]"
    by (simp add: lifo_demo Let_def)
  have "reach demo_new_lifo (lifo_vegas_step lg_digits) b" using b by (rule run_lifo_reach) simp
  from lifo_newest_first [OF this c(1)] b c show ?thesis by simp
qed

text \<open>The limiter's own middleware is the one of every limiter, over its \<open>Acquire\<close>.\<close>

definition lifo_handler :: "'t option \<Rightarrow> 'p handler_run \<Rightarrow> http_call list \<times> 'p option \<times> outcome option" where
  "lifo_handler listener h = cl_handler listener h"

abbreviation fixed_lifo_run where
  "fixed_lifo_run \<equiv> run_lifo (simple_acquire fixed_limit) (simple_finish (fixed_on_sample :: unit \<Rightarrow> sample \<Rightarrow> int \<Rightarrow> int))"

text \<open>
  A wakeup can be lost: with limit 1, request 1 is refused while request 0 holds the
  permit; request 0 finishes and finds the backlog empty; then request 1 enters the backlog.
  Now no permit is out and no completion is under way, and the only step there is that takes
  request 1 out of the backlog is its timeout, unless another request comes and goes first.
\<close>

theorem lifo_lost_wakeup:
  "\<exists>b. fixed_lifo_run
      [FTry (5, 0) 0, FTry (5, 0) 1, FFinish (6, ()) (0, demo_entry 0 1) OnSuccess, FUnblock (6, 0), FEnqueue 1]
      (new_lifo (new_simple_limiter 1) 0) = Some b
    \<and> backlog b = [1] \<and> current_limit fixed_limit (inner b) = 1 \<and> limiter_inflight (inner b) = 0
    \<and> unblocking b = 0
    \<and> {ev. \<exists>c. lifo_exec (simple_acquire fixed_limit) (simple_finish (fixed_on_sample :: unit \<Rightarrow> sample \<Rightarrow> int \<Rightarrow> int)) ev b
            = Some c \<and> 1 \<notin> set (backlog c)} = {FTimeout 1}"
proof -
  obtain b where b: "fixed_lifo_run
      [FTry (5, 0) 0, FTry (5, 0) 1, FFinish (6, ()) (0, demo_entry 0 1) OnSuccess, FUnblock (6, 0), FEnqueue 1]
      (new_lifo (new_simple_limiter 1) 0) = Some b" "backlog b = [1]" "limit_alg (inner b) = 1"
    "count_inflight (inner b) = 0" "unblocking b = 0"
    by (simp add: lifo_defs simple_acquire_def simple_finish_def new_lifo_def new_simple_limiter_def demo_entry_def
        fixed_limit_def fixed_on_sample_def Let_def default_backlog_size_def)
  have "(\<exists>c. lifo_exec (simple_acquire fixed_limit) (simple_finish (fixed_on_sample :: unit \<Rightarrow> sample \<Rightarrow> int \<Rightarrow> int)) ev b
      = Some c \<and> 1 \<notin> set (backlog c)) \<longleftrightarrow> ev = FTimeout 1" for ev
    using b(2,5) by (cases ev) (auto simp: lifo_defs Let_def split: if_split_asm option.splits prod.splits)
  with b show ?thesis by (auto simp: current_limit_def fixed_limit_def limiter_inflight_def)
qed

subsection \<open>Every caller returns\<close>

text \<open>
  The limiter's own steps: everything but a new call of \<open>Acquire\<close> and a listener's callback.
  A caller on its way takes at most three, a waiter two.
\<close>

fun lifo_own :: "('a, 'f, 't) lifo_event \<Rightarrow> bool" where
  "lifo_own (FTry a i) = False"
| "lifo_own (FFinish f w out) = False"
| "lifo_own _ = True"

definition lifo_work :: "('l, 't) lifo \<Rightarrow> nat" where
  "lifo_work b = 3 * size (missed b) + 2 * length (backlog b) + size (ready b) + unblocking b"

lemma lifo_work_decreases:
  assumes "lifo_own ev" "lifo_exec acq fin ev b = Some c"
  shows "lifo_work c < lifo_work b"
proof (cases ev)
  case (FEnqueue i)
  then have e: "lifo_enqueue i b = Some c" using assms(2) by simp
  then have "i \<in># missed b" by (auto simp: lifo_enqueue_def split: if_split_asm)
  then obtain N where "missed b = add_mset i N" by (auto dest: multi_member_split)
  with e show ?thesis by (auto simp: lifo_enqueue_def lifo_work_def Let_def split: if_split_asm)
next
  case (FReturn w)
  then have e: "lifo_return w b = Some c" using assms(2) by simp
  then have "w \<in># ready b" by (auto simp: lifo_return_def split: if_split_asm)
  then obtain N where "ready b = add_mset w N" by (auto dest: multi_member_split)
  with e show ?thesis by (auto simp: lifo_return_def lifo_work_def)
next
  case (FTimeout i)
  then have e: "i \<in> set (backlog b)" "c = b\<lparr>backlog := remove1 i (backlog b), lifo_rejected := add_mset i (lifo_rejected b)\<rparr>"
    using assms(2) by (auto simp: lifo_timeout_def remove_waiter_def split: if_split_asm)
  moreover from this have "0 < length (backlog b)" by auto
  ultimately show ?thesis by (simp add: lifo_work_def length_remove1)
next
  case (FUnblock a)
  then show ?thesis using assms(2)
    by (auto simp: lifo_unblock_def lifo_work_def Let_def split: if_split_asm list.splits option.splits prod.splits)
qed (use assms(1) in simp_all)

interpretation lifo_drain: draining "lifo_exec acq fin" lifo_own lifo_place_inv
    "\<lambda>b. missed b \<noteq> {#} \<or> backlog b \<noteq> [] \<or> ready b \<noteq> {#}" lifo_work
  for acq :: "'a \<Rightarrow> 'l \<Rightarrow> 't option \<times> 'l" and fin :: "'f \<Rightarrow> 't \<Rightarrow> outcome \<Rightarrow> 'l \<Rightarrow> 'l"
proof
  fix b :: "('l, 't) lifo" and ev c
  show "lifo_own ev \<Longrightarrow> lifo_exec acq fin ev b = Some c \<Longrightarrow> lifo_work c < lifo_work b" by (rule lifo_work_decreases)
  show "lifo_place_inv b \<Longrightarrow> lifo_exec acq fin ev b = Some c \<Longrightarrow> lifo_place_inv c" by (rule lifo_exec_place)
  assume "missed b \<noteq> {#} \<or> backlog b \<noteq> [] \<or> ready b \<noteq> {#}"
  then consider i where "i \<in># missed b" | i where "i \<in> set (backlog b)" | w where "w \<in># ready b"
    by (metis multiset_nonemptyE last_in_set)
  then show "\<exists>ev c. lifo_own ev \<and> lifo_exec acq fin ev b = Some c"
  proof cases
    case (1 i)
    then show ?thesis by (intro exI [of _ "FEnqueue i"]) (simp add: lifo_enqueue_def Let_def)
  next
    case (2 i)
    then show ?thesis by (intro exI [of _ "FTimeout i"]) (simp add: lifo_timeout_def)
  next
    case (3 w)
    then show ?thesis by (intro exI [of _ "FReturn w"]) (simp add: lifo_return_def)
  qed
qed

lemma run_lifo_runs_to: "run_lifo acq fin evs b = runs_to (lifo_exec acq fin) evs b"
  by (induction evs arbitrary: b) (auto split: option.split)

text \<open>
  C13. No caller blocks for ever: from every reachable state the limiter's own steps run out,
  each leaving less work, and as long as a caller has no answer one of them is possible; when
  they have run out nobody waits, and every request that ever called \<open>Acquire\<close> holds a
  listener, has finished, or was rejected.
\<close>

theorem lifo_callers_return:
  assumes "reach (new_lifo_vegas r0 k) (lifo_vegas_step lg) b"
  shows "(\<forall>ev c. lifo_own ev \<and> lifo_exec (simple_acquire vegas_limit) (simple_finish (vegas_on_sample lg)) ev b = Some c
        \<longrightarrow> lifo_work c < lifo_work b)
    \<and> (\<exists>evs c. list_all lifo_own evs \<and> length evs \<le> lifo_work b
        \<and> run_lifo (simple_acquire vegas_limit) (simple_finish (vegas_on_sample lg)) evs b = Some c
        \<and> backlog c = [] \<and> lifo_started c = image_mset fst (holders c) + lifo_finished c + lifo_rejected c)"
proof (intro conjI allI impI)
  fix ev c
  assume "lifo_own ev \<and> lifo_exec (simple_acquire vegas_limit) (simple_finish (vegas_on_sample lg)) ev b = Some c"
  then show "lifo_work c < lifo_work b" using lifo_work_decreases by blast
next
  have "lifo_place_inv b" using lifo_vegas_inv [OF assms] by (simp add: lifo_inv_def)
  then obtain evs c where c: "list_all lifo_own evs" "length evs \<le> lifo_work b"
    "runs_to (lifo_exec (simple_acquire vegas_limit) (simple_finish (vegas_on_sample lg))) evs b = Some c"
    "lifo_place_inv c" "missed c = {#}" "backlog c = []" "ready c = {#}"
    using lifo_drain.runs_dry by blast
  moreover from this have "lifo_started c = image_mset fst (holders c) + lifo_finished c + lifo_rejected c"
    by (simp add: lifo_place_inv_def owners_def ac_simps)
  ultimately show "\<exists>evs c. list_all lifo_own evs \<and> length evs \<le> lifo_work b
        \<and> run_lifo (simple_acquire vegas_limit) (simple_finish (vegas_on_sample lg)) evs b = Some c
        \<and> backlog c = [] \<and> lifo_started c = image_mset fst (holders c) + lifo_finished c + lifo_rejected c"
    unfolding run_lifo_runs_to by (intro exI [of _ evs] exI [of _ c] conjI)
qed

theorem lifo_callers_return_witness:
  "\<exists>b evs c. run_lifo (simple_acquire vegas_limit) (simple_finish (vegas_on_sample lg_digits))
      [FTry (5, 0) 7, FTry (5, 99) 1, FEnqueue 1] demo_new_lifo = Some b \<and> backlog b = [1]
    \<and> run_lifo (simple_acquire vegas_limit) (simple_finish (vegas_on_sample lg_digits)) evs b = Some c
    \<and> backlog c = []"
proof -
  obtain b where b: "run_lifo (simple_acquire vegas_limit) (simple_finish (vegas_on_sample lg_digits))
      [FTry (5, 0) 7, FTry (5, 99) 1, FEnqueue 1] demo_new_lifo = Some b" "backlog b = [1]"
    by (simp add: lifo_demo Let_def)
  have "reach demo_new_lifo (lifo_vegas_step lg_digits) b" using b(1) by (rule run_lifo_reach) simp
  from lifo_callers_return [OF this] b show ?thesis by blast
qed

end
