(* ===== verification/GoText.thy ===== *)
theory GoText
  imports Prelude "HOL-Library.Word"
begin

text \<open>
  The text the CPU sampler reads (the helpers of queue/cpu_linux.go and what they use of Go's
  \<open>strings\<close>, \<open>strconv\<close>, \<open>bufio\<close> and \<open>path\<close>): fields, splits, lines,
  decimal numbers, lists of ranges and cleaned paths. A string is its list of bytes; only the
  ASCII white space of \<open>unicode.IsSpace\<close> is modelled, since the kernel's files are ASCII.
\<close>

subsection \<open>White space, fields and splits\<close>

definition is_space :: "char \<Rightarrow> bool" where
  "is_space c \<longleftrightarrow> c \<in> set [CHR '' '', CHR 0x09, CHR 0x0A, CHR 0x0B, CHR 0x0C, CHR 0x0D]"

definition trim_space :: "string \<Rightarrow> string" where
  "trim_space s = rev (dropWhile is_space (rev (dropWhile is_space s)))"

text \<open>\<open>strings.Fields\<close>, with the field being read (reversed) as an accumulator.\<close>

fun fields_from :: "string \<Rightarrow> string \<Rightarrow> string list" where
  "fields_from cur [] = (if cur = [] then [] else [rev cur])"
| "fields_from cur (c # s) =
     (if is_space c then (if cur = [] then fields_from [] s else rev cur # fields_from [] s)
      else fields_from (c # cur) s)"

definition str_fields :: "string \<Rightarrow> string list" where
  "str_fields s = fields_from [] s"

text \<open>\<open>strings.Split\<close> at a one-byte separator, and \<open>strings.SplitN\<close> into two.\<close>

fun split_on :: "char \<Rightarrow> string \<Rightarrow> string list" where
  "split_on d [] = [[]]"
| "split_on d (c # s) =
     (if c = d then [] # split_on d s
      else case split_on d s of [] \<Rightarrow> [[c]] | w # ws \<Rightarrow> (c # w) # ws)"

fun join_with :: "char \<Rightarrow> string list \<Rightarrow> string" where
  "join_with d [] = []"
| "join_with d [w] = w"
| "join_with d (w # ws) = w @ d # join_with d ws"

definition split_once :: "char \<Rightarrow> string \<Rightarrow> string \<times> string" where
  "split_once d s = (takeWhile (\<lambda>c. c \<noteq> d) s, tl (dropWhile (\<lambda>c. c \<noteq> d) s))"

lemma split_on_ne [simp]: "split_on d s \<noteq> []"
  by (cases s) (auto split: list.splits)

lemma split_on_word: "d \<notin> set w \<Longrightarrow> split_on d w = [w]"
  by (induction w) auto

lemma split_on_cons: "d \<notin> set w \<Longrightarrow> split_on d (w @ d # s) = w # split_on d s"
  by (induction w) auto

lemma split_on_join:
  "ws \<noteq> [] \<Longrightarrow> \<forall>w \<in> set ws. d \<notin> set w \<Longrightarrow> split_on d (join_with d ws) = ws"
  by (induction d ws rule: join_with.induct) (auto simp: split_on_word split_on_cons)

lemma join_split: "join_with d (split_on d s) = s"
proof (induction s)
  case (Cons c s)
  obtain w ws where w: "split_on d s = w # ws" using split_on_ne [of d s] by (cases "split_on d s") auto
  with Cons show ?case by (cases ws) auto
qed simp

lemma split_once_cons:
  assumes "d \<notin> set w"
  shows "split_once d (w @ d # s) = (w, s)"
proof -
  have "\<forall>c \<in> set w. c \<noteq> d" using assms by auto
  then show ?thesis by (simp add: split_once_def takeWhile_append2 dropWhile_append2)
qed

text \<open>A field is not empty and holds no white space; a text with a non-space byte has one.\<close>

definition is_field :: "string \<Rightarrow> bool" where
  "is_field w \<longleftrightarrow> w \<noteq> [] \<and> list_all (\<lambda>c. \<not> is_space c) w"

lemma fields_from_parts:
  "list_all (\<lambda>c. \<not> is_space c) cur \<Longrightarrow> list_all is_field (fields_from cur s)"
proof (induction s arbitrary: cur)
  case (Cons c s)
  then show ?case by (simp add: is_field_def)
qed (simp add: is_field_def)

lemma str_fields_parts: "list_all is_field (str_fields s)"
  by (simp add: str_fields_def fields_from_parts)

lemma fields_from_nonempty: "(\<exists>c \<in> set s. \<not> is_space c) \<or> cur \<noteq> [] \<Longrightarrow> fields_from cur s \<noteq> []"
  by (induction cur s rule: fields_from.induct) auto

lemma trim_space_nonempty: "trim_space s \<noteq> [] \<Longrightarrow> \<exists>c \<in> set (trim_space s). \<not> is_space c"
proof -
  assume ne: "trim_space s \<noteq> []"
  have "\<exists>c \<in> set s. \<not> is_space c"
    using ne by (auto simp: trim_space_def dropWhile_eq_Nil_conv dest: set_dropWhileD)
  then have "dropWhile is_space s \<noteq> []" by (simp add: dropWhile_eq_Nil_conv)
  then have "\<not> is_space (hd (dropWhile is_space s))" by (rule hd_dropWhile)
  moreover have "hd (dropWhile is_space s) \<in> set (dropWhile is_space s)"
    using \<open>dropWhile is_space s \<noteq> []\<close> by simp
  ultimately show ?thesis
    unfolding trim_space_def set_rev
    by (metis hd_dropWhile hd_in_set list.set_sel(1) ne rev_is_Nil_conv set_rev trim_space_def)
qed

lemma fields_trim_nonempty: "trim_space s \<noteq> [] \<Longrightarrow> str_fields (trim_space s) \<noteq> []"
  unfolding str_fields_def using trim_space_nonempty by (intro fields_from_nonempty) blast

subsection \<open>Lines\<close>

text \<open>
  \<open>bufio.ScanLines\<close>: the bytes up to each newline, one carriage return at the end
  dropped, and the last line when the text does not end in a newline.
\<close>

definition drop_cr :: "string \<Rightarrow> string" where
  "drop_cr l = (if l \<noteq> [] \<and> last l = CHR 0x0D then butlast l else l)"

definition raw_lines :: "string \<Rightarrow> string list" where
  "raw_lines s = (let ls = split_on (CHR 0x0A) s in if last ls = [] then butlast ls else ls)"

text \<open>A \<open>Scanner\<close> stops with an error at the first line that does not fit its 64 KiB buffer.\<close>

definition max_scan_line :: nat where "max_scan_line = 65536"

definition scan_lines :: "string \<Rightarrow> string list option" where
  "scan_lines s = (if \<exists>l \<in> set (raw_lines s). max_scan_line \<le> length l then None
     else Some (List.map drop_cr (raw_lines s)))"

subsection \<open>Paths\<close>

text \<open>
  \<open>path.Clean\<close> element by element, the elements kept so far as a stack: empty ones and
  \<open>.\<close> go, \<open>..\<close> takes away the one before it, at the root it goes.
\<close>

definition clean_step :: "bool \<Rightarrow> string \<Rightarrow> string list \<Rightarrow> string list" where
  "clean_step rooted e st =
     (if e = [] \<or> e = ''.'' then st
      else if e = ''..'' then (case st of
          [] \<Rightarrow> if rooted then [] else [''..'']
        | x # xs \<Rightarrow> if x = ''..'' then ''..'' # st else xs)
      else e # st)"

definition path_clean :: "string \<Rightarrow> string" where
  "path_clean s =
     (if s = [] then ''.''
      else let rooted = (hd s = CHR ''/'');
               es = rev (fold (clean_step rooted) (split_on CHR ''/'' s) [])
           in if rooted then CHR ''/'' # join_with CHR ''/'' es
              else if es = [] then ''.'' else join_with CHR ''/'' es)"

definition path_join :: "string list \<Rightarrow> string" where
  "path_join ps = (let qs = filter (\<lambda>p. p \<noteq> []) ps in if qs = [] then [] else path_clean (join_with CHR ''/'' qs))"

subsection \<open>Decimal numbers\<close>

abbreviation u64_max :: int where "u64_max \<equiv> 18446744073709551615"

definition digit_val :: "char \<Rightarrow> int option" where
  "digit_val c = (let n = (of_char c :: int) in if 48 \<le> n \<and> n \<le> 57 then Some (n - 48) else None)"

definition digit_char :: "nat \<Rightarrow> char" where
  "digit_char d = char_of (48 + d)"

text \<open>\<open>fmt\<close>'s \<open>%d\<close> of a number that is not negative.\<close>

fun show_nat :: "nat \<Rightarrow> string" where
  "show_nat n = (if n < 10 then [digit_char n] else show_nat (n div 10) @ [digit_char (n mod 10)])"

declare show_nat.simps [simp del]

datatype num_error = ErrSyntax | ErrRange

text \<open>
  \<open>strconv.ParseUint\<close> reads digit by digit and gives up at the first byte that is not a
  digit or at the digit that leaves the 64 bits, whichever comes first.
\<close>

fun parse_digits :: "int \<Rightarrow> string \<Rightarrow> num_error + int" where
  "parse_digits n [] = Inr n"
| "parse_digits n (c # s) =
     (case digit_val c of
        None \<Rightarrow> Inl ErrSyntax
      | Some d \<Rightarrow> if u64_max < n * 10 + d then Inl ErrRange else parse_digits (n * 10 + d) s)"

definition strconv_parse_uint :: "string \<Rightarrow> num_error + int" where
  "strconv_parse_uint s = (if s = [] then Inl ErrSyntax else parse_digits 0 s)"

definition strconv_parse_int :: "string \<Rightarrow> num_error + int" where
  "strconv_parse_int s =
     (if s = [] then Inl ErrSyntax
      else let neg = (hd s = CHR ''-'');
               digits = (if hd s = CHR ''+'' \<or> neg then tl s else s)
           in case strconv_parse_uint digits of
                Inl e \<Rightarrow> Inl e
              | Inr un \<Rightarrow>
                  if \<not> neg \<and> i64_max < un then Inl ErrRange
                  else if neg \<and> i64_max + 1 < un then Inl ErrRange
                  else Inr (if neg then - un else un))"

lemma digit_val_char [simp]: "d < 10 \<Longrightarrow> digit_val (digit_char d) = Some (int d)"
proof -
  assume "d < 10"
  then have "(of_char (digit_char d) :: nat) = 48 + d" by (simp add: digit_char_def)
  moreover have "(of_char (digit_char d) :: int) = int (of_char (digit_char d))" by (simp only: of_nat_of_char)
  ultimately show ?thesis using \<open>d < 10\<close> by (simp add: digit_val_def)
qed

lemma digit_char_ne: "d < 10 \<Longrightarrow> digit_val c = None \<Longrightarrow> digit_char d \<noteq> c"
  by (auto dest: digit_val_char)

lemma show_nat_ne [simp]: "show_nat n \<noteq> []"
  by (subst show_nat.simps) simp

lemma show_nat_digits: "c \<in> set (show_nat n) \<Longrightarrow> \<exists>d < 10. c = digit_char d"
proof (induction n rule: show_nat.induct)
  case (1 n)
  from 1(2) show ?case
    by (subst (asm) show_nat.simps) (auto split: if_splits intro: 1(1) exI [of _ n] exI [of _ "n mod 10"])
qed

lemma parse_digits_append:
  "parse_digits n (s @ t) = (case parse_digits n s of Inl e \<Rightarrow> Inl e | Inr m \<Rightarrow> parse_digits m t)"
  by (induction n s rule: parse_digits.induct) (auto split: option.splits)

lemma parse_digits_show: "int n \<le> u64_max \<Longrightarrow> parse_digits 0 (show_nat n) = Inr (int n)"
proof (induction n rule: show_nat.induct)
  case (1 n)
  show ?case
  proof (cases "n < 10")
    case True
    then show ?thesis using 1(2) by (subst show_nat.simps) simp
  next
    case False
    have "int n = int (n div 10 * 10 + n mod 10)" by (simp only: div_mult_mod_eq)
    also have "\<dots> = int (n div 10) * 10 + int (n mod 10)" by (simp only: of_nat_add of_nat_mult of_nat_numeral)
    finally have eq: "int n = int (n div 10) * 10 + int (n mod 10)" .
    then have le: "int (n div 10) * 10 + int (n mod 10) \<le> u64_max" "int (n div 10) \<le> u64_max"
      using 1(2) by linarith+
    show ?thesis unfolding eq using False 1(1) [OF False le(2)] le(1)
      by (subst show_nat.simps) (simp add: parse_digits_append)
  qed
qed

lemma parse_digits_bounds: "parse_digits n s = Inr m \<Longrightarrow> 0 \<le> n \<Longrightarrow> n \<le> u64_max \<Longrightarrow> n \<le> m \<and> m \<le> u64_max"
proof (induction n s rule: parse_digits.induct)
  case (2 n c s)
  from 2(2) obtain d where d: "digit_val c = Some d" "n * 10 + d \<le> u64_max" "parse_digits (n * 10 + d) s = Inr m"
    by (auto split: option.splits if_splits)
  then have "0 \<le> d" by (auto simp: digit_val_def Let_def split: if_splits)
  with 2(1) [OF d(1) _ d(3)] d(2) 2(3) show ?case by simp
qed simp

lemma strconv_parse_uint_show: "int n \<le> u64_max \<Longrightarrow> strconv_parse_uint (show_nat n) = Inr (int n)"
  by (simp add: strconv_parse_uint_def parse_digits_show)

lemma hd_show_nat: "hd (show_nat n) \<noteq> CHR ''-''" "hd (show_nat n) \<noteq> CHR ''+''"
proof -
  have "hd (show_nat n) \<in> set (show_nat n)" by simp
  from show_nat_digits [OF this] obtain d where "d < 10" "hd (show_nat n) = digit_char d" by blast
  moreover have "digit_val CHR ''-'' = None" "digit_val CHR ''+'' = None" by (simp_all add: digit_val_def)
  ultimately show "hd (show_nat n) \<noteq> CHR ''-''" "hd (show_nat n) \<noteq> CHR ''+''"
    by (metis digit_char_ne)+
qed

lemma strconv_parse_int_show: "int n \<le> i64_max \<Longrightarrow> strconv_parse_int (show_nat n) = Inr (int n)"
  using hd_show_nat [of n] by (simp add: strconv_parse_int_def strconv_parse_uint_show Let_def)

lemma strconv_parse_int_bounds: "strconv_parse_int s = Inr m \<Longrightarrow> is_i64 m"
  using parse_digits_bounds [of 0 "tl s"] parse_digits_bounds [of 0 s]
  by (auto simp: strconv_parse_int_def strconv_parse_uint_def is_i64_def Let_def split: if_splits sum.splits)

subsection \<open>Reading back what is printed\<close>

lemma fields_from_word:
  "list_all (\<lambda>c. \<not> is_space c) w \<Longrightarrow> fields_from cur (w @ s) = fields_from (rev w @ cur) s"
  by (induction w arbitrary: cur) simp_all

lemma str_fields_cons: "is_field w \<Longrightarrow> is_space d \<Longrightarrow> str_fields (w @ d # s) = w # str_fields s"
  by (simp add: str_fields_def is_field_def fields_from_word)

lemma str_fields_word: "is_field w \<Longrightarrow> str_fields w = [w]"
  using fields_from_word [of w "[]" "[]"] by (simp add: str_fields_def is_field_def)

lemma str_fields_join: "list_all is_field ws \<Longrightarrow> is_space d \<Longrightarrow> str_fields (join_with d ws) = ws"
proof (induction d ws rule: join_with.induct)
  case (1 d)
  then show ?case by (simp add: str_fields_def)
qed (simp_all add: str_fields_word str_fields_cons)

lemma trim_space_id: "s \<noteq> [] \<Longrightarrow> \<not> is_space (hd s) \<Longrightarrow> \<not> is_space (last s) \<Longrightarrow> trim_space s = s"
proof -
  assume a: "s \<noteq> []" "\<not> is_space (hd s)" "\<not> is_space (last s)"
  then have "dropWhile is_space s = s" by (cases s) simp_all
  moreover have "dropWhile is_space (rev s) = rev s" using a(1,3) by (cases s rule: rev_cases) simp_all
  ultimately show ?thesis by (simp add: trim_space_def)
qed

lemma is_field_ends: "is_field w \<Longrightarrow> w \<noteq> [] \<and> \<not> is_space (hd w) \<and> \<not> is_space (last w)"
  by (simp add: is_field_def list_all_iff)

lemma join_with_ends:
  "ws \<noteq> [] \<Longrightarrow> [] \<notin> set ws \<Longrightarrow>
     join_with d ws \<noteq> [] \<and> hd (join_with d ws) = hd (hd ws) \<and> last (join_with d ws) = last (last ws)"
  by (induction d ws rule: join_with.induct) auto

lemma is_field_ne: "list_all is_field ws \<Longrightarrow> [] \<notin> set ws"
  by (auto simp: list_all_iff is_field_def)

lemma trim_fields: "list_all is_field ws \<Longrightarrow> ws \<noteq> [] \<Longrightarrow> trim_space (join_with d ws) = join_with d ws"
proof -
  assume a: "list_all is_field ws" "ws \<noteq> []"
  then have "is_field (hd ws)" "is_field (last ws)" by (simp_all add: list_all_iff)
  with a show ?thesis
    using join_with_ends [OF a(2) is_field_ne [OF a(1)], of d] is_field_ends by (intro trim_space_id) auto
qed

lemma set_join: "set (join_with d ws) \<subseteq> insert d (\<Union> (set ` set ws))"
  by (induction d ws rule: join_with.induct) auto

lemma length_join: "length (join_with d ws) \<le> sum_list (List.map (\<lambda>w. length w + 1) ws)"
  by (induction d ws rule: join_with.induct) auto

text \<open>The lines of a text printed line by line, each line its fields with a blank between.\<close>

definition print_line :: "string list \<Rightarrow> string" where
  "print_line ws = join_with CHR '' '' ws"

definition print_lines :: "string list list \<Rightarrow> string" where
  "print_lines wss = concat (List.map (\<lambda>ws. print_line ws @ [CHR 0x0A]) wss)"

definition line_ok :: "string list \<Rightarrow> bool" where
  "line_ok ws \<longleftrightarrow> ws \<noteq> [] \<and> list_all is_field ws \<and> length (print_line ws) < max_scan_line"

lemma line_no_space:
  assumes "list_all is_field ws" "is_space c" "c \<noteq> CHR '' ''"
  shows "c \<notin> set (print_line ws)"
proof
  assume "c \<in> set (print_line ws)"
  then have "\<exists>w \<in> set ws. c \<in> set w" using set_join [of "CHR '' ''" ws] assms(3) by (auto simp: print_line_def)
  with assms(1,2) show False by (auto simp: list_all_iff is_field_def)
qed

lemma split_lines: "list_all line_ok wss \<Longrightarrow> split_on (CHR 0x0A) (print_lines wss) = List.map print_line wss @ [[]]"
proof (induction wss)
  case (Cons ws wss)
  have "CHR 0x0A \<notin> set (print_line ws)"
    using Cons.prems by (intro line_no_space) (simp_all add: line_ok_def is_space_def)
  from split_on_cons [OF this] Cons show ?case by (simp add: print_lines_def)
qed (simp add: print_lines_def)

lemma scan_print_lines: "list_all line_ok wss \<Longrightarrow> scan_lines (print_lines wss) = Some (List.map print_line wss)"
proof -
  assume ok: "list_all line_ok wss"
  then have r: "raw_lines (print_lines wss) = List.map print_line wss"
    by (simp add: raw_lines_def split_lines)
  have "drop_cr (print_line ws) = print_line ws" if "ws \<in> set wss" for ws
  proof -
    have "line_ok ws" using ok that by (simp add: list_all_iff)
    then have "CHR 0x0D \<notin> set (print_line ws)" by (intro line_no_space) (simp_all add: line_ok_def is_space_def)
    then show ?thesis by (auto simp: drop_cr_def dest: last_in_set)
  qed
  moreover have "\<forall>l \<in> set (List.map print_line wss). \<not> max_scan_line \<le> length l"
    using ok by (simp add: list_all_iff line_ok_def not_le)
  ultimately show ?thesis by (simp add: scan_lines_def r)
qed

lemma trim_print_line: "line_ok ws \<Longrightarrow> trim_space (print_line ws) = print_line ws"
  by (simp add: print_line_def line_ok_def trim_fields)

lemma print_line_ne: "line_ok ws \<Longrightarrow> print_line ws \<noteq> []"
  using join_with_ends [of ws "CHR '' ''"] is_field_ne [of ws] by (simp add: print_line_def line_ok_def)

lemma fields_print_line: "line_ok ws \<Longrightarrow> str_fields (print_line ws) = ws"
  by (simp add: print_line_def line_ok_def str_fields_join is_space_def)

lemma show_nat_field: "is_field (show_nat n)"
proof -
  have "\<not> is_space (digit_char d)" if "d < 10" for d
    using digit_val_char [OF that] by (auto simp: is_space_def digit_val_def)
  then show ?thesis by (auto simp: is_field_def list_all_iff dest!: show_nat_digits)
qed

lemma show_nat_length: "n < 10 ^ k \<Longrightarrow> 0 < k \<Longrightarrow> length (show_nat n) \<le> k"
proof (induction n arbitrary: k rule: show_nat.induct)
  case (1 n)
  show ?case
  proof (cases "n < 10")
    case True
    then show ?thesis using 1(3) by (subst show_nat.simps) simp
  next
    case False
    then obtain j where j: "k = Suc j" "0 < j" using 1(2,3) by (cases k; cases "k - 1") auto
    have "n div 10 < 10 ^ j" using 1(2) j by (simp add: div_less_iff_less_mult mult.commute)
    from 1(1) [OF False this j(2)] False j(1) show ?thesis by (subst show_nat.simps) simp
  qed
qed

end
