(* ===== verification/CpuText.thy ===== *)
theory CpuText
  imports GoText "HOL-Library.Monad_Syntax"
begin

text \<open>
  The parsers of queue/cpu_linux.go: \<open>parseUint\<close>, which reads a number out of range as
  0, and \<open>parseUints\<close>, which reads a kernel CPU list such as \<open>0-3,8\<close>. A value of
  \<open>uint64\<close> is a 64-bit word. The range loop counts up to its bound in \<open>uint64\<close>,
  which never ends when the bound is the last one, so it is a partial function whose value
  \<open>None\<close> is not to return.
\<close>

datatype cpu_error =
    ErrRead | ErrLongLine | BadInt string | BadList string | BadStats | BadLine string
  | BadCpuMax string | NumError num_error

subsection \<open>parseUint\<close>

definition parse_uint :: "string \<Rightarrow> cpu_error + 64 word" where
  "parse_uint s =
     (case strconv_parse_int s of
        Inl ErrRange \<Rightarrow> Inr 0
      | Inl ErrSyntax \<Rightarrow> Inl (BadInt s)
      | Inr v \<Rightarrow> if v < 0 then Inr 0 else Inr (word_of_int v))"

lemma parse_uint_show: "int n \<le> i64_max \<Longrightarrow> parse_uint (show_nat n) = Inr (of_nat n)"
  by (simp add: parse_uint_def strconv_parse_int_show)

lemma parse_uint_bound: "parse_uint s = Inr w \<Longrightarrow> int (unat w) \<le> i64_max"
proof -
  assume a: "parse_uint s = Inr w"
  show ?thesis
  proof (cases "strconv_parse_int s")
    case (Inl e)
    with a show ?thesis by (auto simp: parse_uint_def split: num_error.splits)
  next
    case (Inr v)
    then have "is_i64 v" by (rule strconv_parse_int_bounds)
    with a Inr show ?thesis
      by (auto simp: parse_uint_def is_i64_def unsigned_of_int take_bit_int_eq_self split: if_splits)
  qed
qed

subsection \<open>parseUints\<close>

type_synonym cpu_list = "64 word list \<times> 64 word set"

definition note_cpu :: "64 word \<Rightarrow> cpu_list \<Rightarrow> cpu_list" where
  "note_cpu i acc = (if i \<in> snd acc then acc else (fst acc @ [i], insert i (snd acc)))"

partial_function (option) range_loop :: "64 word \<Rightarrow> 64 word \<Rightarrow> cpu_list \<Rightarrow> cpu_list option" where
  "range_loop i mx acc = (if i \<le> mx then range_loop (i + 1) mx (note_cpu i acc) else Some acc)"

definition parse_entry :: "string \<Rightarrow> string \<Rightarrow> cpu_list \<Rightarrow> (cpu_error + cpu_list) option" where
  "parse_entry val r acc =
     (if CHR ''-'' \<in> set r
      then case parse_uint (fst (split_once CHR ''-'' r)) of
             Inl _ \<Rightarrow> Some (Inl (BadList val))
           | Inr minimum \<Rightarrow>
             (case parse_uint (snd (split_once CHR ''-'' r)) of
                Inl _ \<Rightarrow> Some (Inl (BadList val))
              | Inr maximum \<Rightarrow>
                  if maximum < minimum then Some (Inl (BadList val))
                  else map_option Inr (range_loop minimum maximum acc))
      else case parse_uint r of
             Inl e \<Rightarrow> Some (Inl e)
           | Inr v \<Rightarrow> Some (Inr (note_cpu v acc)))"

fun parse_entries :: "string \<Rightarrow> string list \<Rightarrow> cpu_list \<Rightarrow> (cpu_error + cpu_list) option" where
  "parse_entries val [] acc = Some (Inr acc)"
| "parse_entries val (r # rs) acc =
     (case parse_entry val r acc of
        None \<Rightarrow> None
      | Some (Inl e) \<Rightarrow> Some (Inl e)
      | Some (Inr acc') \<Rightarrow> parse_entries val rs acc')"

definition parse_uints :: "string \<Rightarrow> (cpu_error + 64 word list) option" where
  "parse_uints val =
     (if val = [] then Some (Inr [])
      else map_option (map_sum id fst) (parse_entries val (split_on CHR '','' val) ([], {})))"

subsection \<open>The range loop\<close>

abbreviation u64_range :: "nat \<Rightarrow> nat \<Rightarrow> 64 word list" where
  "u64_range lo hi \<equiv> List.map of_nat [lo..<Suc hi]"

lemma unat_minus_1: "unat (- 1 :: 64 word) = 18446744073709551615"
  by (transfer, simp add: take_bit_minus_one_eq_mask mask_eq_exp_minus_1)

lemma unat_add_1: "(i :: 64 word) < - 1 \<Longrightarrow> unat (i + 1) = unat i + 1"
  by (simp add: unat_word_ariths word_less_nat_alt unat_minus_1)

lemma range_loop_fold:
  assumes "mx < - 1" "unat i \<le> unat mx + 1"
  shows "range_loop i mx acc = Some (fold note_cpu (u64_range (unat i) (unat mx)) acc)"
  using assms(2)
proof (induction "unat mx + 1 - unat i" arbitrary: i acc)
  case 0
  then have "\<not> i \<le> mx" by (simp add: word_le_nat_alt)
  then show ?case using 0 by (subst range_loop.simps) simp
next
  case (Suc k)
  then have le: "i \<le> mx" by (simp add: word_le_nat_alt)
  then have "i < - 1" using assms(1) by (rule le_less_trans)
  then have s: "unat (i + 1) = unat i + 1" by (rule unat_add_1)
  have "range_loop (i + 1) mx (note_cpu i acc)
      = Some (fold note_cpu (u64_range (unat (i + 1)) (unat mx)) (note_cpu i acc))"
    using Suc.hyps(2) le by (intro Suc.hyps(1)) (simp_all add: s word_le_nat_alt)
  moreover have "[unat i..<Suc (unat mx)] = unat i # [unat (i + 1)..<Suc (unat mx)]"
    using le s by (simp add: upt_rec word_le_nat_alt)
  ultimately show ?case using le by (subst range_loop.simps) simp
qed

lemma range_loop_parsed:
  "parse_uint s = Inr mx \<Longrightarrow> mn \<le> mx \<Longrightarrow>
     range_loop mn mx acc = Some (fold note_cpu (u64_range (unat mn) (unat mx)) acc)"
proof (rule range_loop_fold)
  assume "parse_uint s = Inr mx"
  then have "int (unat mx) \<le> i64_max" by (rule parse_uint_bound)
  then show "mx < - 1" by (simp only: word_less_nat_alt unat_minus_1)
qed (simp add: word_le_nat_alt)

text \<open>The list noted so far is distinct and holds what has been seen.\<close>

definition cpu_list_inv :: "cpu_list \<Rightarrow> bool" where
  "cpu_list_inv acc \<longleftrightarrow> distinct (fst acc) \<and> set (fst acc) = snd acc"

lemma note_cpu_inv: "cpu_list_inv acc \<Longrightarrow> cpu_list_inv (note_cpu i acc)"
  by (auto simp: cpu_list_inv_def note_cpu_def)

lemma fold_note_inv: "cpu_list_inv acc \<Longrightarrow> cpu_list_inv (fold note_cpu is acc)"
  by (induction "is" arbitrary: acc) (simp_all add: note_cpu_inv)

lemma fold_note_set: "cpu_list_inv acc \<Longrightarrow> snd (fold note_cpu is acc) = snd acc \<union> set is"
proof (induction "is" arbitrary: acc)
  case (Cons i "is")
  then show ?case using note_cpu_inv [OF Cons.prems, of i] by (auto simp: note_cpu_def)
qed simp

subsection \<open>The whole list\<close>

lemma parse_entry_returns:
  "\<exists>r. parse_entry val e acc = Some r"
  by (auto simp: parse_entry_def range_loop_parsed split: sum.splits)

lemma parse_entry_inv:
  assumes "cpu_list_inv acc" "parse_entry val e acc = Some (Inr acc')"
  shows "cpu_list_inv acc'"
  using assms by (auto simp: parse_entry_def range_loop_parsed fold_note_inv note_cpu_inv
      split: sum.splits if_splits)

lemma parse_entries_inv:
  "cpu_list_inv acc \<Longrightarrow> parse_entries val rs acc = Some (Inr acc') \<Longrightarrow> cpu_list_inv acc'"
  by (induction val rs acc rule: parse_entries.induct)
    (auto split: option.splits sum.splits dest: parse_entry_inv)

lemma parse_entries_returns: "\<exists>r. parse_entries val rs acc = Some r"
proof (induction val rs acc rule: parse_entries.induct)
  case (2 val r rs acc)
  obtain x where "parse_entry val r acc = Some x" using parse_entry_returns by blast
  with 2 show ?case by (auto split: sum.splits)
qed simp

text \<open>
  \<open>parseUints\<close> returns on every text: no bound that \<open>parseUint\<close> yields is the last
  \<open>uint64\<close>, so the range loop always passes its bound.
\<close>

lemma parse_uints_returns: "\<exists>r. parse_uints val = Some r"
  using parse_entries_returns [of val "split_on CHR '','' val" "([], {})"]
  by (auto simp: parse_uints_def)

text \<open>The CPU lists the kernel prints, and how it prints them.\<close>

definition print_range :: "nat \<times> nat \<Rightarrow> string" where
  "print_range r = (if fst r = snd r then show_nat (fst r)
     else show_nat (fst r) @ CHR ''-'' # show_nat (snd r))"

definition print_cpus :: "(nat \<times> nat) list \<Rightarrow> string" where
  "print_cpus rs = join_with CHR '','' (List.map print_range rs)"

definition range_ok :: "nat \<times> nat \<Rightarrow> bool" where
  "range_ok r \<longleftrightarrow> fst r \<le> snd r \<and> int (snd r) \<le> i64_max"

lemma show_nat_no: "digit_val c = None \<Longrightarrow> c \<notin> set (show_nat n)"
  by (metis digit_char_ne show_nat_digits)

lemma separators: "digit_val CHR ''-'' = None" "digit_val CHR '','' = None"
  by (simp_all add: digit_val_def)

lemma parse_entry_print:
  assumes "range_ok r"
  shows "parse_entry val (print_range r) acc = Some (Inr (fold note_cpu (u64_range (fst r) (snd r)) acc))"
proof (cases "fst r = snd r")
  case True
  have "upt (snd r) (Suc (snd r)) = [snd r]" by simp
  with True assms show ?thesis
    by (simp add: parse_entry_def print_range_def range_ok_def show_nat_no separators parse_uint_show del: upt_Suc)
next
  case False
  have p: "parse_uint (show_nat (fst r)) = Inr (of_nat (fst r))" "parse_uint (show_nat (snd r)) = Inr (of_nat (snd r))"
    using assms by (simp_all add: range_ok_def parse_uint_show)
  have u: "unat (of_nat (fst r) :: 64 word) = fst r" "unat (of_nat (snd r) :: 64 word) = snd r"
    using assms by (simp_all add: range_ok_def unsigned_of_nat take_bit_nat_eq_self)
  then have le: "(of_nat (fst r) :: 64 word) \<le> of_nat (snd r)"
    using assms by (simp add: range_ok_def word_le_nat_alt)
  show ?thesis
    using False p le range_loop_parsed [OF p(2) le, unfolded u]
    by (simp add: parse_entry_def print_range_def split_once_cons show_nat_no separators)
qed

lemma parse_entries_print:
  "\<forall>r \<in> set rs. range_ok r \<Longrightarrow> parse_entries val (List.map print_range rs) acc =
     Some (Inr (fold note_cpu (concat (List.map (\<lambda>r. u64_range (fst r) (snd r)) rs)) acc))"
  by (induction rs arbitrary: acc) (simp_all add: parse_entry_print)

lemma print_range_no_comma: "CHR '','' \<notin> set (print_range r)"
  by (simp add: print_range_def show_nat_no separators)

lemma parse_uints_print:
  assumes "rs \<noteq> []" "\<forall>r \<in> set rs. range_ok r"
  shows "parse_uints (print_cpus rs) =
    Some (Inr (fst (fold note_cpu (concat (List.map (\<lambda>r. u64_range (fst r) (snd r)) rs)) ([], {}))))"
proof -
  have "print_cpus rs \<noteq> []"
    using assms(1) by (cases rs rule: remdups_adj.cases) (auto simp: print_cpus_def print_range_def)
  moreover have "split_on CHR '','' (print_cpus rs) = List.map print_range rs"
    unfolding print_cpus_def using assms(1) by (intro split_on_join) (auto simp: print_range_no_comma)
  ultimately show ?thesis
    using parse_entries_print [OF assms(2), of "print_cpus rs" "([], {})"] by (simp add: parse_uints_def)
qed

text \<open>The CPUs read are those of the ranges, each once.\<close>

lemma parse_uints_count:
  assumes "rs \<noteq> []" "\<forall>r \<in> set rs. range_ok r"
  shows "\<exists>cpus. parse_uints (print_cpus rs) = Some (Inr cpus) \<and> distinct cpus
    \<and> unat ` set cpus = (\<Union>r \<in> set rs. {fst r..snd r})
    \<and> length cpus = card (\<Union>r \<in> set rs. {fst r..snd r})"
proof -
  let ?is = "concat (List.map (\<lambda>r. u64_range (fst r) (snd r)) rs)"
  define acc where "acc = fold note_cpu ?is ([], {})"
  have i: "cpu_list_inv acc" unfolding acc_def by (rule fold_note_inv) (simp add: cpu_list_inv_def)
  have "snd acc = set ?is"
    unfolding acc_def by (subst fold_note_set) (simp_all add: cpu_list_inv_def)
  then have s: "set (fst acc) = (\<Union>r \<in> set rs. of_nat ` {fst r..snd r})"
    using i by (simp add: cpu_list_inv_def atLeastLessThanSuc_atLeastAtMost del: upt_Suc)
  have "unat (of_nat n :: 64 word) = n" if "r \<in> set rs" "n \<in> {fst r..snd r}" for r n
  proof -
    have "int n \<le> i64_max" using that assms(2) by (auto simp: range_ok_def)
    then show ?thesis by (simp add: unsigned_of_nat take_bit_nat_eq_self)
  qed
  then have u: "unat ` set (fst acc) = (\<Union>r \<in> set rs. {fst r..snd r})"
    unfolding s by (force simp: image_UN image_image)
  moreover have "inj_on unat (set (fst acc))" by (rule inj_onI) (rule unsigned_word_eqI)
  then have "card (unat ` set (fst acc)) = card (set (fst acc))" by (rule card_image)
  with i have "length (fst acc) = card (unat ` set (fst acc))" by (metis cpu_list_inv_def distinct_card)
  ultimately show ?thesis
    using parse_uints_print [OF assms] i by (simp add: acc_def cpu_list_inv_def)
qed

text \<open>The list noted is that of the numbers in the order they come first.\<close>

lemma fold_note_order: "fold note_cpu is ([], {}) = (rev (remdups (rev is)), set is)"
proof (induction "is" rule: rev_induct)
  case (snoc i "is")
  then show ?case by (simp add: note_cpu_def insert_absorb)
qed simp

lemma unat_range:
  "range_ok r \<Longrightarrow> List.map unat (u64_range (fst r) (snd r)) = [fst r..<Suc (snd r)]"
proof -
  assume r: "range_ok r"
  have "unat (of_nat n :: 64 word) = n" if "n \<in> set [fst r..<Suc (snd r)]" for n
  proof -
    have "int n \<le> i64_max" using that r by (auto simp: range_ok_def)
    then show ?thesis by (simp add: unsigned_of_nat take_bit_nat_eq_self)
  qed
  then show ?thesis unfolding map_map comp_def by (intro map_idI)
qed

lemma parse_uints_order:
  assumes "rs \<noteq> []" "\<forall>r \<in> set rs. range_ok r" "parse_uints (print_cpus rs) = Some (Inr cpus)"
  shows "List.map unat cpus = rev (remdups (rev (concat (List.map (\<lambda>r. [fst r..<Suc (snd r)]) rs))))"
proof -
  let ?is = "concat (List.map (\<lambda>r. u64_range (fst r) (snd r)) rs)"
  have cpus: "cpus = rev (remdups (rev ?is))"
    using parse_uints_print [OF assms(1,2)] assms(3) by (simp add: fold_note_order)
  have "List.map unat (remdups ws) = remdups (List.map unat ws)" for ws :: "64 word list"
    by (induction ws) (auto dest: unsigned_word_eqI)
  moreover have "List.map unat ?is = concat (List.map (\<lambda>r. [fst r..<Suc (snd r)]) rs)"
    using assms(2) by (induction rs) (simp_all add: unat_range del: upt_Suc map_map)
  ultimately show ?thesis by (simp only: cpus rev_map [symmetric])
qed

text \<open>
  C29. A CPU list is read back, in order: from the text of a list of ranges, each at most the
  largest int64, in any order and overlapping or not, \<open>parseUints\<close> makes the list of the
  CPUs of the ranges from the first to the last, each CPU where it comes first, so that its
  length is their number.
\<close>

theorem parse_uints_roundtrip:
  assumes "rs \<noteq> []" "\<forall>r \<in> set rs. range_ok r"
  shows "\<exists>cpus. parse_uints (print_cpus rs) = Some (Inr cpus)
    \<and> List.map unat cpus = rev (remdups (rev (concat (List.map (\<lambda>r. [fst r..<Suc (snd r)]) rs))))
    \<and> distinct cpus \<and> unat ` set cpus = (\<Union>r \<in> set rs. {fst r..snd r})
    \<and> length cpus = card (\<Union>r \<in> set rs. {fst r..snd r})"
  using parse_uints_count [OF assms] parse_uints_order [OF assms] by blast

theorem parse_uints_roundtrip_witness:
  "print_cpus [(0, 3), (8, 8), (2, 4)] = ''0-3,8,2-4''
   \<and> (\<exists>cpus. parse_uints ''0-3,8,2-4'' = Some (Inr cpus) \<and> List.map unat cpus = [0, 1, 2, 3, 8, 4])"
proof -
  have p: "print_cpus [(0, 3), (8, 8), (2, 4)] = ''0-3,8,2-4''"
    by code_simp
  have u: "rev (remdups (rev (concat (List.map (\<lambda>r. [fst r..<Suc (snd r)]) [(0, 3), (8, 8), (2, 4)]))))
      = [0, 1, 2, 3, 8, 4 :: nat]"
    by code_simp
  have "\<forall>r \<in> set [(0, 3), (8, 8), (2, 4)]. range_ok r" by (simp add: range_ok_def)
  from parse_uints_roundtrip [OF _ this, unfolded p u] p show ?thesis by auto
qed

end
