(* ===== verification/CpuLinux.thy ===== *)
theory CpuLinux
  imports CpuText F64 "HOL-Library.Sublist"
begin

text \<open>
  The CPU reader of queue/cpu_linux.go: the cgroup version is detected once, the number of
  CPUs and the quota are read once, and each refresh divides the cgroup's CPU time since the
  last one by the machine's. The files are a parameter: a refresh sees one content of each
  file. Package variables are the fields of \<open>cpu_state\<close>; an error is a value of
  \<open>cpu_error\<close>, and \<open>None\<close> is not to return.
\<close>

subsection \<open>Files\<close>

record sys =
  read_file :: "string \<Rightarrow> string option"
  stat_ok :: "string \<Rightarrow> bool"
  pid :: nat

definition proc_stat :: string where "proc_stat = ''/proc/stat''"
definition cgroup_dir :: string where "cgroup_dir = ''/sys/fs/cgroup''"
definition cpu_max_file :: string where "cpu_max_file = cgroup_dir @ ''/cpu.max''"
definition cpu_stat_file :: string where "cpu_stat_file = cgroup_dir @ ''/cpu.stat''"
definition cpuset_file :: string where "cpuset_file = cgroup_dir @ ''/cpuset.cpus.effective''"

definition read_text :: "sys \<Rightarrow> string \<Rightarrow> cpu_error + string" where
  "read_text sys f = (case read_file sys f of None \<Rightarrow> Inl ErrRead | Some b \<Rightarrow> Inr (trim_space b))"

definition read_lines :: "sys \<Rightarrow> string \<Rightarrow> cpu_error + string list" where
  "read_lines sys f =
     (case read_file sys f of
        None \<Rightarrow> Inl ErrRead
      | Some b \<Rightarrow> (case scan_lines b of
            None \<Rightarrow> Inl ErrLongLine
          | Some ls \<Rightarrow> Inr (filter (\<lambda>l. l \<noteq> []) (List.map trim_space ls))))"

subsection \<open>The machine's CPU time\<close>

abbreviation cpu_ticks :: "64 word" where "cpu_ticks \<equiv> 100"
abbreviation cpu_fields :: nat where "cpu_fields \<equiv> 8"
abbreviation cpu_max_milli :: "64 word" where "cpu_max_milli \<equiv> 1000"

fun sum_ticks :: "string list \<Rightarrow> 64 word \<Rightarrow> cpu_error + 64 word" where
  "sum_ticks [] ttl = Inr ttl"
| "sum_ticks (i # is) ttl =
     (case parse_uint i of Inl e \<Rightarrow> Inl e | Inr v \<Rightarrow> sum_ticks is (ttl + v))"

fun stat_lines :: "string list \<Rightarrow> cpu_error + 64 word" where
  "stat_lines [] = Inl BadStats"
| "stat_lines (line # lines) =
     (if str_fields line ! 0 = ''cpu''
      then if length (str_fields line) < cpu_fields then Inl BadStats
           else case sum_ticks (take (cpu_fields - 1) (drop 1 (str_fields line))) 0 of
                  Inl e \<Rightarrow> Inl e
                | Inr ticks \<Rightarrow> Inr (ticks * 1000000000 div cpu_ticks)
      else stat_lines lines)"

definition system_cpu_usage :: "sys \<Rightarrow> cpu_error + 64 word" where
  "system_cpu_usage sys =
     (case read_lines sys proc_stat of Inl e \<Rightarrow> Inl e | Inr lines \<Rightarrow> stat_lines lines)"

subsection \<open>The cgroup\<close>

text \<open>A value of the \<open>cgroup\<close> interface is one of the two versions with its map.\<close>

datatype cgroup = CgroupV1 "string \<rightharpoonup> string" | CgroupV2 "string \<rightharpoonup> string"

definition map_get :: "(string \<rightharpoonup> string) \<Rightarrow> string \<Rightarrow> string" where
  "map_get m k = (case m k of None \<Rightarrow> [] | Some v \<Rightarrow> v)"

definition v1_read_uint :: "sys \<Rightarrow> (string \<rightharpoonup> string) \<Rightarrow> string \<Rightarrow> string \<Rightarrow> cpu_error + 64 word" where
  "v1_read_uint sys m subsys f =
     (case read_text sys (path_join [map_get m subsys, f]) of Inl e \<Rightarrow> Inl e | Inr data \<Rightarrow> parse_uint data)"

definition v1_read_int :: "sys \<Rightarrow> (string \<rightharpoonup> string) \<Rightarrow> string \<Rightarrow> string \<Rightarrow> cpu_error + int" where
  "v1_read_int sys m subsys f =
     (case read_text sys (path_join [map_get m subsys, f]) of
        Inl e \<Rightarrow> Inl e
      | Inr data \<Rightarrow> map_sum NumError id (strconv_parse_int data))"

definition v1_cpu_quota :: "sys \<Rightarrow> (string \<rightharpoonup> string) \<Rightarrow> cpu_error + f64" where
  "v1_cpu_quota sys m =
     (case v1_read_int sys m ''cpu'' ''cpu.cfs_quota_us'' of
        Inl e \<Rightarrow> Inl e
      | Inr quota_us \<Rightarrow>
          if quota_us = -1 then Inr (f64_of_int (-1))
          else case v1_read_uint sys m ''cpu'' ''cpu.cfs_period_us'' of
                 Inl e \<Rightarrow> Inl e
               | Inr period_us \<Rightarrow> Inr (fdiv (f64_of_int quota_us) (f64_of_int (uint period_us))))"

definition v1_cpu_usage :: "sys \<Rightarrow> (string \<rightharpoonup> string) \<Rightarrow> cpu_error + 64 word" where
  "v1_cpu_usage sys m = v1_read_uint sys m ''cpuacct'' ''cpuacct.usage''"

definition v1_effective_cpus :: "sys \<Rightarrow> (string \<rightharpoonup> string) \<Rightarrow> (cpu_error + nat) option" where
  "v1_effective_cpus sys m =
     (case read_text sys (path_join [map_get m ''cpuset'', ''cpuset.cpus'']) of
        Inl e \<Rightarrow> Some (Inl e)
      | Inr data \<Rightarrow> map_option (map_sum id length) (parse_uints data))"

fun v1_groups :: "string list \<Rightarrow> (string \<rightharpoonup> string) \<Rightarrow> cpu_error + (string \<rightharpoonup> string)" where
  "v1_groups [] m = Inr m"
| "v1_groups (line # lines) m =
     (let cols = split_on CHR '':'' line in
      if length cols \<noteq> 3 then Inl (BadLine line)
      else if \<not> prefix ''cpu'' (cols ! 1) then v1_groups lines m
      else v1_groups lines (fold (\<lambda>val m. m(val \<mapsto> path_join [cgroup_dir, val])) (split_on CHR '','' (cols ! 1)) m))"

definition current_cgroup_v1 :: "sys \<Rightarrow> cpu_error + cgroup" where
  "current_cgroup_v1 sys =
     (case read_lines sys (''/proc/'' @ show_nat (pid sys) @ ''/cgroup'') of
        Inl e \<Rightarrow> Inl e
      | Inr lines \<Rightarrow> map_sum id CgroupV1 (v1_groups lines (\<lambda>_. None)))"

definition v2_cpu_quota :: "sys \<Rightarrow> cpu_error + f64" where
  "v2_cpu_quota sys =
     (case read_text sys cpu_max_file of
        Inl e \<Rightarrow> Inl e
      | Inr data \<Rightarrow>
          let fs = str_fields data in
          if length fs \<noteq> 2 then Inl (BadCpuMax data)
          else if fs ! 0 = ''max'' then Inr (f64_of_int (-1))
          else case strconv_parse_int (fs ! 0) of
                 Inl e \<Rightarrow> Inl (NumError e)
               | Inr quota_us \<Rightarrow> (case strconv_parse_uint (fs ! 1) of
                     Inl e \<Rightarrow> Inl (NumError e)
                   | Inr period_us \<Rightarrow> Inr (fdiv (f64_of_int quota_us) (f64_of_int period_us))))"

definition v2_cpu_usage :: "(string \<rightharpoonup> string) \<Rightarrow> cpu_error + 64 word" where
  "v2_cpu_usage m = map_sum id (\<lambda>usec. usec * 1000) (parse_uint (map_get m ''usage_usec''))"

definition v2_effective_cpus :: "sys \<Rightarrow> (cpu_error + nat) option" where
  "v2_effective_cpus sys =
     (case read_text sys cpuset_file of
        Inl e \<Rightarrow> Some (Inl e)
      | Inr data \<Rightarrow> map_option (map_sum id length) (parse_uints data))"

fun v2_stats :: "string list \<Rightarrow> (string \<rightharpoonup> string) \<Rightarrow> cpu_error + (string \<rightharpoonup> string)" where
  "v2_stats [] m = Inr m"
| "v2_stats (line # lines) m =
     (let cols = str_fields line in
      if length cols \<noteq> 2 then Inl (BadLine line) else v2_stats lines (m(cols ! 0 \<mapsto> cols ! 1)))"

definition current_cgroup_v2 :: "sys \<Rightarrow> cpu_error + cgroup" where
  "current_cgroup_v2 sys =
     (case read_lines sys cpu_stat_file of
        Inl e \<Rightarrow> Inl e
      | Inr lines \<Rightarrow> map_sum id CgroupV2 (v2_stats lines (\<lambda>_. None)))"

subsection \<open>State\<close>

text \<open>\<open>unified\<close> is \<open>None\<close> until \<open>isUnifiedOnce\<close> has run, \<open>init_done\<close> tells whether \<open>cpuInitOnce\<close> has.\<close>

record cpu_state =
  pre_system :: "64 word"
  pre_total :: "64 word"
  cpu_limit :: f64
  cpu_cores :: "64 word"
  no_cgroup :: bool
  init_done :: bool
  unified :: "bool option"

definition cpu_state0 :: cpu_state where
  "cpu_state0 = \<lparr>pre_system = 0, pre_total = 0, cpu_limit = Fin 0, cpu_cores = 0, no_cgroup = False,
     init_done = False, unified = None\<rparr>"

definition is_cgroup2_unified :: "sys \<Rightarrow> cpu_state \<Rightarrow> bool \<times> cpu_state" where
  "is_cgroup2_unified sys st =
     (case unified st of
        Some b \<Rightarrow> (b, st)
      | None \<Rightarrow> let b = stat_ok sys (path_join [cgroup_dir, ''cgroup.controllers''])
                in (b, st\<lparr>unified := Some b\<rparr>))"

definition current_cgroup :: "sys \<Rightarrow> cpu_state \<Rightarrow> (cpu_error + cgroup) \<times> cpu_state" where
  "current_cgroup sys st =
     (case is_cgroup2_unified sys st of
        (b, st') \<Rightarrow> ((if b then current_cgroup_v2 sys else current_cgroup_v1 sys), st'))"

definition cgroup_cpu_quota :: "sys \<Rightarrow> cpu_state \<Rightarrow> (cpu_error + f64) \<times> cpu_state" where
  "cgroup_cpu_quota sys st =
     (case current_cgroup sys st of (cg, st') \<Rightarrow> ((case cg of
        Inl e \<Rightarrow> Inl e
      | Inr (CgroupV1 m) \<Rightarrow> v1_cpu_quota sys m
      | Inr (CgroupV2 m) \<Rightarrow> v2_cpu_quota sys), st'))"

definition cgroup_cpu_usage :: "sys \<Rightarrow> cpu_state \<Rightarrow> (cpu_error + 64 word) \<times> cpu_state" where
  "cgroup_cpu_usage sys st =
     (case current_cgroup sys st of (cg, st') \<Rightarrow> ((case cg of
        Inl e \<Rightarrow> Inl e
      | Inr (CgroupV1 m) \<Rightarrow> v1_cpu_usage sys m
      | Inr (CgroupV2 m) \<Rightarrow> v2_cpu_usage m), st'))"

definition cgroup_effective_cpus :: "sys \<Rightarrow> cpu_state \<Rightarrow> (cpu_error + nat) option \<times> cpu_state" where
  "cgroup_effective_cpus sys st =
     (case current_cgroup sys st of (cg, st') \<Rightarrow> ((case cg of
        Inl e \<Rightarrow> Some (Inl e)
      | Inr (CgroupV1 m) \<Rightarrow> v1_effective_cpus sys m
      | Inr (CgroupV2 m) \<Rightarrow> v2_effective_cpus sys), st'))"

subsection \<open>Initialisation and refresh\<close>

text \<open>The result tells whether \<open>cpuInitialize\<close> returned without an error.\<close>

definition cpu_initialize :: "sys \<Rightarrow> cpu_state \<Rightarrow> (bool \<times> cpu_state) option" where
  "cpu_initialize sys st =
     (case cgroup_effective_cpus sys st of
        (None, st1) \<Rightarrow> None
      | (Some (Inl e), st1) \<Rightarrow> Some (False, st1)
      | (Some (Inr cpus), st1) \<Rightarrow>
          let st2 = st1\<lparr>cpu_cores := of_nat cpus, cpu_limit := f64_of_int (int cpus)\<rparr>;
              (q, st3) = cgroup_cpu_quota sys st2;
              st4 = (case q of
                  Inl e \<Rightarrow> st3
                | Inr quota \<Rightarrow> if flt (Fin 0) quota \<and> flt quota (cpu_limit st3) then st3\<lparr>cpu_limit := quota\<rparr> else st3)
          in case system_cpu_usage sys of
               Inl e \<Rightarrow> Some (False, st4\<lparr>pre_system := 0\<rparr>)
             | Inr system \<Rightarrow>
                 (case cgroup_cpu_usage sys (st4\<lparr>pre_system := system\<rparr>) of
                    (Inl e, st5) \<Rightarrow> Some (False, st5\<lparr>pre_total := 0\<rparr>)
                  | (Inr ttl, st5) \<Rightarrow> Some (True, st5\<lparr>pre_total := ttl\<rparr>)))"

text \<open>
  The conversion of a \<open>float64\<close> to \<open>uint64\<close>, as amd64 does it: through
  \<open>int64\<close>, with the top bit taken off and put back for large values.
\<close>

definition f64_to_u64 :: "f64 \<Rightarrow> 64 word" where
  "f64_to_u64 x =
     (if flt x (Fin (2 ^ 63)) then word_of_int (f64_to_i64 x)
      else xor (word_of_int (f64_to_i64 (fsub x (Fin (2 ^ 63))))) (push_bit 63 1))"

definition cpu_fraction :: "64 word \<Rightarrow> 64 word \<Rightarrow> cpu_state \<Rightarrow> 64 word" where
  "cpu_fraction cpu_delta system_delta st =
     (if 0 < cpu_delta \<and> 0 < system_delta
      then let usage = f64_to_u64 (fdiv (f64_of_int (uint (cpu_delta * cpu_cores st * cpu_max_milli)))
                 (fmul (f64_of_int (uint system_delta)) (cpu_limit st)))
           in if cpu_max_milli < usage then cpu_max_milli else usage
      else 0)"

definition refresh_cpu :: "sys \<Rightarrow> cpu_state \<Rightarrow> (64 word \<times> cpu_state) option" where
  "refresh_cpu sys st0 =
     (case (if init_done st0 then Some st0
            else map_option (\<lambda>(ok, s). s\<lparr>init_done := True, no_cgroup := no_cgroup s \<or> \<not> ok\<rparr>)
                   (cpu_initialize sys st0)) of
        None \<Rightarrow> None
      | Some st \<Rightarrow>
          if no_cgroup st then Some (0, st)
          else case cgroup_cpu_usage sys st of
                 (Inl e, st1) \<Rightarrow> Some (0, st1)
               | (Inr ttl, st1) \<Rightarrow>
                   (case system_cpu_usage sys of
                      Inl e \<Rightarrow> Some (0, st1)
                    | Inr system \<Rightarrow>
                        Some (cpu_fraction (ttl - pre_total st1) (system - pre_system st1) st1,
                          st1\<lparr>pre_system := system, pre_total := ttl\<rparr>)))"

text \<open>On other systems (queue/cpu_other.go) every refresh reads 0.\<close>

definition refresh_cpu_other :: "64 word" where
  "refresh_cpu_other = 0"

subsection \<open>Refreshing always returns\<close>

text \<open>Which version is in use, and what detecting it does to the state.\<close>

definition uses_v2 :: "sys \<Rightarrow> cpu_state \<Rightarrow> bool" where
  "uses_v2 sys st = fst (is_cgroup2_unified sys st)"

definition detected :: "sys \<Rightarrow> cpu_state \<Rightarrow> cpu_state" where
  "detected sys st = st\<lparr>unified := Some (uses_v2 sys st)\<rparr>"

lemma is_unified_eq: "is_cgroup2_unified sys st = (uses_v2 sys st, detected sys st)"
  by (cases st) (auto simp: is_cgroup2_unified_def uses_v2_def detected_def Let_def split: option.splits)

lemma uses_v2_known: "unified st = Some b \<Longrightarrow> uses_v2 sys st = b"
  by (simp add: uses_v2_def is_cgroup2_unified_def)

lemma detected_known: "unified st = Some b \<Longrightarrow> detected sys st = st"
  by (cases st) (simp add: detected_def uses_v2_known)

lemma detected_frame [simp]:
  "no_cgroup (detected sys st) = no_cgroup st" "init_done (detected sys st) = init_done st"
  "pre_total (detected sys st) = pre_total st" "pre_system (detected sys st) = pre_system st"
  "cpu_cores (detected sys st) = cpu_cores st" "cpu_limit (detected sys st) = cpu_limit st"
  "unified (detected sys st) = Some (uses_v2 sys st)"
  by (simp_all add: detected_def)

lemma cgroup_snd [simp]:
  "snd (current_cgroup sys st) = detected sys st"
  "snd (cgroup_cpu_quota sys st) = detected sys st"
  "snd (cgroup_cpu_usage sys st) = detected sys st"
  "snd (cgroup_effective_cpus sys st) = detected sys st"
  by (simp_all add: cgroup_cpu_quota_def cgroup_cpu_usage_def cgroup_effective_cpus_def current_cgroup_def
      is_unified_eq)

lemma effective_cpus_returns: "\<exists>r. fst (cgroup_effective_cpus sys st) = Some r"
proof -
  have "\<exists>r. map_option f (parse_uints val) = Some r" for f :: "cpu_error + 64 word list \<Rightarrow> cpu_error + nat" and val
    using parse_uints_returns [of val] by auto
  then have "\<exists>r. v1_effective_cpus sys m = Some r" "\<exists>r. v2_effective_cpus sys = Some r" for m
    by (simp_all add: v1_effective_cpus_def v2_effective_cpus_def split: sum.split)
  then show ?thesis
    by (simp add: cgroup_effective_cpus_def split: prod.split sum.split cgroup.split)
qed

text \<open>The steps of the initialisation, with the pairs taken apart.\<close>

definition with_cpus :: "nat \<Rightarrow> cpu_state \<Rightarrow> cpu_state" where
  "with_cpus n st = st\<lparr>cpu_cores := of_nat n, cpu_limit := f64_of_int (int n)\<rparr>"

definition with_quota :: "cpu_error + f64 \<Rightarrow> cpu_state \<Rightarrow> cpu_state" where
  "with_quota q st = (case q of Inl e \<Rightarrow> st
     | Inr quota \<Rightarrow> if flt (Fin 0) quota \<and> flt quota (cpu_limit st) then st\<lparr>cpu_limit := quota\<rparr> else st)"

lemma cpu_initialize_eq:
  "cpu_initialize sys st =
     (case fst (cgroup_effective_cpus sys st) of
        None \<Rightarrow> None
      | Some (Inl e) \<Rightarrow> Some (False, detected sys st)
      | Some (Inr n) \<Rightarrow>
          let st2 = with_cpus n (detected sys st);
              st4 = with_quota (fst (cgroup_cpu_quota sys st2)) (detected sys st2)
          in case system_cpu_usage sys of
               Inl e \<Rightarrow> Some (False, st4\<lparr>pre_system := 0\<rparr>)
             | Inr s \<Rightarrow> let st5 = st4\<lparr>pre_system := s\<rparr>
                 in case fst (cgroup_cpu_usage sys st5) of
                      Inl e \<Rightarrow> Some (False, (detected sys st5)\<lparr>pre_total := 0\<rparr>)
                    | Inr t \<Rightarrow> Some (True, (detected sys st5)\<lparr>pre_total := t\<rparr>))"
  using cgroup_snd(4) [of sys st]
  by (cases "cgroup_effective_cpus sys st")
    (auto simp: cpu_initialize_def with_cpus_def [symmetric] with_quota_def [symmetric] Let_def case_prod_unfold
      split: option.split sum.split)

lemma with_frame [simp]:
  "no_cgroup (with_cpus n st) = no_cgroup st" "no_cgroup (with_quota q st) = no_cgroup st"
  "unified (with_cpus n st) = unified st" "unified (with_quota q st) = unified st"
  by (simp_all add: with_cpus_def with_quota_def split: sum.split)

lemma cpu_initialize_returns: "\<exists>ok st'. cpu_initialize sys st = Some (ok, st') \<and> no_cgroup st' = no_cgroup st
    \<and> (\<exists>b. unified st' = Some b)"
proof -
  obtain r where "fst (cgroup_effective_cpus sys st) = Some r" using effective_cpus_returns by blast
  then show ?thesis by (cases r) (auto simp: cpu_initialize_eq Let_def split: sum.split)
qed

lemma refresh_eq:
  "init_done st \<Longrightarrow> refresh_cpu sys st =
     (if no_cgroup st then Some (0, st)
      else case fst (cgroup_cpu_usage sys st) of
             Inl e \<Rightarrow> Some (0, detected sys st)
           | Inr t \<Rightarrow> (case system_cpu_usage sys of
                 Inl e \<Rightarrow> Some (0, detected sys st)
               | Inr s \<Rightarrow> Some (cpu_fraction (t - pre_total st) (s - pre_system st) (detected sys st),
                     (detected sys st)\<lparr>pre_system := s, pre_total := t\<rparr>)))"
  using cgroup_snd(3) [of sys st] unfolding refresh_cpu_def
  by (cases "cgroup_cpu_usage sys st") (auto split: sum.split)

text \<open>The first refresh is the initialisation followed by a refresh.\<close>

lemma refresh_first:
  assumes "\<not> init_done st" "cpu_initialize sys st = Some (ok, st1)"
  shows "refresh_cpu sys st = refresh_cpu sys (st1\<lparr>init_done := True, no_cgroup := no_cgroup st1 \<or> \<not> ok\<rparr>)"
  using assms by (simp add: refresh_cpu_def)

lemma refresh_returns:
  "\<exists>u st'. refresh_cpu sys st = Some (u, st') \<and> init_done st' \<and> (no_cgroup st \<longrightarrow> no_cgroup st')"
proof -
  have later: "\<exists>u st'. refresh_cpu sys st = Some (u, st') \<and> init_done st' \<and> (no_cgroup st \<longrightarrow> no_cgroup st')"
    if "init_done st" for st
    using that by (simp add: refresh_eq split: sum.split)
  show ?thesis
  proof (cases "init_done st")
    case False
    obtain ok st1 where i: "cpu_initialize sys st = Some (ok, st1)" "no_cgroup st1 = no_cgroup st"
      using cpu_initialize_returns by blast
    with later [of "st1\<lparr>init_done := True, no_cgroup := no_cgroup st1 \<or> \<not> ok\<rparr>"] show ?thesis
      by (auto simp: refresh_first [OF False i(1)])
  qed (rule later)
qed

lemma refresh_bounded: "refresh_cpu sys st = Some (u, st') \<Longrightarrow> u \<le> 1000"
  by (auto simp: refresh_cpu_def cpu_fraction_def Let_def split: option.splits sum.splits prod.splits if_splits)

lemma read_lines_fields:
  "read_lines sys f = Inr ls \<Longrightarrow> list_all (\<lambda>l. str_fields l \<noteq> []) ls"
  by (auto simp: read_lines_def list_all_iff fields_trim_nonempty split: option.splits)

text \<open>
  C30. Reading the CPU always returns and never indexes out of range: whatever the files hold,
  the first refresh, with its parsing of the CPU list, and every later one end with a usage of at
  most 1000; and each line of \<open>/proc/stat\<close> that is looked at has a first field.
\<close>

theorem cpu_refresh_returns:
  "(\<exists>u st'. refresh_cpu sys st = Some (u, st') \<and> u \<le> 1000)
   \<and> list_all (\<lambda>l. str_fields l \<noteq> []) (case read_lines sys proc_stat of Inl e \<Rightarrow> [] | Inr ls \<Rightarrow> ls)"
proof -
  obtain u st' where "refresh_cpu sys st = Some (u, st')" using refresh_returns [of sys st] by auto
  then show ?thesis using refresh_bounded read_lines_fields [of sys proc_stat] by (auto split: sum.split)
qed

subsection \<open>What a refresh reports\<close>

lemma f64_of_nat: "m \<le> 2 ^ 43 \<Longrightarrow> f64_of_int (int m) = Fin (of_int (int m))"
  by (rule f64_of_int_exact) simp

lemma f64_to_u64_floor:
  assumes "0 \<le> r" "r \<le> 2 ^ 62"
  shows "f64_to_u64 (Fin r) = word_of_int \<lfloor>r\<rfloor>" "unat (f64_to_u64 (Fin r)) = nat \<lfloor>r\<rfloor>"
proof -
  have "\<lfloor>r\<rfloor> \<le> \<lfloor>2 ^ 62 :: rat\<rfloor>" using assms(2) by (rule floor_mono)
  then have f: "\<lfloor>r\<rfloor> \<le> 2 ^ 62" by simp
  moreover have "r < 2 ^ 63" using assms(2) by simp
  ultimately show u: "f64_to_u64 (Fin r) = word_of_int \<lfloor>r\<rfloor>"
    using assms(1) by (simp add: f64_to_u64_def trunc_rat_def is_i64_def)
  show "unat (f64_to_u64 (Fin r)) = nat \<lfloor>r\<rfloor>"
    using f assms(1) unfolding u by (simp add: unsigned_of_int take_bit_int_eq_self)
qed

lemma cpu_product:
  assumes "cpu_cores st = of_nat n" "0 < n" "unat c * n * 1000 \<le> 2 ^ 53" "n \<le> 2 ^ 43"
  shows "f64_of_int (uint (c * cpu_cores st * 1000)) = Fin (of_nat (unat c * n * 1000))"
proof -
  have "unat c * n \<le> unat c * n * 1000" by simp
  also have "\<dots> < 2 ^ 64" using assms(3) by (rule le_less_trans) simp
  finally have "unat c * n < 2 ^ 64" .
  then have "unat (c * of_nat n * 1000) = unat c * n * 1000"
    using assms(3,4) by (simp add: unat_word_ariths unsigned_of_nat take_bit_nat_eq_self)
  then have "uint (c * cpu_cores st * 1000) = int (unat c * n * 1000)" by (simp only: assms(1) uint_nat)
  moreover have "\<bar>int (unat c * n * 1000)\<bar> \<le> 2 ^ 53"
  proof -
    have "int (unat c * n * 1000) \<le> int (2 ^ 53)" using assms(3) by (simp only: of_nat_le_iff)
    then show ?thesis by simp
  qed
  then have "f64_of_int (int (unat c * n * 1000)) = Fin (of_int (int (unat c * n * 1000)))" by (rule f64_of_int_exact)
  ultimately show ?thesis by (simp only: of_int_of_nat_eq)
qed

text \<open>The relative error of the three roundings of a fraction, for any limit.\<close>

lemma fraction_rel:
  assumes "A = 0 \<or> 1 \<le> A" "A \<le> 2 ^ 53" "1 \<le> d" "1 / 100 \<le> L" "L \<le> 2 ^ 43" "d * L \<le> 2 ^ 43"
  defines "D \<equiv> rne (d * rne L)"
  shows "rnd (d * rne L) = Fin D" "0 < D" "A / D \<le> 2 ^ 61" "rnd (A / D) = Fin (rne (A / D))"
    "\<bar>rne (A / D) - A / (d * L)\<bar> \<le> A / (d * L) * pow2 (- 50)"
proof -
  define e where "e = pow2 (- 53)"
  define x where "x = A / (d * L)"
  have e: "0 < e" "e < 1 / 1000" "pow2 (- 50) = 8 * e" by (simp_all add: e_def pow2_def power_int_minus)
  have rel: "y * (1 - e) \<le> rne y" "rne y \<le> y * (1 + e)" if "1 / 2 ^ 200 \<le> y" for y
  proof -
    have "pow2 (- 1000) \<le> pow2 (- 200)" by (intro pow2_mono) simp
    also have "pow2 (- 200) = 1 / 2 ^ 200" by (simp add: pow2_def power_int_minus)
    finally have "pow2 (- 1000) \<le> y" using that by simp
    from rne_rel [OF this] show "y * (1 - e) \<le> rne y" "rne y \<le> y * (1 + e)"
      by (simp_all add: e_def abs_le_iff distrib_left right_diff_distrib)
  qed
  have tiny: "(1 :: rat) / 2 ^ 200 \<le> 1 / 2 ^ 44" by simp
  have l: "L * (1 - e) \<le> rne L" "rne L \<le> L * (1 + e)" using assms(4) by (intro rel; simp)+
  have dL: "1 / 100 \<le> d * L" using mult_mono [of 1 d "1 / 100" L] assms(3,4) by simp
  have m: "d * L * (1 - e) \<le> d * rne L" "d * rne L \<le> d * L * (1 + e)"
    using l assms(3) by (simp_all only: mult.assoc) (intro mult_left_mono; simp)+
  have "1 / 100 * (1 - 1 / 1000) \<le> d * L * (1 - e)" using dL e by (intro mult_mono) simp_all
  then have m0: "1 / 200 \<le> d * rne L" using m(1) by simp
  have "d * L * (1 + e) \<le> 2 ^ 43 * 2" using dL e assms(6) by (intro mult_mono) simp_all
  then have m1: "d * rne L \<le> 2 ^ 44" using m(2) by simp
  have "f64_bounds 0 (2 ^ 44)" by (rule f64_bounds_pow) simp
  note D = rnd_eq [OF this _ m1, folded D_def]
  show "rnd (d * rne L) = Fin D" using D(1) m0 by simp
  have "D \<le> 2 ^ 44" using D(3) m0 by simp
  have Dr: "d * rne L * (1 - e) \<le> D" "D \<le> d * rne L * (1 + e)"
    unfolding D_def using m0 by (intro rel; simp)+
  have "d * L * (1 - e) * (1 - e) \<le> d * rne L * (1 - e)" "d * rne L * (1 + e) \<le> d * L * (1 + e) * (1 + e)"
    using m e by (intro mult_right_mono; simp)+
  with Dr have Db: "d * L * (1 - e)\<^sup>2 \<le> D" "D \<le> d * L * (1 + e)\<^sup>2" by (simp_all add: power2_eq_square)
  have "1 / 100 * (1 / 2) \<le> d * L * (1 - e)\<^sup>2"
  proof (rule mult_mono)
    show "1 / 2 \<le> (1 - e)\<^sup>2" by (simp add: e_def pow2_def power_int_minus power2_eq_square)
  qed (use dL in simp_all)
  with Db have D0: "1 / 200 \<le> D" by simp
  then show "0 < D" by simp
  have A0: "0 \<le> A" using assms(1) by auto
  have "A / D \<le> 2 ^ 53 / (1 / 200)" using A0 assms(2) D0 by (intro frac_le) simp_all
  then show A61: "A / D \<le> 2 ^ 61" by simp
  have "f64_bounds 0 (2 ^ 61)" by (rule f64_bounds_pow) simp
  from rnd_eq [OF this _ A61] show "rnd (A / D) = Fin (rne (A / D))" using A0 D0 by simp
  show "\<bar>rne (A / D) - A / (d * L)\<bar> \<le> A / (d * L) * pow2 (- 50)"
  proof (cases "A = 0")
    case False
    then have A1: "1 \<le> A" using assms(1) by simp
    have "1 / 2 ^ 44 \<le> A / D" using A1 \<open>D \<le> 2 ^ 44\<close> D0 by (intro frac_le) simp_all
    then have r: "A / D * (1 - e) \<le> rne (A / D)" "rne (A / D) \<le> A / D * (1 + e)" using tiny by (intro rel; linarith)+
    have "A / (d * L * (1 + e)\<^sup>2) \<le> A / D" using Db(2) A0 D0 by (intro divide_left_mono) simp_all
    then have lo: "x / (1 + e)\<^sup>2 \<le> A / D" by (simp add: x_def)
    have "0 < d * L * (1 - e)\<^sup>2" using dL e by simp
    then have "A / D \<le> A / (d * L * (1 - e)\<^sup>2)" using Db(1) A0 D0 by (intro divide_left_mono) simp_all
    then have hi: "A / D \<le> x / (1 - e)\<^sup>2" by (simp add: x_def)
    have x0: "0 \<le> x" using A0 dL by (simp add: x_def)
    have c: "1 - 8 * e \<le> (1 - e) / (1 + e)\<^sup>2" "(1 + e) / (1 - e)\<^sup>2 \<le> 1 + 8 * e"
      by (simp_all add: e_def pow2_def power_int_minus power2_eq_square)
    have "x * (1 - 8 * e) \<le> x * ((1 - e) / (1 + e)\<^sup>2)" using x0 c(1) by (intro mult_left_mono)
    also have "\<dots> = x / (1 + e)\<^sup>2 * (1 - e)" by simp
    also have "\<dots> \<le> A / D * (1 - e)" using lo e by (intro mult_right_mono) simp_all
    finally have 1: "x * (1 - 8 * e) \<le> rne (A / D)" using r(1) by simp
    have "A / D * (1 + e) \<le> x / (1 - e)\<^sup>2 * (1 + e)" using hi e by (intro mult_right_mono) simp_all
    also have "\<dots> = x * ((1 + e) / (1 - e)\<^sup>2)" by simp
    also have "\<dots> \<le> x * (1 + 8 * e)" using x0 c(2) by (intro mult_left_mono)
    finally have 2: "rne (A / D) \<le> x * (1 + 8 * e)" using r(2) by simp
    show ?thesis using 1 2 unfolding e(3) x_def [symmetric] by (simp add: abs_le_iff distrib_left right_diff_distrib)
  qed simp
qed

text \<open>The fraction as one rounded quotient, and how far it is from the ideal one.\<close>

lemma cpu_fraction_rounded:
  assumes "cpu_cores st = of_nat n" "cpu_limit st = Fin (rne L)" "0 < n"
    and "1 / 100 \<le> L" "L \<le> of_nat n" "unat c * n * 1000 \<le> 2 ^ 53" "unat d * n \<le> 2 ^ 43" "0 < c" "0 < d"
  shows "unat (cpu_fraction c d st) = min 1000 (nat \<lfloor>rne (of_nat (unat c * n * 1000) / rne (of_nat (unat d) * rne L))\<rfloor>)"
    and "\<bar>rne (of_nat (unat c * n * 1000) / rne (of_nat (unat d) * rne L)) - of_nat (unat c * n * 1000) / (of_nat (unat d) * L)\<bar>
      \<le> of_nat (unat c * n * 1000) / (of_nat (unat d) * L) * pow2 (- 50)"
proof -
  define A where "A = (of_nat (unat c * n * 1000) :: rat)"
  define e where "e = (of_nat (unat d) :: rat)"
  have pos: "0 < unat c" "0 < unat d" using assms(8,9) by (simp_all add: word_gt_0 unat_gt_0)
  have n43: "n \<le> 2 ^ 43" "unat d \<le> 2 ^ 43" using assms(3,7) pos
    by (metis dual_order.trans mult.commute mult_le_mono1 nat_mult_1 Suc_leI One_nat_def)+
  have A: "1 \<le> A" "A \<le> 2 ^ 53"
  proof -
    have "of_nat 1 \<le> A" using pos assms(3) unfolding A_def of_nat_le_iff by (simp add: Suc_le_eq)
    then show "1 \<le> A" by simp
    have "A \<le> of_nat (2 ^ 53)" using assms(6) unfolding A_def of_nat_le_iff .
    then show "A \<le> 2 ^ 53" by simp
  qed
  have d: "1 \<le> e" "L \<le> 2 ^ 43" "e * L \<le> 2 ^ 43"
  proof -
    have "of_nat 1 \<le> e" using pos unfolding e_def of_nat_le_iff by simp
    then show "1 \<le> e" by simp
    have "(of_nat n :: rat) \<le> of_nat (2 ^ 43)" using n43(1) by (simp only: of_nat_le_iff)
    then show "L \<le> 2 ^ 43" using assms(5) by simp
    have "e * L \<le> e * of_nat n" using assms(5) by (intro mult_left_mono) (simp_all only: e_def of_nat_0_le_iff)
    also have "\<dots> = of_nat (unat d * n)" by (simp add: e_def)
    also have "\<dots> \<le> of_nat (2 ^ 43)" using assms(7) by (simp only: of_nat_le_iff)
    finally show "e * L \<le> 2 ^ 43" by simp
  qed
  note R = fraction_rel [OF disjI2 [OF A(1)] A(2) d(1) assms(4) d(2,3)]
  have num: "f64_of_int (uint (c * cpu_cores st * 1000)) = Fin A"
    unfolding A_def using assms(1,3,6) n43(1) by (rule cpu_product)
  have "f64_of_int (uint d) = Fin e" using f64_of_nat [OF n43(2)] by (simp only: uint_nat e_def of_int_of_nat_eq)
  then have den: "fmul (f64_of_int (uint d)) (cpu_limit st) = Fin (rne (e * rne L))"
    using R(1) by (simp only: assms(2) fmul.simps)
  have q: "fdiv (Fin A) (Fin (rne (e * rne L))) = Fin (rne (A / rne (e * rne L)))"
    using R(2,4) by (simp add: fdiv_Fin)
  have b: "0 \<le> rne (A / rne (e * rne L))" "rne (A / rne (e * rne L)) \<le> 2 ^ 62"
  proof -
    show "0 \<le> rne (A / rne (e * rne L))" using A R(2) by (intro rne_nonneg) simp
    have "rne (A / rne (e * rne L)) \<le> 2 ^ 61" using repr_pow R(3) by (rule rne_le)
    then show "rne (A / rne (e * rne L)) \<le> 2 ^ 62" by simp
  qed
  define W where "W = f64_to_u64 (Fin (rne (A / rne (e * rne L))))"
  have W: "unat W = nat \<lfloor>rne (A / rne (e * rne L))\<rfloor>" unfolding W_def using b by (rule f64_to_u64_floor(2))
  have "cpu_fraction c d st = (if 1000 < W then 1000 else W)"
    unfolding cpu_fraction_def num den q W_def [symmetric] using assms(8,9) by simp
  then show "unat (cpu_fraction c d st) = min 1000 (nat \<lfloor>rne (of_nat (unat c * n * 1000) / rne (of_nat (unat d) * rne L))\<rfloor>)"
    unfolding A_def [symmetric] e_def [symmetric] W [symmetric] by (simp add: word_less_nat_alt min_def)
  show "\<bar>rne (of_nat (unat c * n * 1000) / rne (of_nat (unat d) * rne L)) - of_nat (unat c * n * 1000) / (of_nat (unat d) * L)\<bar>
      \<le> of_nat (unat c * n * 1000) / (of_nat (unat d) * L) * pow2 (- 50)"
    using R(5) unfolding A_def e_def .
qed

lemma floors_near:
  assumes "0 \<le> x" "\<bar>y - x\<bar> \<le> x * pow2 (- 50)"
  shows "min 1000 (nat \<lfloor>y\<rfloor>) \<le> min 1000 (nat \<lfloor>x\<rfloor>) + 1" "min 1000 (nat \<lfloor>x\<rfloor>) \<le> min 1000 (nat \<lfloor>y\<rfloor>) + 1"
proof -
  have p: "0 < pow2 (- 50)" "pow2 (- 50) \<le> 1 / 4000" by (simp_all add: pow2_def power_int_minus)
  show "min 1000 (nat \<lfloor>y\<rfloor>) \<le> min 1000 (nat \<lfloor>x\<rfloor>) + 1" "min 1000 (nat \<lfloor>x\<rfloor>) \<le> min 1000 (nat \<lfloor>y\<rfloor>) + 1"
  proof -
    have "min 1000 (nat \<lfloor>y\<rfloor>) \<le> min 1000 (nat \<lfloor>x\<rfloor>) + 1 \<and> min 1000 (nat \<lfloor>x\<rfloor>) \<le> min 1000 (nat \<lfloor>y\<rfloor>) + 1"
    proof (cases "x \<le> 2000")
      case True
      have "x * pow2 (- 50) \<le> 2000 * (1 / 4000)" using True assms(1) p by (intro mult_mono) simp_all
      with assms(2) have "y \<le> x + 1 / 2" "x \<le> y + 1 / 2" by (simp_all add: abs_le_iff)
      then have "\<lfloor>y\<rfloor> \<le> \<lfloor>x\<rfloor> + 1" "\<lfloor>x\<rfloor> \<le> \<lfloor>y\<rfloor> + 1" by linarith+
      then show ?thesis by auto
    next
      case False
      have "x * pow2 (- 50) \<le> x * (1 / 4000)" using assms(1) p by (intro mult_left_mono)
      then have "1000 \<le> y" using False assms(2) unfolding abs_le_iff by linarith
      then have "1000 \<le> \<lfloor>y\<rfloor>" "1000 \<le> \<lfloor>x\<rfloor>" using False by (simp_all add: le_floor_iff)
      from this [THEN nat_mono] have "1000 \<le> nat \<lfloor>y\<rfloor>" "1000 \<le> nat \<lfloor>x\<rfloor>" by simp_all
      then show ?thesis by (simp add: min_absorb1)
    qed
    then show "min 1000 (nat \<lfloor>y\<rfloor>) \<le> min 1000 (nat \<lfloor>x\<rfloor>) + 1" "min 1000 (nat \<lfloor>x\<rfloor>) \<le> min 1000 (nat \<lfloor>y\<rfloor>) + 1" by simp_all
  qed
qed

lemma cpu_fraction_zero: "\<not> (0 < c \<and> 0 < d) \<Longrightarrow> cpu_fraction c d st = 0 \<and> (unat c = 0 \<or> unat d = 0)"
  by (auto simp: cpu_fraction_def word_gt_0)

lemma cpu_fraction_near:
  assumes "cpu_cores st = of_nat n" "cpu_limit st = Fin (rne L)" "0 < n"
    and "1 / 100 \<le> L" "L \<le> of_nat n" "unat c * n * 1000 \<le> 2 ^ 53" "unat d * n \<le> 2 ^ 43"
  defines "x \<equiv> of_nat (unat c * n * 1000) / (of_nat (unat d) * L)"
  shows "unat (cpu_fraction c d st) \<le> min 1000 (nat \<lfloor>x\<rfloor>) + 1" "min 1000 (nat \<lfloor>x\<rfloor>) \<le> unat (cpu_fraction c d st) + 1"
proof -
  have x0: "0 \<le> x" using assms(4) unfolding x_def by (intro divide_nonneg_nonneg mult_nonneg_nonneg of_nat_0_le_iff) simp
  have "unat (cpu_fraction c d st) \<le> min 1000 (nat \<lfloor>x\<rfloor>) + 1 \<and> min 1000 (nat \<lfloor>x\<rfloor>) \<le> unat (cpu_fraction c d st) + 1"
  proof (cases "0 < c \<and> 0 < d")
    case True
    note r = cpu_fraction_rounded [OF assms(1-7)]
    show ?thesis using r(1) floors_near [OF x0] r(2) [folded x_def] True by simp
  next
    case False
    from cpu_fraction_zero [OF this, of st] have "cpu_fraction c d st = 0" "x = 0"
      unfolding x_def by (elim conjE disjE; simp del: of_nat_unat)+
    then show ?thesis by simp
  qed
  then show "unat (cpu_fraction c d st) \<le> min 1000 (nat \<lfloor>x\<rfloor>) + 1" "min 1000 (nat \<lfloor>x\<rfloor>) \<le> unat (cpu_fraction c d st) + 1"
    by simp_all
qed

text \<open>With a limit of whole CPUs there is no error at all.\<close>

lemma cpu_fraction_exact:
  assumes "cpu_cores st = of_nat n" "cpu_limit st = Fin (of_nat k)" "0 < k" "k \<le> n"
    and "unat c * n * 1000 \<le> 2 ^ 53" "unat d * n \<le> 2 ^ 43"
  shows "unat (cpu_fraction c d st) = min 1000 (unat c * n * 1000 div (unat d * k))"
proof (cases "0 < c \<and> 0 < d")
  case False
  from cpu_fraction_zero [OF this, of st] show ?thesis by auto
next
  case True
  then have pos: "0 < unat c" "0 < unat d" by (simp_all add: word_gt_0 unat_gt_0)
  define A where "A = int (unat c * n * 1000)"
  define B where "B = int (unat d * k)"
  have "unat d * k \<le> unat d * n" using assms(4) by simp
  then have dk: "unat d * k \<le> 2 ^ 43" using assms(6) by (rule order_trans)
  have "k \<le> unat d * k" using pos by simp
  then have k43: "k \<le> 2 ^ 43" using dk by (rule order_trans)
  have rep: "rne (of_nat m) = of_nat m" if "m \<le> 2 ^ 43" for m
    using rne_repr [OF repr_of_int [of "int m"]] that by simp
  have ab: "0 \<le> A" "0 < B" "B \<le> 2 ^ 43"
  proof -
    show "0 \<le> A" by (simp add: A_def)
    have "0 < unat d * k" using pos assms(3) by simp
    then show "0 < B" unfolding B_def of_nat_0_less_iff .
    have "B \<le> int (2 ^ 43)" using dk unfolding B_def of_nat_le_iff .
    then show "B \<le> 2 ^ 43" by simp
  qed
  have D: "rne (of_nat (unat d) * rne (of_nat k)) = of_int B"
    using rep [OF dk] unfolding rep [OF k43] by (simp add: B_def)
  have L: "cpu_limit st = Fin (rne (of_nat k))" using assms(2) rep [OF k43] by simp
  have u: "unat (cpu_fraction c d st) = min 1000 (nat \<lfloor>rne (of_int A / of_int B)\<rfloor>)"
    using cpu_fraction_rounded(1) [OF assms(1) L _ _ _ assms(5,6)] assms(3,4) True unfolding D by (simp add: A_def)
  have div: "nat (A div B) = unat c * n * 1000 div (unat d * k)" by (simp only: A_def B_def nat_int flip: zdiv_int)
  show ?thesis
  proof (cases "A div B < 1000")
    case True
    then show ?thesis using rne_quotient_floor [OF ab True] div u by simp
  next
    case False
    then have "1000 \<le> rne (of_int A / of_int B)" using ab by (intro rne_quotient_big) simp_all
    then have "1000 \<le> \<lfloor>rne (of_int A / of_int B)\<rfloor>" by (simp add: le_floor_iff)
    from nat_mono [OF this] have "1000 \<le> nat \<lfloor>rne (of_int A / of_int B)\<rfloor>" by simp
    moreover have "1000 \<le> unat c * n * 1000 div (unat d * k)" using False div by (metis linorder_not_less nat_mono nat_numeral)
    ultimately show ?thesis unfolding u by (simp only: min_absorb1)
  qed
qed

end
