(* ===== verification/CpuMachine.thy ===== *)
theory CpuMachine
  imports CpuLinux
begin

text \<open>
  From the text of the kernel's files to the reading: an abstract machine is the CPU list of
  its cgroup, the cgroup's CPU time, the machine's tick counters and the cgroup's quota if it has
  one, printed the way a cgroup v2 kernel prints them. The concrete reader, run on the files,
  computes what the abstract one does on the numbers, up to the rounding of a fractional quota.
\<close>

record machine =
  m_cpus :: "(nat \<times> nat) list"
  m_usec :: nat
  m_ticks :: "nat list"
  m_quota :: "(nat \<times> nat) option"

text \<open>\<open>cpu.max\<close>: no quota, or microseconds of CPU time per period of microseconds.\<close>

definition quota_words :: "machine \<Rightarrow> string list" where
  "quota_words m = (case m_quota m of None \<Rightarrow> [''max'', ''100000''] | Some (q, p) \<Rightarrow> [show_nat q, show_nat p])"

definition machine_files :: "machine \<Rightarrow> string \<Rightarrow> string option" where
  "machine_files m f =
     (if f = cpu_stat_file
      then Some (print_lines [[''usage_usec'', show_nat (m_usec m)], [''nr_periods'', ''0'']])
      else if f = proc_stat
      then Some (print_lines [''cpu'' # List.map show_nat (m_ticks m), [''ctxt'', ''1990473'']])
      else if f = cpuset_file then Some (print_cpus (m_cpus m) @ [CHR 0x0A])
      else if f = cpu_max_file then Some (print_lines [quota_words m])
      else None)"

definition machine_sys :: "machine \<Rightarrow> sys" where
  "machine_sys m = \<lparr>read_file = machine_files m, stat_ok = (\<lambda>_. True), pid = 1\<rparr>"

definition cpu_count :: "machine \<Rightarrow> nat" where
  "cpu_count m = card (\<Union>r \<in> set (m_cpus m). {fst r..snd r})"

text \<open>The nanoseconds of CPU time of the cgroup, and of the machine (seven counters of 10 ms).\<close>

definition cgroup_ns :: "machine \<Rightarrow> nat" where
  "cgroup_ns m = m_usec m * 1000"

definition machine_ns :: "machine \<Rightarrow> nat" where
  "machine_ns m = sum_list (take 7 (m_ticks m)) * 10000000"

text \<open>
  The CPUs the cgroup may use at once: its CPUs, or its quota when that is less; a fraction of a
  CPU when the quota is one.
\<close>

definition cpu_share :: "machine \<Rightarrow> rat" where
  "cpu_share m = (case m_quota m of None \<Rightarrow> of_nat (cpu_count m)
     | Some (q, p) \<Rightarrow> min (of_nat (cpu_count m)) (of_nat q / of_nat p))"

definition whole_share :: "machine \<Rightarrow> bool" where
  "whole_share m \<longleftrightarrow> (case m_quota m of None \<Rightarrow> True | Some (q, p) \<Rightarrow> p dvd q)"

text \<open>
  The counters fit: the kernel prints ten columns, the products below stay in 64 bits, and a
  quota is at least a hundredth of a CPU.
\<close>

definition machine_ok :: "machine \<Rightarrow> bool" where
  "machine_ok m \<longleftrightarrow> m_cpus m \<noteq> [] \<and> list_all range_ok (m_cpus m)
     \<and> 7 \<le> length (m_ticks m) \<and> length (m_ticks m) \<le> 10
     \<and> (case m_quota m of None \<Rightarrow> True | Some (q, p) \<Rightarrow> 0 < p \<and> p \<le> 100 * q \<and> q \<le> 2 ^ 53 \<and> p \<le> 2 ^ 53)
     \<and> m_usec m * 1000 < 2 ^ 63 \<and> sum_list (m_ticks m) * 1000000000 < 2 ^ 64"

subsection \<open>The files, read\<close>

lemma files_ne: "proc_stat \<noteq> cpu_stat_file" "cpuset_file \<noteq> cpu_stat_file" "cpuset_file \<noteq> proc_stat"
  "cpu_max_file \<noteq> cpu_stat_file" "cpu_max_file \<noteq> proc_stat" "cpu_max_file \<noteq> cpuset_file"
  by code_simp+

lemma read_lines_print:
  assumes "read_file sys f = Some (print_lines wss)" "list_all line_ok wss"
  shows "read_lines sys f = Inr (List.map print_line wss)"
proof -
  have "List.map trim_space (List.map print_line wss) = List.map print_line wss"
    using assms(2) by (auto simp: list_all_iff trim_print_line)
  moreover have "\<forall>l \<in> set (List.map print_line wss). l \<noteq> []"
    using assms(2) print_line_ne by (auto simp: list_all_iff)
  ultimately show ?thesis using assms by (simp add: read_lines_def scan_print_lines)
qed

lemma numbers_ok: "\<forall>n \<in> set ns. n < 10 ^ 20 \<Longrightarrow> length ns \<le> 10 \<Longrightarrow> is_field w \<Longrightarrow> length w \<le> 1000 \<Longrightarrow>
  line_ok (w # List.map show_nat ns)"
proof -
  assume a: "\<forall>n \<in> set ns. n < 10 ^ 20" "length ns \<le> 10" "is_field w" "length w \<le> 1000"
  have "length (show_nat n) + 1 \<le> 21" if "n \<in> set ns" for n
    using show_nat_length [of n 20] a(1) that by simp
  then have "sum_list (List.map (\<lambda>n. length (show_nat n) + 1) ns) \<le> sum_list (List.map (\<lambda>_. 21) ns)"
    by (rule sum_list_mono)
  also have "\<dots> \<le> 210" using a(2) by (simp add: sum_list_triv)
  finally have "sum_list (List.map (\<lambda>n. length (show_nat n) + 1) ns) \<le> 210" .
  then have "sum_list (List.map (\<lambda>v. length v + 1) (w # List.map show_nat ns)) \<le> 1211"
    using a(4) by (simp add: comp_def)
  with length_join [of "CHR '' ''" "w # List.map show_nat ns"]
  have "length (print_line (w # List.map show_nat ns)) < max_scan_line"
    by (simp add: print_line_def max_scan_line_def)
  then show ?thesis using a(3) by (simp add: line_ok_def list_all_iff show_nat_field)
qed

lemma member_le_sum: "n \<in> set ns \<Longrightarrow> n \<le> sum_list (ns :: nat list)"
  by (induction ns) auto

lemma of_nat_div_word: "a < 2 ^ 64 \<Longrightarrow> b < 2 ^ 64 \<Longrightarrow> (of_nat a :: 64 word) div of_nat b = of_nat (a div b)"
proof -
  assume "a < 2 ^ 64" "b < 2 ^ 64"
  then have "unat (of_nat a :: 64 word) = a" "unat (of_nat b :: 64 word) = b"
    by (simp_all add: unsigned_of_nat take_bit_nat_eq_self)
  then show ?thesis by (simp only: word_arith_nat_div)
qed

lemma words_ok: "line_ok [''nr_periods'', ''0'']" "line_ok [''ctxt'', ''1990473'']" "line_ok [''max'', ''100000'']"
  "is_field ''usage_usec''" "is_field ''cpu''" "is_field ''max''" "is_field ''100000''"
  by (simp_all add: line_ok_def is_field_def is_space_def print_line_def max_scan_line_def)

lemma machine_current:
  assumes "machine_ok m"
  shows "current_cgroup_v2 (machine_sys m) =
    Inr (CgroupV2 [''usage_usec'' \<mapsto> show_nat (m_usec m), ''nr_periods'' \<mapsto> ''0''])"
proof -
  have "line_ok (''usage_usec'' # List.map show_nat [m_usec m])"
    using assms by (intro numbers_ok) (simp_all add: machine_ok_def words_ok)
  then have ok: "list_all line_ok [[''usage_usec'', show_nat (m_usec m)], [''nr_periods'', ''0'']]"
    by (simp add: words_ok)
  have "read_lines (machine_sys m) cpu_stat_file =
      Inr [print_line [''usage_usec'', show_nat (m_usec m)], print_line [''nr_periods'', ''0'']]"
    using read_lines_print [of "machine_sys m" cpu_stat_file, OF _ ok]
    by (simp add: machine_sys_def machine_files_def)
  then show ?thesis using ok by (simp add: current_cgroup_v2_def fields_print_line)
qed

lemma machine_usage:
  assumes "machine_ok m"
  shows "v2_cpu_usage [''usage_usec'' \<mapsto> show_nat (m_usec m), ''nr_periods'' \<mapsto> ''0''] = Inr (of_nat (cgroup_ns m))"
proof -
  have "int (m_usec m) \<le> i64_max" using assms by (simp add: machine_ok_def)
  then show ?thesis by (simp add: v2_cpu_usage_def map_get_def parse_uint_show cgroup_ns_def)
qed

lemma sum_ticks_show:
  "\<forall>n \<in> set ns. int n \<le> i64_max \<Longrightarrow> sum_ticks (List.map show_nat ns) acc = Inr (acc + of_nat (sum_list ns))"
  by (induction ns arbitrary: acc) (simp_all add: parse_uint_show add.assoc)

lemma machine_system:
  assumes "machine_ok m"
  shows "system_cpu_usage (machine_sys m) = Inr (of_nat (machine_ns m))"
proof -
  have le: "n \<le> sum_list (m_ticks m)" if "n \<in> set (m_ticks m)" for n using that by (rule member_le_sum)
  have s: "sum_list (m_ticks m) * 1000000000 < 2 ^ 64" using assms by (simp add: machine_ok_def)
  have n20: "\<forall>n \<in> set (m_ticks m). n < 10 ^ 20" using le s by fastforce
  have i64: "\<forall>n \<in> set (m_ticks m). int n \<le> i64_max" using le s by fastforce
  have "line_ok (''cpu'' # List.map show_nat (m_ticks m))"
    using n20 assms by (intro numbers_ok) (simp_all add: words_ok machine_ok_def)
  then have ok: "list_all line_ok [''cpu'' # List.map show_nat (m_ticks m), [''ctxt'', ''1990473'']]"
    by (simp add: words_ok)
  have "read_lines (machine_sys m) proc_stat =
      Inr [print_line (''cpu'' # List.map show_nat (m_ticks m)), print_line [''ctxt'', ''1990473'']]"
    using read_lines_print [of "machine_sys m" proc_stat, OF _ ok] files_ne
    by (simp add: machine_sys_def machine_files_def)
  moreover have "\<forall>n \<in> set (take 7 (m_ticks m)). int n \<le> i64_max" using i64 by (blast dest: in_set_takeD)
  from sum_ticks_show [OF this, of 0]
  have "sum_ticks (take 7 (List.map show_nat (m_ticks m))) 0 = Inr (of_nat (sum_list (take 7 (m_ticks m))))"
    by (simp only: take_map add_0)
  moreover have "of_nat (sum_list (take 7 (m_ticks m))) * 1000000000 div (100 :: 64 word) = of_nat (machine_ns m)"
  proof -
    define t where "t = sum_list (take 7 (m_ticks m)) * 1000000000"
    have "sum_list (take 7 (m_ticks m)) \<le> sum_list (m_ticks m)"
      by (metis append_take_drop_id le_add1 sum_list_append)
    then have "t \<le> sum_list (m_ticks m) * 1000000000" unfolding t_def by (rule mult_le_mono1)
    then have "t < 2 ^ 64" using s by (rule le_less_trans)
    moreover have "(100 :: nat) < 2 ^ 64" by simp
    ultimately have "(of_nat t :: 64 word) div of_nat 100 = of_nat (t div 100)" by (rule of_nat_div_word)
    moreover have "t div 100 = machine_ns m" by (simp add: machine_ns_def t_def)
    moreover have "(of_nat t :: 64 word) = of_nat (sum_list (take 7 (m_ticks m))) * 1000000000"
      by (simp only: t_def of_nat_mult of_nat_numeral)
    ultimately show ?thesis by (simp only: of_nat_numeral)
  qed
  ultimately show ?thesis using ok assms
    by (simp add: system_cpu_usage_def fields_print_line machine_ok_def)
qed

subsection \<open>The abstract reading\<close>

lemma trim_space_end:
  assumes "s \<noteq> []" "\<not> is_space (hd s)" "\<not> is_space (last s)" "is_space c"
  shows "trim_space (s @ [c]) = s"
proof -
  have "dropWhile is_space (s @ [c]) = s @ [c]" using assms(1,2) by (cases s) simp_all
  moreover have "dropWhile is_space (rev s) = rev s" using assms(1,3) by (cases s rule: rev_cases) simp_all
  ultimately show ?thesis using assms(4) by (simp add: trim_space_def)
qed

lemma print_cpus_field: "rs \<noteq> [] \<Longrightarrow> is_field (print_cpus rs)"
proof -
  assume ne: "rs \<noteq> []"
  have sep: "\<not> is_space CHR ''-''" "\<not> is_space CHR '',''" by (simp_all add: is_space_def)
  have "is_field (print_range r)" for r
    using show_nat_field sep by (auto simp: print_range_def is_field_def)
  then have "list_all (\<lambda>c. \<not> is_space c) w" if "w \<in> set (List.map print_range rs)" for w
    using that by (auto simp: is_field_def)
  then have "list_all (\<lambda>c. \<not> is_space c) (print_cpus rs)"
    using set_join [of "CHR '',''" "List.map print_range rs"] sep unfolding print_cpus_def list_all_iff by blast
  moreover have "print_cpus rs \<noteq> []"
    using ne by (cases rs rule: remdups_adj.cases) (auto simp: print_cpus_def print_range_def)
  ultimately show ?thesis by (simp add: is_field_def)
qed

lemma machine_cpus:
  assumes "machine_ok m"
  shows "v2_effective_cpus (machine_sys m) = Some (Inr (cpu_count m))"
proof -
  have m: "m_cpus m \<noteq> []" "\<forall>r \<in> set (m_cpus m). range_ok r" using assms by (simp_all add: machine_ok_def list_all_iff)
  have "trim_space (print_cpus (m_cpus m) @ [CHR 0x0A]) = print_cpus (m_cpus m)"
    using is_field_ends [OF print_cpus_field [OF m(1)]] by (intro trim_space_end) (simp_all add: is_space_def)
  then have "read_text (machine_sys m) cpuset_file = Inr (print_cpus (m_cpus m))"
    using files_ne by (simp add: read_text_def machine_sys_def machine_files_def)
  with parse_uints_count [OF m] show ?thesis by (auto simp: v2_effective_cpus_def cpu_count_def)
qed

definition quota_read :: "machine \<Rightarrow> f64" where
  "quota_read m = (case m_quota m of None \<Rightarrow> f64_of_int (-1) | Some (q, p) \<Rightarrow> Fin (rne (of_nat q / of_nat p)))"

lemma quota_line: "machine_ok m \<Longrightarrow> line_ok (quota_words m)"
proof (cases "m_quota m")
  case (Some qp)
  assume ok: "machine_ok m"
  obtain q p where qp: "qp = (q, p)" by (cases qp)
  have n: "q < 10 ^ 20" "p < 10 ^ 20" using ok Some qp by (auto simp: machine_ok_def)
  then have "length (show_nat q) \<le> 20" "length (show_nat p) \<le> 20" by (simp_all add: show_nat_length)
  then show ?thesis using Some qp
    by (simp add: quota_words_def line_ok_def show_nat_field print_line_def max_scan_line_def)
qed (simp add: quota_words_def words_ok)

lemma machine_quota:
  assumes "machine_ok m"
  shows "v2_cpu_quota (machine_sys m) = Inr (quota_read m)"
proof -
  note l = quota_line [OF assms]
  have "list_all is_field (quota_words m)" "quota_words m \<noteq> []" using l by (simp_all add: line_ok_def)
  then have e: "print_line (quota_words m) \<noteq> [] \<and> \<not> is_space (hd (print_line (quota_words m)))
      \<and> \<not> is_space (last (print_line (quota_words m)))"
  proof -
    have f: "is_field (hd (quota_words m))" "is_field (last (quota_words m))" "[] \<notin> set (quota_words m)"
      using \<open>list_all is_field (quota_words m)\<close> \<open>quota_words m \<noteq> []\<close> by (auto simp: list_all_iff is_field_def)
    show ?thesis
      using join_with_ends [OF \<open>quota_words m \<noteq> []\<close> f(3), of "CHR '' ''"] is_field_ends [OF f(1)] is_field_ends [OF f(2)]
      by (simp add: print_line_def)
  qed
  then have "trim_space (print_line (quota_words m) @ [CHR 0x0A]) = print_line (quota_words m)"
    by (intro trim_space_end) (simp_all add: is_space_def)
  then have "read_text (machine_sys m) cpu_max_file = Inr (print_line (quota_words m))"
    using files_ne by (simp add: read_text_def machine_sys_def machine_files_def print_lines_def)
  then have v: "v2_cpu_quota (machine_sys m) = (let fs = quota_words m in
      if length fs \<noteq> 2 then Inl (BadCpuMax (print_line fs)) else if fs ! 0 = ''max'' then Inr (f64_of_int (-1))
      else case strconv_parse_int (fs ! 0) of Inl e \<Rightarrow> Inl (NumError e)
        | Inr quota_us \<Rightarrow> (case strconv_parse_uint (fs ! 1) of Inl e \<Rightarrow> Inl (NumError e)
            | Inr period_us \<Rightarrow> Inr (fdiv (f64_of_int quota_us) (f64_of_int period_us))))"
    by (simp add: v2_cpu_quota_def fields_print_line [OF l] Let_def)
  show ?thesis
  proof (cases "m_quota m")
    case None
    then show ?thesis unfolding v by (simp add: quota_words_def quota_read_def)
  next
    case (Some qp)
    obtain q p where qp: "qp = (q, p)" by (cases qp)
    have b: "0 < p" "q \<le> 2 ^ 53" "p \<le> 2 ^ 53" using assms Some qp by (simp_all add: machine_ok_def)
    have nm: "show_nat q \<noteq> ''max''"
    proof
      assume "show_nat q = ''max''"
      then have "CHR ''m'' \<in> set (show_nat q)" by simp
      then obtain d where "d < 10" "CHR ''m'' = digit_char d" using show_nat_digits by blast
      then have "digit_val CHR ''m'' = Some (int d)" by simp
      then show False by (simp add: digit_val_def)
    qed
    have "f64_of_int (int q) = Fin (of_nat q)" "f64_of_int (int p) = Fin (of_nat p)"
      using f64_of_int_exact [of "int q"] f64_of_int_exact [of "int p"] b by simp_all
    moreover have "rnd (of_nat q / of_nat p) = Fin (rne (of_nat q / of_nat p))"
    proof (rule rnd_eq(1))
      show "f64_bounds 0 (2 ^ 53)" by (rule f64_bounds_pow) simp
      have "(of_nat q :: rat) \<le> of_nat (2 ^ 53)" "of_nat 1 \<le> (of_nat p :: rat)" using b unfolding of_nat_le_iff by simp_all
      then have "(of_nat q / of_nat p :: rat) \<le> 2 ^ 53 / 1" by (intro frac_le) simp_all
      then show "(of_nat q / of_nat p :: rat) \<le> 2 ^ 53" by simp
    qed simp
    ultimately show ?thesis unfolding v
      using b nm Some qp by (simp add: quota_words_def quota_read_def strconv_parse_int_show strconv_parse_uint_show)
  qed
qed

lemma machine_uses_v2: "unified st = None \<or> unified st = Some True \<Longrightarrow> uses_v2 (machine_sys m) st"
  by (auto simp: uses_v2_def is_cgroup2_unified_def machine_sys_def Let_def)

lemma machine_cgroup:
  assumes "machine_ok m" "unified st = None \<or> unified st = Some True"
  shows "fst (cgroup_cpu_usage (machine_sys m) st) = Inr (of_nat (cgroup_ns m))"
    "fst (cgroup_cpu_quota (machine_sys m) st) = Inr (quota_read m)"
    "fst (cgroup_effective_cpus (machine_sys m) st) = Some (Inr (cpu_count m))"
  using machine_current [OF assms(1)] machine_usage [OF assms(1)] machine_quota [OF assms(1)] machine_cpus [OF assms(1)]
    machine_uses_v2 [OF assms(2)]
  by (simp_all add: cgroup_cpu_usage_def cgroup_cpu_quota_def cgroup_effective_cpus_def current_cgroup_def is_unified_eq)

text \<open>The state after looking at a machine, and what the first look sets up.\<close>

definition limit_read :: "machine \<Rightarrow> f64" where
  "limit_read m = cpu_limit (with_quota (Inr (quota_read m)) (with_cpus (cpu_count m) cpu_state0))"

definition tracks :: "machine \<Rightarrow> machine \<Rightarrow> cpu_state \<Rightarrow> bool" where
  "tracks m0 m st \<longleftrightarrow> init_done st \<and> \<not> no_cgroup st \<and> unified st = Some True
     \<and> cpu_cores st = of_nat (cpu_count m0) \<and> cpu_limit st = limit_read m0
     \<and> pre_total st = of_nat (cgroup_ns m) \<and> pre_system st = of_nat (machine_ns m)"

lemma with_quota_limit: "cpu_limit (with_quota q (with_cpus n st)) = cpu_limit (with_quota q (with_cpus n cpu_state0))"
  and with_quota_cores: "cpu_cores (with_quota q st) = cpu_cores st"
  by (simp_all add: with_quota_def with_cpus_def split: sum.split)

lemma machine_init:
  assumes "machine_ok m"
  shows "\<exists>st. cpu_initialize (machine_sys m) cpu_state0 = Some (True, st)
    \<and> tracks m m (st\<lparr>init_done := True, no_cgroup := no_cgroup st \<or> \<not> True\<rparr>)"
proof -
  have z: "unified cpu_state0 = None" "no_cgroup cpu_state0 = False" by (simp_all add: cpu_state0_def)
  have u: "uses_v2 (machine_sys m) cpu_state0" using z by (intro machine_uses_v2) simp
  have k: "uses_v2 (machine_sys m) st" if "unified st = Some True" for st
    using that by (intro machine_uses_v2) simp
  have c: "cpu_cores (with_cpus n st) = of_nat n" for n st by (simp add: with_cpus_def)
  show ?thesis
    using machine_cgroup [OF assms] machine_system [OF assms] z u k
      with_quota_limit [of "Inr (quota_read m)" "cpu_count m" "detected (machine_sys m) cpu_state0"]
    by (simp add: cpu_initialize_eq Let_def tracks_def limit_read_def detected_known with_quota_cores c)
qed

lemma machine_refresh:
  assumes "tracks m0 m st" "machine_ok m'"
  shows "refresh_cpu (machine_sys m') st =
    Some (cpu_fraction (of_nat (cgroup_ns m') - of_nat (cgroup_ns m)) (of_nat (machine_ns m') - of_nat (machine_ns m)) st,
      st\<lparr>pre_system := of_nat (machine_ns m'), pre_total := of_nat (cgroup_ns m')\<rparr>)"
  using assms(1) machine_cgroup(1) [OF assms(2), of st] machine_system [OF assms(2)]
  by (simp add: tracks_def refresh_eq detected_known)

lemma tracks_step: "tracks m0 m st \<Longrightarrow> tracks m0 m' (st\<lparr>pre_system := of_nat (machine_ns m'), pre_total := of_nat (cgroup_ns m')\<rparr>)"
  by (simp add: tracks_def)

subsection \<open>The limit that was read\<close>

lemma share_bounds:
  assumes "machine_ok m" "0 < cpu_count m"
  shows "1 / 100 \<le> cpu_share m" "cpu_share m \<le> of_nat (cpu_count m)"
proof -
  have n: "(1 :: rat) \<le> of_nat (cpu_count m)" using assms(2) by simp
  have "1 / 100 \<le> (of_nat q / of_nat p :: rat)" if "m_quota m = Some (q, p)" for q p
  proof -
    have "0 < p" "p \<le> 100 * q" using assms(1) that by (simp_all add: machine_ok_def)
    then have "(of_nat p :: rat) \<le> of_nat (100 * q)" "0 < (of_nat p :: rat)" by (simp_all only: of_nat_le_iff of_nat_0_less_iff)
    then show ?thesis by (simp add: field_simps)
  qed
  with n show "1 / 100 \<le> cpu_share m" "cpu_share m \<le> of_nat (cpu_count m)"
    by (auto simp: cpu_share_def split: option.split)
qed

lemma limit_read_share:
  assumes "machine_ok m" "0 < cpu_count m" "cpu_count m \<le> 2 ^ 53"
  shows "limit_read m = Fin (rne (cpu_share m))"
proof -
  have n: "f64_of_int (int (cpu_count m)) = Fin (of_nat (cpu_count m))" "rne (of_nat (cpu_count m)) = of_nat (cpu_count m)"
    using f64_of_int_exact [of "int (cpu_count m)"] rne_repr [OF repr_of_int [of "int (cpu_count m)"]] assms(3) by simp_all
  show ?thesis
  proof (cases "m_quota m")
    case None
    have "f64_of_int (-1) = Fin (-1)" by (subst f64_of_int_exact) simp_all
    with None n show ?thesis by (simp add: limit_read_def with_quota_def with_cpus_def quota_read_def cpu_share_def)
  next
    case (Some qp)
    obtain q p where qp: "qp = (q, p)" by (cases qp)
    let ?x = "of_nat q / of_nat p :: rat"
    have "1 / 100 \<le> ?x" using share_bounds(1) [OF assms(1,2)] Some qp by (simp add: cpu_share_def)
    then have "pow2 (- 7) \<le> rne ?x" by (intro rne_ge repr_pow2) (simp_all add: pow2_def power_int_minus)
    then have pos: "0 < rne ?x" using pow2_pos [of "- 7"] by linarith
    have "rne (min (of_nat (cpu_count m)) ?x) = min (of_nat (cpu_count m)) (rne ?x)"
      using rne_mono [of "of_nat (cpu_count m)" ?x] rne_mono [of ?x "of_nat (cpu_count m)"] n(2)
      by (cases "of_nat (cpu_count m) \<le> ?x") (simp_all add: min_def)
    then show ?thesis using Some qp n pos
      by (auto simp: limit_read_def with_quota_def with_cpus_def quota_read_def cpu_share_def min_def)
  qed
qed

lemma whole_share_nat:
  assumes "machine_ok m" "0 < cpu_count m" "whole_share m"
  obtains k where "cpu_share m = of_nat k" "0 < k" "k \<le> cpu_count m"
proof (cases "m_quota m")
  case None
  then show thesis using that [of "cpu_count m"] assms(2) by (simp add: cpu_share_def)
next
  case (Some qp)
  obtain q p where qp: "qp = (q, p)" by (cases qp)
  have p: "0 < p" "p \<le> 100 * q" "p dvd q" using assms(1,3) Some qp by (simp_all add: machine_ok_def whole_share_def)
  then have "p \<le> q" by (intro dvd_imp_le) auto
  then have "0 < q div p" using p(1) by (simp add: div_greater_zero_iff)
  moreover obtain r where r: "q = p * r" using p(3) by (rule dvdE)
  then have "(of_nat q / of_nat p :: rat) = of_nat (q div p)" using p(1) by simp
  then have "cpu_share m = of_nat (min (cpu_count m) (q div p))" using Some qp by (simp add: cpu_share_def of_nat_min)
  ultimately show thesis using that [of "min (cpu_count m) (q div p)"] assms(2) by simp
qed

text \<open>
  The first refresh, and then each one: the abstract reading between two machines is the CPU
  time of the cgroup in thousandths of what it may use, where of the CPU time of a machine of
  \<open>n\<close> CPUs a cgroup may use \<open>cpu_share / n\<close>, as read at the start.
\<close>

definition spec_usage :: "machine \<Rightarrow> machine \<Rightarrow> machine \<Rightarrow> nat" where
  "spec_usage m0 m m' = min 1000 (nat \<lfloor>of_nat ((cgroup_ns m' - cgroup_ns m) * cpu_count m0 * 1000)
     / (of_nat (machine_ns m' - machine_ns m) * cpu_share m0)\<rfloor>)"

definition close_by :: "nat \<Rightarrow> machine \<Rightarrow> machine \<Rightarrow> bool" where
  "close_by n m m' \<longleftrightarrow> cgroup_ns m \<le> cgroup_ns m' \<and> machine_ns m \<le> machine_ns m'
     \<and> (cgroup_ns m' - cgroup_ns m) * n * 1000 \<le> 2 ^ 53 \<and> (machine_ns m' - machine_ns m) * n \<le> 2 ^ 43"

lemma spec_usage_whole:
  "cpu_share m0 = of_nat k \<Longrightarrow> spec_usage m0 m m' =
    min 1000 ((cgroup_ns m' - cgroup_ns m) * cpu_count m0 * 1000 div ((machine_ns m' - machine_ns m) * k))"
  by (simp only: spec_usage_def floor_divide_of_nat_eq nat_int flip: of_nat_mult)

lemma spec_usage_no_quota:
  assumes "m_quota m0 = None" "0 < cpu_count m0"
  shows "spec_usage m0 m m' = min 1000 ((cgroup_ns m' - cgroup_ns m) * 1000 div (machine_ns m' - machine_ns m))"
proof -
  have "cpu_share m0 = of_nat (cpu_count m0)" using assms(1) by (simp add: cpu_share_def)
  note w = spec_usage_whole [OF this, of m m']
  have "a * n * 1000 div (b * n) = a * 1000 div b" if "0 < n" for a b n :: nat
    using that div_mult_mult2 [of n "a * 1000" b] by (simp add: ac_simps)
  then show ?thesis unfolding w using assms(2) by simp
qed

lemma of_nat_minus_word: "a \<le> b \<Longrightarrow> b < 2 ^ 64 \<Longrightarrow> unat (of_nat b - of_nat a :: 64 word) = b - a"
proof -
  assume a: "a \<le> b" "b < 2 ^ 64"
  then have "(of_nat (b - a) :: 64 word) = of_nat b - of_nat a" by (simp only: of_nat_diff)
  moreover have "unat (of_nat (b - a) :: 64 word) = b - a"
    using a by (simp add: unsigned_of_nat take_bit_nat_eq_self del: of_nat_diff)
  ultimately show ?thesis by simp
qed

lemma machine_bounds: "machine_ok m \<Longrightarrow> cgroup_ns m < 2 ^ 64" "machine_ok m \<Longrightarrow> machine_ns m < 2 ^ 64"
proof -
  assume ok: "machine_ok m"
  then show "cgroup_ns m < 2 ^ 64" by (simp add: machine_ok_def cgroup_ns_def)
  have "sum_list (take 7 (m_ticks m)) \<le> sum_list (m_ticks m)"
    by (metis append_take_drop_id le_add1 sum_list_append)
  then show "machine_ns m < 2 ^ 64" using ok by (simp add: machine_ok_def machine_ns_def)
qed

lemma tracked_refresh:
  assumes "tracks m0 m st" "machine_ok m0" "machine_ok m'" "close_by (cpu_count m0) m m'" "0 < cpu_count m0"
  shows "\<exists>u st'. refresh_cpu (machine_sys m') st = Some (u, st') \<and> tracks m0 m' st'
    \<and> unat u \<le> spec_usage m0 m m' + 1 \<and> spec_usage m0 m m' \<le> unat u + 1
    \<and> (whole_share m0 \<longrightarrow> unat u = spec_usage m0 m m')"
proof -
  note c = assms(4) [unfolded close_by_def]
  let ?c = "of_nat (cgroup_ns m') - of_nat (cgroup_ns m) :: 64 word"
  let ?d = "of_nat (machine_ns m') - of_nat (machine_ns m) :: 64 word"
  let ?u = "cpu_fraction ?c ?d st"
  have d: "unat ?c = cgroup_ns m' - cgroup_ns m" "unat ?d = machine_ns m' - machine_ns m"
    using c machine_bounds [OF assms(3)] by (simp_all add: of_nat_minus_word)
  have cores: "cpu_cores st = of_nat (cpu_count m0)" using assms(1) by (simp add: tracks_def)
  have "unat ?u \<le> spec_usage m0 m m' + 1 \<and> spec_usage m0 m m' \<le> unat ?u + 1
    \<and> (whole_share m0 \<longrightarrow> unat ?u = spec_usage m0 m m')"
  proof (cases "0 < unat ?d")
    case False
    then have "spec_usage m0 m m' = 0" "?u = 0" using d(2) by (simp_all add: spec_usage_def cpu_fraction_def word_gt_0 unat_eq_0)
    then show ?thesis by simp
  next
    case True
    have small: "unat ?c * cpu_count m0 * 1000 \<le> 2 ^ 53" "unat ?d * cpu_count m0 \<le> 2 ^ 43" unfolding d using c by simp_all
    have "1 * cpu_count m0 \<le> unat ?d * cpu_count m0" using True by (intro mult_le_mono1) simp
    then have "1 * cpu_count m0 \<le> 2 ^ 43" using small(2) by (rule order_trans)
    then have "cpu_count m0 \<le> 2 ^ 43" by (simp only: mult_1)
    then have "cpu_count m0 \<le> 2 ^ 53" by (rule order_trans) simp
    then have limit: "cpu_limit st = Fin (rne (cpu_share m0))"
      using limit_read_share [OF assms(2,5)] assms(1) by (simp add: tracks_def)
    note near = cpu_fraction_near [OF cores limit assms(5) share_bounds [OF assms(2,5)] small]
    have "unat ?u = spec_usage m0 m m'" if whole: "whole_share m0"
    proof -
      obtain k where k: "cpu_share m0 = of_nat k" "0 < k" "k \<le> cpu_count m0"
        using whole_share_nat [OF assms(2,5) whole] by blast
      have "rne (of_nat k) = of_nat k" using rne_repr [OF repr_of_int [of "int k"]] k(3) \<open>cpu_count m0 \<le> 2 ^ 53\<close> by simp
      then have "cpu_limit st = Fin (of_nat k)" using limit k(1) by simp
      from cpu_fraction_exact [OF cores this k(2,3) small] show ?thesis by (simp only: spec_usage_whole [OF k(1)] d)
    qed
    then show ?thesis using near unfolding spec_usage_def d by blast
  qed
  then show ?thesis using machine_refresh [OF assms(1,3)] tracks_step [OF assms(1)] by simp
qed

lemma first_refresh:
  assumes "machine_ok m"
  shows "\<exists>u st. refresh_cpu (machine_sys m) cpu_state0 = Some (u, st) \<and> tracks m m st"
proof -
  obtain st where st: "cpu_initialize (machine_sys m) cpu_state0 = Some (True, st)"
    "tracks m m (st\<lparr>init_done := True, no_cgroup := no_cgroup st \<or> \<not> True\<rparr>)"
    using machine_init [OF assms] by blast
  have "\<not> init_done cpu_state0" by (simp add: cpu_state0_def)
  from refresh_first [OF this st(1)] machine_refresh [OF st(2) assms] tracks_step [OF st(2)]
  show ?thesis by simp
qed

lemma cpu_count_pos: "machine_ok m \<Longrightarrow> 0 < cpu_count m"
proof -
  assume "machine_ok m"
  then obtain r where "r \<in> set (m_cpus m)" "fst r \<le> snd r"
    by (cases "m_cpus m") (auto simp: machine_ok_def range_ok_def)
  then have "fst r \<in> (\<Union>r \<in> set (m_cpus m). {fst r..snd r})" by force
  moreover have "finite (\<Union>r \<in> set (m_cpus m). {fst r..snd r})" by simp
  ultimately show ?thesis unfolding cpu_count_def card_gt_0_iff by blast
qed

text \<open>
  C5. The reader implements its specification: primed on the files of one cgroup v2 machine
  and run on those of a later one, it reports the CPU time of the cgroup in thousandths of the
  part of the machine's that its quota lets it use (all of it without a quota), cut off at
  1000: exactly when there is no quota or one of whole CPUs, and within one thousandth for any
  other of at least a hundredth of a CPU. The machine's counters must fit their 64-bit products
  (\<open>machine_ok\<close>; what happens when they do not is \<open>machine_time_wraps\<close>), they must not
  have gone back, and their deltas must be small enough for exact integers (\<open>close_by\<close>: a
  refresh interval on up to 187 CPUs).
\<close>

theorem cpu_reader_refines:
  assumes "machine_ok m" "machine_ok m'" "close_by (cpu_count m) m m'"
  shows "\<exists>u0 st u st'. refresh_cpu (machine_sys m) cpu_state0 = Some (u0, st)
    \<and> refresh_cpu (machine_sys m') st = Some (u, st')
    \<and> unat u \<le> spec_usage m m m' + 1 \<and> spec_usage m m m' \<le> unat u + 1
    \<and> (whole_share m \<longrightarrow> unat u = spec_usage m m m')"
proof -
  obtain u0 st where "refresh_cpu (machine_sys m) cpu_state0 = Some (u0, st)" "tracks m m st"
    using first_refresh [OF assms(1)] by blast
  with tracked_refresh [OF this(2) assms(1,2,3)] cpu_count_pos [OF assms(1)] show ?thesis by blast
qed

text \<open>Four CPUs and a quota of two: a quarter of a second of CPU time in one of wall time is an eighth.\<close>

theorem cpu_reader_refines_witness:
  "\<exists>u0 st u st'. refresh_cpu (machine_sys \<lparr>m_cpus = [(0, 3)], m_usec = 5000000,
        m_ticks = [100, 0, 50, 900, 0, 0, 0, 0, 0, 0], m_quota = Some (200000, 100000)\<rparr>) cpu_state0 = Some (u0, st)
    \<and> refresh_cpu (machine_sys \<lparr>m_cpus = [(0, 3)], m_usec = 5250000,
        m_ticks = [190, 0, 160, 1100, 0, 0, 0, 0, 0, 0], m_quota = Some (200000, 100000)\<rparr>) st = Some (u, st') \<and> unat u = 125"
proof -
  let ?m = "\<lparr>m_cpus = [(0, 3)], m_usec = 5000000, m_ticks = [100, 0, 50, 900, 0, 0, 0, 0, 0, 0], m_quota = Some (200000, 100000)\<rparr>"
  let ?m' = "\<lparr>m_cpus = [(0, 3)], m_usec = 5250000, m_ticks = [190, 0, 160, 1100, 0, 0, 0, 0, 0, 0], m_quota = Some (200000, 100000)\<rparr>"
  have ok: "machine_ok ?m" "machine_ok ?m'" by (simp_all add: machine_ok_def range_ok_def)
  have "close_by (cpu_count ?m) ?m ?m'"
    by (simp add: close_by_def cpu_count_def cgroup_ns_def machine_ns_def)
  from cpu_reader_refines [OF ok this] obtain u0 st u st' where r:
    "refresh_cpu (machine_sys ?m) cpu_state0 = Some (u0, st)" "refresh_cpu (machine_sys ?m') st = Some (u, st')"
    "whole_share ?m \<longrightarrow> unat u = spec_usage ?m ?m ?m'" by blast
  have "cpu_share ?m = of_nat 2" by (simp add: cpu_share_def cpu_count_def)
  from spec_usage_whole [OF this] have "spec_usage ?m ?m ?m' = 125"
    by (simp add: cpu_count_def cgroup_ns_def machine_ns_def)
  moreover have "whole_share ?m" by (simp add: whole_share_def)
  ultimately have "unat u = 125" using r(3) by simp
  with r(1,2) show ?thesis by blast
qed

text \<open>
  What the share is relative to is the whole machine, not the CPUs of the cgroup: a cgroup that
  is confined to 4 CPUs of 8, and keeps all 4 busy, reads 500.
\<close>

theorem cpuset_reads_half:
  "\<exists>u0 st u st'. refresh_cpu (machine_sys \<lparr>m_cpus = [(0, 3)], m_usec = 5000000, m_ticks = [100, 0, 0, 100, 0, 0, 0], m_quota = None\<rparr>)
      cpu_state0 = Some (u0, st)
    \<and> refresh_cpu (machine_sys \<lparr>m_cpus = [(0, 3)], m_usec = 9000000, m_ticks = [500, 0, 0, 500, 0, 0, 0], m_quota = None\<rparr>) st
      = Some (u, st') \<and> unat u = 500"
proof -
  let ?m = "\<lparr>m_cpus = [(0, 3)], m_usec = 5000000, m_ticks = [100, 0, 0, 100, 0, 0, 0], m_quota = None\<rparr>"
  let ?m' = "\<lparr>m_cpus = [(0, 3)], m_usec = 9000000, m_ticks = [500, 0, 0, 500, 0, 0, 0], m_quota = None\<rparr>"
  have ok: "machine_ok ?m" "machine_ok ?m'" by (simp_all add: machine_ok_def range_ok_def)
  obtain u0 st where r: "refresh_cpu (machine_sys ?m) cpu_state0 = Some (u0, st)" "tracks ?m ?m st"
    using first_refresh [OF ok(1)] by blast
  have "close_by (cpu_count ?m) ?m ?m'"
    by (simp add: close_by_def cpu_count_def cgroup_ns_def machine_ns_def)
  from tracked_refresh [OF r(2) ok this cpu_count_pos [OF ok(1)]] obtain u st' where
    "refresh_cpu (machine_sys ?m') st = Some (u, st')" "whole_share ?m \<longrightarrow> unat u = spec_usage ?m ?m ?m'" by blast
  moreover have "spec_usage ?m ?m ?m' = 500"
    by (subst spec_usage_no_quota) (simp_all add: cpu_count_def cgroup_ns_def machine_ns_def)
  ultimately show ?thesis using r(1) by (auto simp: whole_share_def)
qed

subsection \<open>The machine's counter wraps\<close>

text \<open>
  The product with a second in nanoseconds leaves 64 bits once the ticks add up to
  \<open>2 ^ 64 / 10 ^ 9\<close> (33 days of uptime on 64 CPUs): between two readings of 250 ms the
  machine's time goes back, the unsigned difference is huge, and a saturated CPU reads as 0.
\<close>

theorem machine_time_wraps:
  "stat_lines [''cpu 18446744073 0 0 0 0 0 0 0 0 0''] = Inr 184467440730000000
   \<and> stat_lines [''cpu 18446744098 0 0 0 0 0 0 0 0 0''] = Inr 242904483
   \<and> cpu_fraction 250000000 (242904483 - 184467440730000000) (cpu_state0\<lparr>cpu_cores := 1, cpu_limit := Fin 1\<rparr>) = 0
   \<and> cpu_fraction 250000000 250000000 (cpu_state0\<lparr>cpu_cores := 1, cpu_limit := Fin 1\<rparr>) = 1000"
proof (intro conjI)
  show "stat_lines [''cpu 18446744073 0 0 0 0 0 0 0 0 0''] = Inr 184467440730000000" by code_simp
  show "stat_lines [''cpu 18446744098 0 0 0 0 0 0 0 0 0''] = Inr 242904483" by code_simp
  let ?st = "cpu_state0\<lparr>cpu_cores := 1, cpu_limit := Fin 1\<rparr>"
  have n: "f64_of_int (uint (250000000 * cpu_cores ?st * cpu_max_milli)) = Fin 250000000000"
    by (simp add: f64_of_int_def rnd_numeral)
  have "uint (242904483 - 184467440730000000 :: 64 word) = 18262276633222456099" by simp
  moreover obtain r where r: "f64_of_int 18262276633222456099 = Fin r" "repr r" "r = rne (of_int 18262276633222456099)"
    by (rule f64_of_int_pos [of 18262276633222456099]) simp_all
  moreover have "pow2 60 \<le> rne (of_int 18262276633222456099)"
    by (rule rne_ge) (rule repr_pow2, simp, simp add: pow2_nat)
  then have big: "2 ^ 60 \<le> r" using r(3) by (simp add: pow2_nat)
  moreover have "r \<le> 2 ^ 64" using f64_of_int_nonneg [of 18262276633222456099] r(1) by (simp add: finite_in_def)
  moreover have "rnd r = Fin r"
    using r(2) big \<open>r \<le> 2 ^ 64\<close> by (intro rnd_by_rne) (simp_all add: rne_repr)
  ultimately have d: "fmul (f64_of_int (uint (242904483 - 184467440730000000 :: 64 word))) (cpu_limit ?st) = Fin r"
    by simp
  have q: "0 \<le> 250000000000 / r" "250000000000 / r \<le> 1 / 2" using big by (simp_all add: divide_le_eq)
  have "f64_bounds 0 (1 / 2)" by (intro f64_bounds_le) simp_all
  note e = rnd_eq [OF this q]
  have "rne (250000000000 / r) \<le> 1 / 2" "0 \<le> rne (250000000000 / r)" using e by simp_all
  then have "f64_to_u64 (Fin (rne (250000000000 / r))) = word_of_int \<lfloor>rne (250000000000 / r)\<rfloor>"
    by (intro f64_to_u64_floor(1)) simp_all
  moreover have "\<lfloor>rne (250000000000 / r)\<rfloor> = 0" using e by (intro floor_unique) simp_all
  ultimately have u: "f64_to_u64 (fdiv (Fin 250000000000) (Fin r)) = 0" using e(1) big by (simp add: fdiv_Fin)
  show "cpu_fraction 250000000 (242904483 - 184467440730000000) ?st = 0"
    unfolding cpu_fraction_def n d u by (simp add: Let_def)
  have "unat (cpu_fraction 250000000 250000000 ?st)
      = min 1000 (unat (250000000 :: 64 word) * 1 * 1000 div (unat (250000000 :: 64 word) * 1))"
    by (rule cpu_fraction_exact [where n = 1 and k = 1]) simp_all
  then have "unat (cpu_fraction 250000000 250000000 ?st) = unat (1000 :: 64 word)" by simp
  then show "cpu_fraction 250000000 250000000 ?st = 1000" by (rule unsigned_word_eqI)
qed

end
