(* ===== verification/CpuSampler.thy ===== *)
theory CpuSampler
  imports CpuMachine Gate
begin

text \<open>
  The CPU sampler of queue/cpu.go: \<open>cpuUsage\<close> primes the reader on its first call, and
  every tick of the background goroutine folds one reading into a moving average that is kept
  as an integer. The constants 0.95 and 1 - 0.95 are computed exactly by the compiler and
  rounded once.
\<close>

subsection \<open>State and operations\<close>

record sampler =
  usage_value :: int
  reader :: cpu_state
  sampling_on :: bool

definition new_sampler :: sampler where
  "new_sampler = \<lparr>usage_value = 0, reader = cpu_state0, sampling_on = False\<rparr>"

definition cpu_refresh_interval :: duration where "cpu_refresh_interval = 250 * millisecond"
definition cpu_beta :: rat where "cpu_beta = 95 / 100"

definition smooth_usage :: "int \<Rightarrow> int \<Rightarrow> int" where
  "smooth_usage prev cur =
     f64_to_i64 (fadd (fmul (f64_of_int prev) (rnd cpu_beta)) (fmul (f64_of_int cur) (rnd (1 - cpu_beta))))"

definition start_cpu_sampler :: "sys \<Rightarrow> sampler \<Rightarrow> sampler option" where
  "start_cpu_sampler sys s =
     map_option (\<lambda>(u, st). s\<lparr>reader := st, sampling_on := True\<rparr>) (refresh_cpu sys (reader s))"

definition cpu_tick :: "sys \<Rightarrow> sampler \<Rightarrow> sampler option" where
  "cpu_tick sys s =
     map_option (\<lambda>(u, st). s\<lparr>reader := st, usage_value := smooth_usage (usage_value s) (sint u)\<rparr>)
       (refresh_cpu sys (reader s))"

definition cpu_usage :: "sys \<Rightarrow> sampler \<Rightarrow> (int \<times> sampler) option" where
  "cpu_usage sys s =
     map_option (\<lambda>s'. (usage_value s', s')) (if sampling_on s then Some s else start_cpu_sampler sys s)"

definition default_cpu_usage :: "sys \<Rightarrow> sampler \<Rightarrow> (int \<times> sampler) option" where
  "default_cpu_usage sys s = cpu_usage sys s"

text \<open>The readings of a run: one view of the files per tick.\<close>

fun cpu_ticks_run :: "sys list \<Rightarrow> sampler \<Rightarrow> sampler option" where
  "cpu_ticks_run [] s = Some s"
| "cpu_ticks_run (sys # syss) s =
     (case cpu_tick sys s of None \<Rightarrow> None | Some s' \<Rightarrow> cpu_ticks_run syss s')"

subsection \<open>The moving average\<close>

lemma rne_err_1024: "0 \<le> x \<Longrightarrow> x < 1024 \<Longrightarrow> \<bar>rne x - x\<bar> \<le> pow2 (- 44)"
proof (cases "x = 0")
  case False
  assume a: "0 \<le> x" "x < 1024"
  then have "ilog2 x \<le> 9" using False by (intro ilog2_less) (simp_all add: pow2_def)
  then have "ulp_exp x \<le> - 43" using a by (simp add: ulp_exp_def)
  then have "pow2 (ulp_exp x) \<le> pow2 (- 43)" by (rule pow2_mono)
  also have "pow2 (- 43) = 2 * pow2 (- 44)" by (simp add: pow2_def power_int_minus)
  finally show ?thesis using rne_err [of x] by linarith
qed simp

lemma abs_scale: "0 \<le> k \<Longrightarrow> k \<le> l \<Longrightarrow> \<bar>x - y\<bar> \<le> e \<Longrightarrow> \<bar>k * x - k * y\<bar> \<le> l * (e :: rat)"
  unfolding right_diff_distrib [symmetric] abs_mult by (intro mult_mono) simp_all

lemma smooth_usage_exact:
  assumes "0 \<le> p" "p \<le> 1000" "0 \<le> c" "c \<le> 1000"
  shows "of_int (smooth_usage p c) \<le> (19 * of_int p + of_int c) / 20 + (1 / 1000 :: rat)"
    and "(19 * of_int p + of_int c) / 20 - (1 + 1 / 1000 :: rat) < of_int (smooth_usage p c)"
    and "0 \<le> smooth_usage p c"
proof -
  let ?e = "pow2 (- 44)"
  have e: "?e < 1 / 10000000" "0 < ?e" by (simp_all add: pow2_def power_int_minus)
  define b where "b = rne (95 / 100)"
  define a where "a = rne (5 / 100)"
  have b: "\<bar>b - 95 / 100\<bar> \<le> ?e" "0 \<le> b" unfolding b_def by (rule rne_err_1024; simp) (rule rne_nonneg, simp)
  have a: "\<bar>a - 5 / 100\<bar> \<le> ?e" "0 \<le> a" unfolding a_def by (rule rne_err_1024; simp) (rule rne_nonneg, simp)
  have b1: "b \<le> 1" "a \<le> 1" using b(1) a(1) e by linarith+
  have pq: "(0 :: rat) \<le> of_int p" "(of_int p :: rat) \<le> 1000" "(0 :: rat) \<le> of_int c" "(of_int c :: rat) \<le> 1000"
    using assms by simp_all
  define x where "x = rne (of_int p * b)"
  define y where "y = rne (of_int c * a)"
  have pb: "0 \<le> of_int p * b" "of_int p * b \<le> 1000"
    using pq b b1 mult_mono [of "of_int p" 1000 b 1] by simp_all
  have ca: "0 \<le> of_int c * a" "of_int c * a \<le> 60"
    using pq a mult_mono [of "of_int c" 1000 a "6 / 100"] e by (simp_all add: abs_le_iff)
  have x: "\<bar>x - of_int p * b\<bar> \<le> ?e" "0 \<le> x" unfolding x_def using pb by (auto intro!: rne_err_1024 rne_nonneg)
  have y: "\<bar>y - of_int c * a\<bar> \<le> ?e" "0 \<le> y" unfolding y_def using ca by (auto intro!: rne_err_1024 rne_nonneg)
  have db: "\<bar>of_int p * b - of_int p * (95 / 100)\<bar> \<le> 1000 * ?e"
    using pq(1,2) b(1) by (rule abs_scale)
  have da: "\<bar>of_int c * a - of_int c * (5 / 100)\<bar> \<le> 1000 * ?e"
    using pq(3,4) a(1) by (rule abs_scale)
  have s: "\<bar>(x + y) - (19 * of_int p + of_int c) / 20\<bar> \<le> 2002 * ?e"
    using x(1) y(1) db da by (simp add: abs_le_iff field_simps)
  then have "x + y < 1024" using pq e by (simp add: abs_le_iff field_simps)
  then have z: "\<bar>rne (x + y) - (x + y)\<bar> \<le> ?e" "0 \<le> rne (x + y)"
    using x y by (auto intro!: rne_err_1024 rne_nonneg)
  define v where "v = rne (x + y)"
  have v: "\<bar>v - (19 * of_int p + of_int c) / 20\<bar> \<le> 1 / 1000" "0 \<le> v"
    using z s e unfolding v_def by linarith+
  have small: "rnd t = Fin (rne t)" if "0 \<le> t" "t \<le> 2 ^ 20" for t
    using that by (intro rnd_eq(1) [OF f64_bounds_pow(1) [of 20]]) simp_all
  have "rnd cpu_beta = Fin b" "rnd (1 - cpu_beta) = Fin a"
    unfolding b_def a_def cpu_beta_def by (subst small; simp)+
  moreover have "f64_of_int p = Fin (of_int p)" "f64_of_int c = Fin (of_int c)"
    using assms by (simp_all add: f64_of_int_exact)
  moreover have "rnd (of_int p * b) = Fin x" "rnd (of_int c * a) = Fin y"
    unfolding x_def y_def using pb ca by (subst small; simp)+
  moreover have "rnd (x + y) = Fin v"
    unfolding v_def using x(2) y(2) \<open>x + y < 1024\<close> by (intro small) simp_all
  ultimately have sm: "smooth_usage p c = f64_to_i64 (Fin v)" by (simp add: smooth_usage_def)
  have "(19 * of_int p + of_int c) / 20 \<le> (1000 :: rat)" using pq by simp
  then have "v < 1002" using v(1) unfolding abs_le_iff by linarith
  then have "\<lfloor>v\<rfloor> < 1002" by linarith
  then have fl: "smooth_usage p c = \<lfloor>v\<rfloor>" using sm v(2) by (simp add: trunc_rat_def is_i64_def)
  show "of_int (smooth_usage p c) \<le> (19 * of_int p + of_int c) / 20 + (1 / 1000 :: rat)"
    "(19 * of_int p + of_int c) / 20 - (1 + 1 / 1000 :: rat) < of_int (smooth_usage p c)"
    "0 \<le> smooth_usage p c"
    unfolding fl using v by linarith+
qed

subsection \<open>Runs of the sampler\<close>

fun readings :: "sys list \<Rightarrow> cpu_state \<Rightarrow> int list" where
  "readings [] st = []"
| "readings (sys # syss) st =
     (case refresh_cpu sys st of None \<Rightarrow> [] | Some (u, st') \<Rightarrow> sint u # readings syss st')"

lemma sint_reading: "refresh_cpu sys st = Some (u, st') \<Longrightarrow> sint u = int (unat u) \<and> 0 \<le> sint u \<and> sint u \<le> 1000"
proof -
  assume "refresh_cpu sys st = Some (u, st')"
  then have "unat u \<le> unat (1000 :: 64 word)" using refresh_bounded by (simp only: word_le_nat_alt)
  then have "unat u \<le> 1000" by simp
  moreover from this have "sint u = int (unat u)"
    by (simp add: sint_uint uint_nat signed_take_bit_int_eq_self del: of_nat_unat)
  ultimately show ?thesis by (simp del: of_nat_unat)
qed

lemma cpu_ticks_value:
  "\<exists>s'. cpu_ticks_run syss s = Some s'
     \<and> usage_value s' = fold (\<lambda>c p. smooth_usage p c) (readings syss (reader s)) (usage_value s)
     \<and> (\<forall>c \<in> set (readings syss (reader s)). 0 \<le> c \<and> c \<le> 1000)"
proof (induction syss arbitrary: s)
  case (Cons sys syss)
  obtain u st' where r: "refresh_cpu sys (reader s) = Some (u, st')" using refresh_returns by blast
  then have t: "cpu_tick sys s = Some (s\<lparr>reader := st', usage_value := smooth_usage (usage_value s) (sint u)\<rparr>)"
    by (simp add: cpu_tick_def)
  from Cons.IH [of "s\<lparr>reader := st', usage_value := smooth_usage (usage_value s) (sint u)\<rparr>"] sint_reading [OF r] r t
  show ?case by auto
qed simp

lemma smooth_usage_linear:
  assumes "0 \<le> p" "p \<le> 1000" "0 \<le> c" "c \<le> 1000"
  shows "of_int (smooth_usage p c) \<le> 19/20 * of_int p + 1/20 * of_int c + (1/1000 :: rat)"
    and "19/20 * of_int p + 1/20 * of_int c - (1 + 1/1000 :: rat) < of_int (smooth_usage p c)"
proof -
  have "(19 * of_int p + of_int c) / 20 = 19/20 * of_int p + 1/20 * (of_int c :: rat)"
    by (simp add: add_divide_distrib)
  with smooth_usage_exact(1,2) [OF assms]
  show "of_int (smooth_usage p c) \<le> 19/20 * of_int p + 1/20 * of_int c + (1/1000 :: rat)"
    "19/20 * of_int p + 1/20 * of_int c - (1 + 1/1000 :: rat) < of_int (smooth_usage p c)"
    by (simp_all only:)
qed

lemma smooth_ceiling: "0 \<le> p \<Longrightarrow> p \<le> 981 \<Longrightarrow> 0 \<le> c \<Longrightarrow> c \<le> 1000 \<Longrightarrow> 0 \<le> smooth_usage p c \<and> smooth_usage p c \<le> 981"
proof -
  assume a: "0 \<le> p" "p \<le> 981" "0 \<le> c" "c \<le> 1000"
  have "(of_int p :: rat) \<le> of_int 981" "(of_int c :: rat) \<le> of_int 1000"
    using a by (simp_all only: of_int_le_iff)
  moreover have "of_int (smooth_usage p c) \<le> 19/20 * of_int p + 1/20 * of_int c + (1/1000 :: rat)"
    using a by (intro smooth_usage_linear) simp_all
  ultimately have "(of_int (smooth_usage p c) :: rat) < of_int 982" by simp
  then have "smooth_usage p c < 982" by (simp only: of_int_less_iff)
  with smooth_usage_exact(3) [of p c] a show ?thesis by simp
qed

lemma fold_ceiling:
  "\<forall>c \<in> set cs. 0 \<le> c \<and> c \<le> 1000 \<Longrightarrow> 0 \<le> p \<Longrightarrow> p \<le> 981 \<Longrightarrow>
     0 \<le> fold (\<lambda>c p. smooth_usage p c) cs p \<and> fold (\<lambda>c p. smooth_usage p c) cs p \<le> 981"
  by (induction cs arbitrary: p) (simp_all add: smooth_ceiling)

lemma start_value: "start_cpu_sampler sys new_sampler = Some s \<Longrightarrow> usage_value s = 0 \<and> sampling_on s"
  by (auto simp: start_cpu_sampler_def new_sampler_def)

text \<open>
  C38. The smoothed usage stays from 0 to 981, not 1000: truncating the average to an integer
  stalls it at 981 however long the CPU is saturated. So a CPU gate with a threshold above 981
  (in a range documented as 0 to 1000) admits every request at every load.
\<close>

theorem sampler_ceiling:
  assumes "start_cpu_sampler sys0 new_sampler = Some s0" "cpu_ticks_run syss s0 = Some s" "981 < th"
  shows "0 \<le> usage_value s \<and> usage_value s \<le> 981
    \<and> fst (cpu_allow (usage_value s) (new_cpu_threshold_gate th)) = Some ()"
proof -
  obtain s' where "cpu_ticks_run syss s0 = Some s'"
    "usage_value s' = fold (\<lambda>c p. smooth_usage p c) (readings syss (reader s0)) (usage_value s0)"
    "\<forall>c \<in> set (readings syss (reader s0)). 0 \<le> c \<and> c \<le> 1000"
    using cpu_ticks_value [of syss s0] by blast
  with fold_ceiling [of "readings syss (reader s0)" "usage_value s0"] start_value [OF assms(1)] assms(2)
  have "0 \<le> usage_value s \<and> usage_value s \<le> 981" by simp
  with assms(3) show ?thesis by (simp add: cpu_allow_def new_cpu_threshold_gate_def)
qed

text \<open>A saturated run approaches 980: after \<open>n\<close> full readings at least \<open>979 * (1 - 0.95 ^ n)\<close>.\<close>

lemma saturated_fold:
  assumes "0 \<le> p" "p \<le> 981"
  shows "979 * (1 - (19 / 20) ^ n) \<le> (of_int (fold (\<lambda>c p. smooth_usage p c) (replicate n 1000) p) :: rat)"
proof (induction n)
  case 0
  then show ?case using assms by simp
next
  case (Suc n)
  let ?v = "fold (\<lambda>c p. smooth_usage p c) (replicate n 1000) p"
  have v: "0 \<le> ?v" "?v \<le> 981" using fold_ceiling [of "replicate n 1000" p] assms by auto
  have "fold (\<lambda>c p. smooth_usage p c) (replicate (Suc n) 1000) p = smooth_usage ?v 1000"
    by (simp only: replicate_append_same [symmetric] replicate_Suc fold_append) simp
  moreover have "19/20 * of_int ?v + 1/20 * of_int 1000 - (1 + 1/1000 :: rat) < of_int (smooth_usage ?v 1000)"
    using v by (intro smooth_usage_linear) simp_all
  moreover have "979 * (1 - (19/20) ^ Suc n) \<le> 19/20 * of_int ?v + 1/20 * of_int 1000 - (1 + 1/1000 :: rat)"
    using Suc unfolding power_Suc by simp
  ultimately show ?case by simp
qed

lemma saturated_value:
  assumes "0 \<le> p" "p \<le> 981" "51 \<le> n"
  shows "900 < fold (\<lambda>c p. smooth_usage p c) (replicate n 1000) p"
proof -
  have "(19 / 20 :: rat) ^ n \<le> (19 / 20) ^ 51" using assms(3) by (intro power_decreasing) simp_all
  also have "\<dots> < 74 / 1000" by (simp add: power_divide)
  finally have "of_int 900 < (of_int (fold (\<lambda>c p. smooth_usage p c) (replicate n 1000) p) :: rat)"
    using saturated_fold [OF assms(1,2), of n] by simp
  then show ?thesis by (simp only: of_int_less_iff)
qed

text \<open>A machine whose one CPU is busy with the cgroup all the time, after \<open>k\<close> intervals.\<close>

definition busy_machine :: "nat \<Rightarrow> machine" where
  "busy_machine k = \<lparr>m_cpus = [(0, 0)], m_usec = k * 250000, m_ticks = [k * 25, 0, 0, 0, 0, 0, 0], m_quota = None\<rparr>"

lemma busy_ok: "k \<le> 1000 \<Longrightarrow> machine_ok (busy_machine k)" "cpu_count (busy_machine k) = 1"
  "close_by 1 (busy_machine k) (busy_machine (Suc k))"
  "spec_usage (busy_machine j) (busy_machine k) (busy_machine (Suc k)) = 1000" "whole_share (busy_machine k)"
proof -
  have d: "(k * 250000 + 250000) * 1000 - k * 250000 * 1000 = 250000000"
    "(k * 25 + 25) * 10000000 - k * 25 * 10000000 = 250000000" by simp_all
  show "k \<le> 1000 \<Longrightarrow> machine_ok (busy_machine k)" by (simp add: machine_ok_def busy_machine_def range_ok_def)
  show "cpu_count (busy_machine k) = 1" by (simp add: cpu_count_def busy_machine_def)
  show "close_by 1 (busy_machine k) (busy_machine (Suc k))"
    by (simp add: close_by_def busy_machine_def cgroup_ns_def machine_ns_def)
  have "spec_usage (busy_machine j) m m' = min 1000 ((cgroup_ns m' - cgroup_ns m) * 1000 div (machine_ns m' - machine_ns m))" for m m'
    by (rule spec_usage_no_quota) (simp_all add: busy_machine_def cpu_count_def)
  with d show "spec_usage (busy_machine j) (busy_machine k) (busy_machine (Suc k)) = 1000"
    by (simp add: busy_machine_def cgroup_ns_def machine_ns_def)
  show "whole_share (busy_machine k)" by (simp add: whole_share_def busy_machine_def)
qed

lemma busy_readings:
  "tracks (busy_machine 0) (busy_machine k) st \<Longrightarrow> k + n \<le> 1000 \<Longrightarrow>
     readings (List.map (\<lambda>i. machine_sys (busy_machine i)) [Suc k..<Suc k + n]) st = replicate n 1000"
proof (induction n arbitrary: k st)
  case (Suc n)
  have ok: "machine_ok (busy_machine (Suc k))" using Suc.prems(2) by (intro busy_ok) simp
  obtain u st' where u: "refresh_cpu (machine_sys (busy_machine (Suc k))) st = Some (u, st')"
    "tracks (busy_machine 0) (busy_machine (Suc k)) st'" "unat u = 1000"
    using tracked_refresh [OF Suc.prems(1) busy_ok(1) ok, unfolded busy_ok(2), OF _ busy_ok(3)] busy_ok(4,5) by auto
  have "[Suc k..<Suc k + Suc n] = Suc k # [Suc (Suc k)..<Suc (Suc k) + n]" by (simp add: upt_rec)
  with u Suc.IH [OF u(2)] Suc.prems(2) sint_reading [OF u(1)] show ?case by (simp del: of_nat_unat)
qed simp

lemma busy_start:
  "\<exists>s0. start_cpu_sampler (machine_sys (busy_machine 0)) new_sampler = Some s0 \<and> usage_value s0 = 0
     \<and> tracks (busy_machine 0) (busy_machine 0) (reader s0)"
proof -
  obtain u st where r: "refresh_cpu (machine_sys (busy_machine 0)) cpu_state0 = Some (u, st)" "tracks (busy_machine 0) (busy_machine 0) st"
    using first_refresh [OF busy_ok(1) [of 0]] by (auto simp: busy_ok(2))
  then show ?thesis by (simp add: start_cpu_sampler_def new_sampler_def)
qed

abbreviation busy_run :: "nat \<Rightarrow> sys list" where
  "busy_run n \<equiv> List.map (\<lambda>i. machine_sys (busy_machine i)) [Suc 0..<Suc n]"

theorem sampler_ceiling_witness:
  "\<exists>s0 s. start_cpu_sampler (machine_sys (busy_machine 0)) new_sampler = Some s0
    \<and> cpu_ticks_run (busy_run 900) s0 = Some s \<and> readings (busy_run 900) (reader s0) = replicate 900 1000
    \<and> fst (cpu_allow (usage_value s) (new_cpu_threshold_gate 982)) = Some ()"
proof -
  obtain s0 where s0: "start_cpu_sampler (machine_sys (busy_machine 0)) new_sampler = Some s0"
    "tracks (busy_machine 0) (busy_machine 0) (reader s0)" using busy_start by blast
  obtain s where s: "cpu_ticks_run (busy_run 900) s0 = Some s" using cpu_ticks_value by blast
  with sampler_ceiling [OF s0(1) s, of 982] s0 busy_readings [OF s0(2), of 900] show ?thesis by auto
qed

text \<open>
  A saturated CPU is noticed in time: 51 full readings in a row (under 13 seconds), from
  any smoothed value, carry it over 900, so that a gate with the default threshold of 900 or a
  lower one rejects.
\<close>

theorem sampler_reacts:
  assumes "0 \<le> usage_value s0" "usage_value s0 \<le> 981" "cpu_ticks_run syss s0 = Some s"
    and "readings syss (reader s0) = replicate n 1000" "51 \<le> n" "0 < th" "th \<le> 900"
  shows "fst (cpu_allow (usage_value s) (new_cpu_threshold_gate th)) = None"
proof -
  have "usage_value s = fold (\<lambda>c p. smooth_usage p c) (replicate n 1000) (usage_value s0)"
    using cpu_ticks_value [of syss s0] assms(3,4) by auto
  then have "900 < usage_value s" using saturated_value [OF assms(1,2,5)] by simp
  with assms(6,7) show ?thesis by (simp add: cpu_allow_def new_cpu_threshold_gate_def)
qed

theorem sampler_reacts_witness:
  "\<exists>s0 s. start_cpu_sampler (machine_sys (busy_machine 0)) new_sampler = Some s0
    \<and> cpu_ticks_run (busy_run 51) s0 = Some s
    \<and> fst (cpu_allow (usage_value s) (new_cpu_threshold_gate 900)) = None"
proof -
  obtain s0 where s0: "start_cpu_sampler (machine_sys (busy_machine 0)) new_sampler = Some s0" "usage_value s0 = 0"
    "tracks (busy_machine 0) (busy_machine 0) (reader s0)" using busy_start by blast
  obtain s where s: "cpu_ticks_run (busy_run 51) s0 = Some s" using cpu_ticks_value by blast
  have "readings (busy_run 51) (reader s0) = replicate 51 1000" using busy_readings [OF s0(3), of 51] by simp
  from sampler_reacts [OF _ _ s this, of 900] s0 s show ?thesis by auto
qed

subsection \<open>Failure\<close>

lemma smooth_zero: "smooth_usage 0 0 = 0"
proof -
  have "(of_int (smooth_usage 0 0) :: rat) < of_int 1" using smooth_usage_linear(1) [of 0 0] by simp
  then have "smooth_usage 0 0 < 1" by (simp only: of_int_less_iff)
  then show ?thesis using smooth_usage_exact(3) [of 0 0] by simp
qed

lemma no_cgroup_refresh: "init_done st \<Longrightarrow> no_cgroup st \<Longrightarrow> refresh_cpu sys st = Some (0, st)"
  by (simp add: refresh_eq)

lemma no_cgroup_run:
  "init_done (reader s) \<Longrightarrow> no_cgroup (reader s) \<Longrightarrow> usage_value s = 0 \<Longrightarrow> cpu_ticks_run syss s = Some s"
proof (induction syss arbitrary: s)
  case (Cons sys syss)
  then have "cpu_tick sys s = Some s" by (cases s) (simp add: cpu_tick_def no_cgroup_refresh smooth_zero)
  with Cons show ?case by simp
qed simp

text \<open>
  C39. A failed initialisation is final and fails open: when the first look at the cgroup files
  errs, the sampler reads 0 for ever, also when the files can be read later, and a CPU gate on
  it admits everything.
\<close>

theorem sampler_fails_open:
  assumes "cpu_initialize sys0 cpu_state0 = Some (False, st)"
    and "start_cpu_sampler sys0 new_sampler = Some s0" "cpu_ticks_run syss s0 = Some s"
  shows "usage_value s = 0 \<and> fst (cpu_allow (usage_value s) g) = Some ()"
proof -
  have "\<not> init_done cpu_state0" by (simp add: cpu_state0_def)
  from refresh_first [OF this assms(1)] have "refresh_cpu sys0 cpu_state0 = Some (0, st\<lparr>init_done := True, no_cgroup := True\<rparr>)"
    by (simp add: no_cgroup_refresh)
  then have "s0 = new_sampler\<lparr>reader := st\<lparr>init_done := True, no_cgroup := True\<rparr>, sampling_on := True\<rparr>"
    using assms(2) by (simp add: start_cpu_sampler_def new_sampler_def)
  then have "cpu_ticks_run syss s0 = Some s0" "usage_value s0 = 0"
    by (simp_all add: no_cgroup_run new_sampler_def)
  with assms(3) show ?thesis by (auto simp: cpu_allow_def)
qed

text \<open>A cgroup v1 machine on which a path in \<open>/proc/PID/cgroup\<close> has a colon in it.\<close>

definition colon_sys :: sys where
  "colon_sys = \<lparr>read_file = (\<lambda>f. if f = ''/proc/1/cgroup''
      then Some (print_lines [[''5:cpu,cpuacct:/kubepods.slice:cri-containerd:0a1b'']]) else None), stat_ok = (\<lambda>_. False), pid = 1\<rparr>"

theorem sampler_fails_open_witness:
  "\<exists>s0 s. start_cpu_sampler colon_sys new_sampler = Some s0 \<and> cpu_ticks_run (busy_run 100) s0 = Some s
    \<and> usage_value s = 0 \<and> fst (cpu_allow (usage_value s) (new_cpu_threshold_gate 900)) = Some ()"
proof -
  let ?line = "[''5:cpu,cpuacct:/kubepods.slice:cri-containerd:0a1b'']"
  have ok: "list_all line_ok [?line]"
    by (simp add: line_ok_def is_field_def is_space_def print_line_def max_scan_line_def)
  have f: "''/proc/'' @ show_nat 1 @ ''/cgroup'' = ''/proc/1/cgroup''" by code_simp
  have "read_lines colon_sys ''/proc/1/cgroup'' = Inr [print_line ?line]"
    using read_lines_print [OF _ ok, of colon_sys "''/proc/1/cgroup''"] by (simp add: colon_sys_def)
  moreover have "length (split_on CHR '':'' (print_line ?line)) \<noteq> 3" by (simp add: print_line_def)
  moreover have "pid colon_sys = 1" by (simp add: colon_sys_def)
  ultimately obtain e where "current_cgroup_v1 colon_sys = Inl e"
    using f by (simp add: current_cgroup_v1_def Let_def)
  moreover have "\<not> uses_v2 colon_sys cpu_state0"
    by (simp add: uses_v2_def is_cgroup2_unified_def cpu_state0_def colon_sys_def Let_def)
  ultimately have "fst (cgroup_effective_cpus colon_sys cpu_state0) = Some (Inl e)"
    by (simp add: cgroup_effective_cpus_def current_cgroup_def is_unified_eq)
  then have i: "cpu_initialize colon_sys cpu_state0 = Some (False, detected colon_sys cpu_state0)"
    by (simp add: cpu_initialize_eq)
  obtain u st where "refresh_cpu colon_sys cpu_state0 = Some (u, st)" using refresh_returns by blast
  then obtain s0 where s0: "start_cpu_sampler colon_sys new_sampler = Some s0"
    by (simp add: start_cpu_sampler_def new_sampler_def)
  obtain s where s: "cpu_ticks_run (busy_run 100) s0 = Some s" using cpu_ticks_value by blast
  from sampler_fails_open [OF i s0 s] s0 s show ?thesis by blast
qed

end
