(* ===== verification/Detector.thy ===== *)
theory Detector
  imports LimitSpec
begin

text \<open>
  The overload detector of the Quarkus port (quarkus/detector.go) and its configuration
  (quarkus/config.go): a count of the requests in flight and a Vegas limit on it, both
  integers. The jitter of a probe is an input; \<open>math.Log10\<close> is the parameter of
  \<open>LimitSpec\<close>. The limit meets the contract \<open>rtt_limit\<close> that the limits of
  concurrencylimits meet.
\<close>

subsection \<open>State and operations\<close>

record quarkus_config =
  cfg_max_limit :: int
  cfg_alpha :: int
  cfg_beta :: int
  cfg_probe :: f64
  cfg_initial :: int
  cfg_priority :: bool

definition default_quarkus_config :: quarkus_config where
  "default_quarkus_config = \<lparr>cfg_max_limit = 1000, cfg_alpha = 3, cfg_beta = 6, cfg_probe = Fin 30,
     cfg_initial = 100, cfg_priority = True\<rparr>"

record detector =
  max_limit :: int
  alpha_factor :: int
  beta_factor :: int
  probe_factor :: f64
  requests :: int
  adaptive_limit :: int
  lowest_request_time :: int
  d_probe_count :: f64
  d_probe_jitter :: f64

definition log10_plus1_table :: "(f64 \<Rightarrow> f64) \<Rightarrow> int \<Rightarrow> int" where
  "log10_plus1_table lg i = (if i = 0 then 1 else i64 (1 + f64_to_i64 (lg (f64_of_int i))))"

definition log10_plus1 :: "(f64 \<Rightarrow> f64) \<Rightarrow> int \<Rightarrow> int" where
  "log10_plus1 lg limit =
     (if 0 \<le> limit \<and> limit < 1000 then log10_plus1_table lg limit
      else i64 (1 + f64_to_i64 (lg (f64_of_int limit))))"

definition d_reset_jitter :: "f64 \<Rightarrow> detector \<Rightarrow> detector" where
  "d_reset_jitter r d = d\<lparr>d_probe_jitter := fadd (Fin (1 / 2)) (fmul r (Fin (1 / 2)))\<rparr>"

definition new_detector :: "quarkus_config \<Rightarrow> f64 \<Rightarrow> detector" where
  "new_detector cfg r = d_reset_jitter r
     \<lparr>max_limit = cfg_max_limit cfg, alpha_factor = cfg_alpha cfg, beta_factor = cfg_beta cfg,
      probe_factor = cfg_probe cfg, requests = 0, adaptive_limit = cfg_initial cfg,
      lowest_request_time = i64_max, d_probe_count = Fin 0, d_probe_jitter = Fin 0\<rparr>"

definition is_overloaded :: "detector \<Rightarrow> bool" where
  "is_overloaded d \<longleftrightarrow> adaptive_limit d \<le> requests d"

definition request_begin :: "detector \<Rightarrow> detector" where
  "request_begin d = d\<lparr>requests := i64 (requests d + 1)\<rparr>"

text \<open>The estimated queue, and the limit a sample asks for, \<open>None\<close> where the code returns.\<close>

definition d_queue_size :: "int \<Rightarrow> detector \<Rightarrow> int" where
  "d_queue_size request_time d =
     f64_to_i64 (fceil (fmul (f64_of_int (adaptive_limit d))
       (fsub (Fin 1) (fdiv (f64_of_int (lowest_request_time d)) (f64_of_int request_time)))))"

definition d_target :: "(f64 \<Rightarrow> f64) \<Rightarrow> int \<Rightarrow> detector \<Rightarrow> int option" where
  "d_target lg request_time d =
     (let limit = adaptive_limit d;
          queue_size = d_queue_size request_time d;
          l = log10_plus1 lg limit;
          alpha = i64 (alpha_factor d * l);
          beta = i64 (beta_factor d * l)
      in if queue_size \<le> l then Some (i64 (limit + beta))
         else if queue_size < alpha then Some (i64 (limit + l))
         else if beta < queue_size then Some (i64 (limit - l))
         else None)"

definition d_clamp :: "int \<Rightarrow> int \<Rightarrow> int" where
  "d_clamp m n = (let n = (if n < 1 then 1 else n) in if m < n then m else n)"

definition d_probe_due :: "detector \<Rightarrow> bool" where
  "d_probe_due d \<longleftrightarrow>
     fle (fmul (fmul (probe_factor d) (d_probe_jitter d)) (f64_of_int (adaptive_limit d))) (d_probe_count d)"

definition d_update :: "(f64 \<Rightarrow> f64) \<Rightarrow> f64 \<Rightarrow> int \<Rightarrow> int \<Rightarrow> detector \<Rightarrow> detector" where
  "d_update lg r request_time cur d =
     (if request_time \<le> 0 then d
      else let d = d\<lparr>d_probe_count := fadd (d_probe_count d) (Fin 1)\<rparr>
      in if d_probe_due d
         then (d_reset_jitter r d)\<lparr>d_probe_count := Fin 0, lowest_request_time := request_time\<rparr>
         else if request_time < lowest_request_time d then d\<lparr>lowest_request_time := request_time\<rparr>
         else if i64 (2 * cur) < adaptive_limit d then d
         else case d_target lg request_time d of
                None \<Rightarrow> d
              | Some n \<Rightarrow> d\<lparr>adaptive_limit := d_clamp (max_limit d) n\<rparr>)"

text \<open>
  \<open>RequestEnd\<close> takes the count down and updates with the value before: two steps, since
  the count is an atomic and the rest is under the mutex. \<open>Duration.Microseconds\<close> truncates.
\<close>

definition microseconds :: "duration \<Rightarrow> int" where
  "microseconds t = t sdiv 1000"

definition request_leave :: "detector \<Rightarrow> int \<times> detector" where
  "request_leave d = (requests d, d\<lparr>requests := i64 (requests d - 1)\<rparr>)"

definition request_end :: "(f64 \<Rightarrow> f64) \<Rightarrow> f64 \<Rightarrow> duration \<Rightarrow> detector \<Rightarrow> detector" where
  "request_end lg r t d =
     (case request_leave d of (cur, d') \<Rightarrow> d_update lg r (microseconds t) cur d')"

definition detector_limit :: "detector \<Rightarrow> int" where "detector_limit d = adaptive_limit d"
definition detector_requests :: "detector \<Rightarrow> int" where "detector_requests d = requests d"

subsection \<open>The limit stays in its range\<close>

definition detector_inv :: "int \<Rightarrow> detector \<Rightarrow> bool" where
  "detector_inv m d \<longleftrightarrow> max_limit d = m \<and> 1 \<le> m \<and> m \<le> i64_max \<and> 1 \<le> adaptive_limit d \<and> adaptive_limit d \<le> m
     \<and> 1 \<le> lowest_request_time d \<and> lowest_request_time d \<le> i64_max"

lemma d_clamp_range: "1 \<le> m \<Longrightarrow> 1 \<le> d_clamp m n \<and> d_clamp m n \<le> m"
  by (simp add: d_clamp_def Let_def)

lemma d_update_inv: "detector_inv m d \<Longrightarrow> t \<le> i64_max \<Longrightarrow> detector_inv m (d_update lg r t cur d)"
  by (auto simp: d_update_def detector_inv_def Let_def d_reset_jitter_def d_clamp_range split: option.split)

lemma microseconds_bounds: "is_i64 t \<Longrightarrow> microseconds t \<le> i64_max" "t \<le> 0 \<Longrightarrow> microseconds t \<le> 0"
proof -
  have pos: "microseconds t = t div 1000" if "0 \<le> t" using that by (simp add: microseconds_def sdiv_nonneg)
  have neg: "microseconds t \<le> 0" if "t \<le> 0"
    using that by (auto simp: microseconds_def signed_divide_int_def sgn_if pos_imp_zdiv_nonneg_iff)
  show "t \<le> 0 \<Longrightarrow> microseconds t \<le> 0" by (rule neg)
  show "is_i64 t \<Longrightarrow> microseconds t \<le> i64_max" using pos neg by (cases "0 \<le> t") (auto simp: is_i64_def)
qed

text \<open>As a limit: the count is the one the sample brings.\<close>

definition detector_on_sample :: "(f64 \<Rightarrow> f64) \<Rightarrow> f64 \<Rightarrow> sample \<Rightarrow> detector \<Rightarrow> detector" where
  "detector_on_sample lg r x d = d_update lg r (microseconds (rtt x)) (inflight x) d"

interpretation detector: rtt_limit "detector_on_sample lg" detector_limit "\<lambda>_. True" "detector_inv m" 1 m
  for lg m
proof unfold_locales
  fix d e x assume "detector_inv m d" "valid_sample x"
  then show "detector_inv m (detector_on_sample lg e x d)"
    unfolding detector_on_sample_def by (intro d_update_inv microseconds_bounds) (simp_all add: valid_sample_def)
next
  fix x :: sample and e d assume "rtt x \<le> 0"
  then have "microseconds (rtt x) \<le> 0" by (rule microseconds_bounds(2))
  then show "detector_on_sample lg e x d = d" by (simp add: detector_on_sample_def d_update_def)
qed (simp add: detector_inv_def detector_limit_def)

subsection \<open>The estimated queue\<close>

text \<open>A longer response time means a longer estimated queue, up to the whole limit.\<close>

lemma queue_share:
  assumes "1 \<le> low" "low \<le> t" "t \<le> i64_max" "1 \<le> limit" "limit \<le> i64_max"
  obtains f where "fmul (f64_of_int limit) (fsub (Fin 1) (fdiv (f64_of_int low) (f64_of_int t))) = Fin f"
    "f = rne (rne (of_int limit) * rne (1 - rne (rne (of_int low) / rne (of_int t))))"
    "0 \<le> f" "f \<le> rne (of_int limit)" "1 \<le> rne (of_int t)"
proof -
  have le: "low \<le> 2 ^ 64" "1 \<le> t" "t \<le> 2 ^ 64" "limit \<le> 2 ^ 64" using assms by simp_all
  obtain p where p: "f64_of_int low = Fin p" "1 \<le> p" "p = rne (of_int low)"
    using assms(1) le(1) by (rule f64_of_int_pos)
  obtain q where q: "f64_of_int t = Fin q" "1 \<le> q" "q = rne (of_int t)"
    using le(2,3) by (rule f64_of_int_pos)
  obtain k where k: "f64_of_int limit = Fin k" "repr k" "1 \<le> k" "k \<le> 2 ^ 64" "k = rne (of_int limit)"
    using assms(4) le(4) by (rule f64_of_int_pos)
  have pq: "p \<le> q" unfolding p(3) q(3) using assms by (intro rne_mono) simp
  have b01: "f64_bounds 0 1" by (intro f64_bounds_le) simp_all
  have r: "0 \<le> p / q" "p / q \<le> 1" using p(2) q(2) pq by simp_all
  note d = rnd_eq [OF b01 r]
  have "0 \<le> 1 - rne (p / q)" "1 - rne (p / q) \<le> 1" using d by simp_all
  note u = rnd_eq [OF b01 this]
  have bk: "f64_bounds 0 k" using k by (intro f64_bounds_le) simp_all
  have "0 \<le> k * rne (1 - rne (p / q))" "k * rne (1 - rne (p / q)) \<le> k"
    using u k(3) by (simp_all add: mult_left_le)
  note f = rnd_eq [OF bk this]
  show thesis
    by (rule that [of "rne (k * rne (1 - rne (p / q)))"])
      (use p q k d u f in \<open>simp_all add: fdiv_Fin\<close>)
qed

lemma d_queue_size_eq:
  assumes "detector_inv m d" "lowest_request_time d \<le> t" "t \<le> i64_max" "m \<le> 2 ^ 53"
  obtains f where "d_queue_size t d = \<lceil>f\<rceil>" "0 \<le> f" "f \<le> of_int (adaptive_limit d)"
    "f = rne (of_int (adaptive_limit d) * rne (1 - rne (rne (of_int (lowest_request_time d)) / rne (of_int t))))"
    "1 \<le> rne (of_int t)"
proof -
  note i = assms(1) [unfolded detector_inv_def]
  have L: "rne (of_int (adaptive_limit d)) = of_int (adaptive_limit d)"
    using i assms(4) by (intro rne_of_small) simp
  obtain f where f: "fmul (f64_of_int (adaptive_limit d))
      (fsub (Fin 1) (fdiv (f64_of_int (lowest_request_time d)) (f64_of_int t))) = Fin f"
    "f = rne (rne (of_int (adaptive_limit d)) * rne (1 - rne (rne (of_int (lowest_request_time d)) / rne (of_int t))))"
    "0 \<le> f" "f \<le> rne (of_int (adaptive_limit d))" "1 \<le> rne (of_int t)"
    by (rule queue_share [of "lowest_request_time d" t "adaptive_limit d"]) (use i assms in auto)
  have "\<lceil>f\<rceil> \<le> adaptive_limit d" "0 \<le> \<lceil>f\<rceil>" using f L by (simp_all add: ceiling_le_iff)
  then have "is_i64 \<lceil>f\<rceil>" using i unfolding is_i64_def by linarith
  then have "d_queue_size t d = \<lceil>f\<rceil>" using f(1) by (simp add: d_queue_size_def)
  with f show thesis unfolding L by (intro that) simp_all
qed

lemma d_queue_size_mono:
  assumes "detector_inv m d" "lowest_request_time d \<le> t" "t \<le> u" "u \<le> i64_max" "m \<le> 2 ^ 53"
  shows "d_queue_size t d \<le> d_queue_size u d"
proof -
  obtain f where f: "d_queue_size t d = \<lceil>f\<rceil>" "1 \<le> rne (of_int t)"
    "f = rne (of_int (adaptive_limit d) * rne (1 - rne (rne (of_int (lowest_request_time d)) / rne (of_int t))))"
    by (rule d_queue_size_eq [OF assms(1,2) _ assms(5)]) (use assms in auto)
  obtain g where g: "d_queue_size u d = \<lceil>g\<rceil>" "1 \<le> rne (of_int u)"
    "g = rne (of_int (adaptive_limit d) * rne (1 - rne (rne (of_int (lowest_request_time d)) / rne (of_int u))))"
    by (rule d_queue_size_eq [OF assms(1) _ assms(4,5)]) (use assms in auto)
  have "rne (of_int t) \<le> rne (of_int u)" using assms(3) by (intro rne_mono) simp
  moreover have "0 \<le> rne (of_int (lowest_request_time d))"
    using assms(1) by (intro rne_nonneg) (simp add: detector_inv_def)
  ultimately have "rne (of_int (lowest_request_time d)) / rne (of_int u)
      \<le> rne (of_int (lowest_request_time d)) / rne (of_int t)"
    using f(2) by (intro divide_left_mono) simp_all
  then have "rne (1 - rne (rne (of_int (lowest_request_time d)) / rne (of_int t)))
      \<le> rne (1 - rne (rne (of_int (lowest_request_time d)) / rne (of_int u)))"
    by (intro rne_mono diff_left_mono)
  then have "f \<le> g" unfolding f(3) g(3)
    using assms(1) by - (rule rne_mono, rule mult_left_mono, assumption, simp add: detector_inv_def)
  then show ?thesis unfolding f(1) g(1) by (rule ceiling_mono)
qed

subsection \<open>What a completion does to the limit\<close>

text \<open>The factors are such that no product leaves 64 bits and a grown limit grows.\<close>

definition detector_ok :: "int \<Rightarrow> (f64 \<Rightarrow> f64) \<Rightarrow> detector \<Rightarrow> bool" where
  "detector_ok m lg d \<longleftrightarrow> detector_inv m d \<and> m \<le> 2 ^ 53 \<and> log10_like lg
     \<and> 0 \<le> alpha_factor d \<and> alpha_factor d \<le> 100 \<and> 1 \<le> beta_factor d \<and> beta_factor d \<le> 100"

lemma log10_plus1_bounds:
  assumes "log10_like lg" "1 \<le> n" "n \<le> 2 ^ 53"
  shows "1 \<le> log10_plus1 lg n" "log10_plus1 lg n \<le> n + 1"
proof -
  from log10_raw_bounds [OF assms] assms(3)
  have b: "0 \<le> f64_to_i64 (lg (f64_of_int n))" "f64_to_i64 (lg (f64_of_int n)) \<le> n" by simp_all
  then have "i64 (1 + f64_to_i64 (lg (f64_of_int n))) = 1 + f64_to_i64 (lg (f64_of_int n))"
    using assms(3) by (intro i64_idI) simp_all
  with b assms(2) show "1 \<le> log10_plus1 lg n" "log10_plus1 lg n \<le> n + 1"
    by (auto simp: log10_plus1_def log10_plus1_table_def)
qed

lemma d_target_eq:
  assumes "detector_ok m lg d" "L = adaptive_limit d" "l = log10_plus1 lg L"
  shows "d_target lg t d =
    (if d_queue_size t d \<le> l then Some (L + beta_factor d * l)
     else if d_queue_size t d < alpha_factor d * l then Some (L + l)
     else if beta_factor d * l < d_queue_size t d then Some (L - l)
     else None)"
    "1 \<le> l"
proof -
  note i = assms(1) [unfolded detector_ok_def detector_inv_def]
  have l: "1 \<le> l" "l \<le> 2 ^ 53 + 1"
    using log10_plus1_bounds [of lg L] i assms(2,3) by auto
  have L: "1 \<le> L" "L \<le> 2 ^ 53" using i assms(2) by auto
  have a: "0 \<le> alpha_factor d * l" "alpha_factor d * l \<le> 100 * (2 ^ 53 + 1)"
    using i l by (simp, intro mult_mono) simp_all
  have b: "0 \<le> beta_factor d * l" "beta_factor d * l \<le> 100 * (2 ^ 53 + 1)"
    using i l by (simp, intro mult_mono) simp_all
  have "i64 (alpha_factor d * l) = alpha_factor d * l" "i64 (beta_factor d * l) = beta_factor d * l"
    "i64 (L + beta_factor d * l) = L + beta_factor d * l" "i64 (L + l) = L + l" "i64 (L - l) = L - l"
    by (rule i64_idI; use a b l L in simp)+
  then show "d_target lg t d =
    (if d_queue_size t d \<le> l then Some (L + beta_factor d * l)
     else if d_queue_size t d < alpha_factor d * l then Some (L + l)
     else if beta_factor d * l < d_queue_size t d then Some (L - l)
     else None)"
    unfolding d_target_def Let_def assms(2) [symmetric] assms(3) [symmetric] by (simp only:)
  show "1 \<le> l" by (rule l)
qed

lemma d_clamp_mono: "1 \<le> m \<Longrightarrow> a \<le> b \<Longrightarrow> d_clamp m a \<le> d_clamp m b"
  by (simp add: d_clamp_def Let_def)

lemma d_clamp_id: "1 \<le> a \<Longrightarrow> a \<le> m \<Longrightarrow> d_clamp m a = a"
  by (simp add: d_clamp_def)

text \<open>
  C27. Slower responses never earn a higher limit, when neither is a new lowest time and no probe
  is due: of two completions in the same state with the same count, the one with the longer
  response time leaves the detector with the same or a lower limit. The state's limit is from 1
  to its maximum of at most \<open>2 ^ 53\<close>, the factors are at most 100, \<open>beta\<close> at least 1,
  and the logarithm is one of \<open>log10_like\<close> (\<open>detector_ok\<close>). A new lowest time only moves
  the baseline, so there a slower completion can earn more.
\<close>

theorem detector_response_monotone:
  assumes "detector_ok m lg d" "lowest_request_time d \<le> t" "t \<le> u" "u \<le> i64_max"
    and "\<not> d_probe_due (d\<lparr>d_probe_count := fadd (d_probe_count d) (Fin 1)\<rparr>)"
  shows "adaptive_limit (d_update lg r u cur d) \<le> adaptive_limit (d_update lg r t cur d)"
proof -
  let ?d = "d\<lparr>d_probe_count := fadd (d_probe_count d) (Fin 1)\<rparr>"
  let ?L = "adaptive_limit d"
  have inv: "detector_inv m d" "m \<le> 2 ^ 53" using assms(1) by (simp_all add: detector_ok_def)
  note i = inv(1) [unfolded detector_inv_def]
  have new: "adaptive_limit (d_update lg r v cur d) =
      (if i64 (2 * cur) < ?L then ?L else case d_target lg v d of None \<Rightarrow> ?L | Some n \<Rightarrow> d_clamp m n)"
    if "lowest_request_time d \<le> v" for v
    using that i assms(5) by (simp add: d_update_def Let_def d_target_def d_queue_size_def split: option.split)
  have q: "d_queue_size t d \<le> d_queue_size u d"
    using inv(1) assms(2-4) inv(2) by (rule d_queue_size_mono)
  have bf: "1 \<le> beta_factor d" using assms(1) by (simp add: detector_ok_def)
  obtain l where l: "l = log10_plus1 lg ?L" by blast
  note target = d_target_eq [OF assms(1) refl l]
  have bl: "l \<le> beta_factor d * l" using mult_right_mono [OF bf, of l] target(2) by simp
  have id: "d_clamp m ?L = ?L" using i by (intro d_clamp_id) simp_all
  have cm: "a \<le> b \<Longrightarrow> d_clamp m a \<le> d_clamp m b" for a b using i by (intro d_clamp_mono) simp_all
  have up: "?L \<le> d_clamp m (?L + l)" "?L \<le> d_clamp m (?L + beta_factor d * l)" "d_clamp m (?L - l) \<le> ?L"
    "d_clamp m (?L + l) \<le> d_clamp m (?L + beta_factor d * l)" "d_clamp m (?L - l) \<le> d_clamp m (?L + l)"
    "d_clamp m (?L - l) \<le> d_clamp m (?L + beta_factor d * l)"
    using cm [of ?L "?L + l"] cm [of ?L "?L + beta_factor d * l"] cm [of "?L - l" ?L]
      cm [of "?L + l" "?L + beta_factor d * l"] cm [of "?L - l" "?L + l"] cm [of "?L - l" "?L + beta_factor d * l"]
      target(2) bl unfolding id by linarith+
  have "lowest_request_time d \<le> u" using assms(2,3) by simp
  then show ?thesis unfolding new [OF assms(2)] new [OF \<open>lowest_request_time d \<le> u\<close>] target(1)
    using q up bl by auto
qed

definition demo_detector :: detector where
  "demo_detector = \<lparr>max_limit = 1000, alpha_factor = 3, beta_factor = 6, probe_factor = Fin 30, requests = 80,
     adaptive_limit = 100, lowest_request_time = 1000, d_probe_count = Fin 0, d_probe_jitter = Fin (1/2)\<rparr>"

theorem detector_response_monotone_witness:
  "lowest_request_time demo_detector \<le> 2000
   \<and> adaptive_limit (d_update lg_digits (Fin 0) 4000 80 demo_detector)
     \<le> adaptive_limit (d_update lg_digits (Fin 0) 2000 80 demo_detector)"
proof -
  have "detector_ok 1000 lg_digits demo_detector"
    by (simp add: detector_ok_def detector_inv_def demo_detector_def log10_like_digits)
  moreover have "lowest_request_time demo_detector \<le> 2000" by (simp add: demo_detector_def)
  moreover have "rnd 15 = Fin 15" "rnd 1500 = Fin 1500" by (rule rnd_by_rne [OF rne_of_small [of 15, simplified]], simp)
    (rule rnd_by_rne [OF rne_of_small [of 1500, simplified]], simp)
  then have "\<not> d_probe_due (demo_detector\<lparr>d_probe_count := fadd (d_probe_count demo_detector) (Fin 1)\<rparr>)"
    by (simp add: d_probe_due_def demo_detector_def)
  ultimately show ?thesis
    using detector_response_monotone [of 1000 lg_digits demo_detector 2000 4000 "Fin 0" 80] by simp
qed

end
