(* ===== verification/Priority.thy ===== *)
theory Priority
  imports Detector
begin

text \<open>
  The priority shedding of the Quarkus port (quarkus/priority.go): once overloaded, a request is
  shed when the score of its priority and cohort is above a threshold that falls with the cube
  of the CPU load and is computed at most once per second. The classifiers and prioritizers are
  the program's users' code: pairs of functions, inspected in order.
\<close>

subsection \<open>Priorities and cohorts\<close>

definition MinCohort :: int where "MinCohort = 1"
definition MaxCohort :: int where "MaxCohort = 128"

text \<open>A \<open>RequestPriority\<close> is an \<open>int\<close>, of which five values are named.\<close>

definition PriorityCritical :: int where "PriorityCritical = 0"
definition PriorityImportant :: int where "PriorityImportant = 1"
definition PriorityNormal :: int where "PriorityNormal = 2"
definition PriorityBackground :: int where "PriorityBackground = 3"
definition PriorityDegraded :: int where "PriorityDegraded = 4"
definition num_priorities :: int where "num_priorities = 5"

lemmas priority_defs = MinCohort_def MaxCohort_def PriorityCritical_def PriorityImportant_def
  PriorityNormal_def PriorityBackground_def PriorityDegraded_def num_priorities_def

definition cohort_baseline :: "int \<Rightarrow> int" where
  "cohort_baseline p = i64 (p * MaxCohort)"

definition normalize_cohort :: "int \<Rightarrow> int" where
  "normalize_cohort c =
     (if c = i64_min then MaxCohort
      else if c < 0 then i64 (i64 (- c) smod MaxCohort + 1)
      else if c = 0 then MinCohort
      else if MaxCohort < c then i64 (c smod MaxCohort + 1)
      else c)"

subsection \<open>State and operations\<close>

record 'r priority_shedding =
  p_enabled :: bool
  p_max :: int
  prioritizers :: "(('r \<Rightarrow> bool) \<times> ('r \<Rightarrow> int)) list"
  classifiers :: "(('r \<Rightarrow> bool) \<times> ('r \<Rightarrow> int)) list"
  last_threshold :: f64
  last_threshold_time :: int

type_synonym 'r priority_option = "'r priority_shedding \<Rightarrow> 'r priority_shedding"

definition with_prioritizers :: "(('r \<Rightarrow> bool) \<times> ('r \<Rightarrow> int)) list \<Rightarrow> 'r priority_option" where
  "with_prioritizers ps p = p\<lparr>prioritizers := ps\<rparr>"

definition with_classifiers :: "(('r \<Rightarrow> bool) \<times> ('r \<Rightarrow> int)) list \<Rightarrow> 'r priority_option" where
  "with_classifiers cs p = p\<lparr>classifiers := cs\<rparr>"

definition new_priority :: "quarkus_config \<Rightarrow> 'r priority_option list \<Rightarrow> 'r priority_shedding" where
  "new_priority cfg opts = fold id opts
     \<lparr>p_enabled = cfg_priority cfg, p_max = i64 (num_priorities * MaxCohort), prioritizers = [],
      classifiers = [], last_threshold = Fin 0, last_threshold_time = 0\<rparr>"

text \<open>The first that applies.\<close>

fun first_applying :: "(('r \<Rightarrow> bool) \<times> ('r \<Rightarrow> int)) list \<Rightarrow> int \<Rightarrow> 'r \<Rightarrow> int" where
  "first_applying [] dflt req = dflt"
| "first_applying (f # fs) dflt req = (if fst f req then snd f req else first_applying fs dflt req)"

definition priority_of :: "'r priority_shedding \<Rightarrow> 'r \<Rightarrow> int" where
  "priority_of p req = first_applying (prioritizers p) PriorityNormal req"

definition cohort_of :: "'r priority_shedding \<Rightarrow> 'r \<Rightarrow> int" where
  "cohort_of p req = normalize_cohort (first_applying (classifiers p) 64 req)"

definition score_of :: "'r priority_shedding \<Rightarrow> 'r \<Rightarrow> int" where
  "score_of p req = i64 (cohort_baseline (priority_of p req) + cohort_of p req)"

definition threshold_for :: "int \<Rightarrow> f64 \<Rightarrow> f64" where
  "threshold_for mx load =
     (if flt load (Fin 0) then Fin (- 1)
      else fmul (f64_of_int mx) (fsub (Fin 1) (fmul (fmul load load) load)))"

text \<open>The environment is the clock in milliseconds and what \<open>cpuLoad()\<close> returns.\<close>

definition refresh_threshold :: "int \<times> f64 \<Rightarrow> 'r priority_shedding \<Rightarrow> 'r priority_shedding" where
  "refresh_threshold env p =
     (if 1000 < i64 (fst env - last_threshold_time p)
      then p\<lparr>last_threshold := threshold_for (p_max p) (snd env), last_threshold_time := fst env\<rparr>
      else p)"

definition shed_load :: "int \<times> f64 \<Rightarrow> 'r \<Rightarrow> 'r priority_shedding \<Rightarrow> bool \<times> 'r priority_shedding" where
  "shed_load env req p =
     (if \<not> p_enabled p then (True, p)
      else let p = refresh_threshold env p
      in if flt (last_threshold p) (Fin 0) then (True, p)
         else (flt (last_threshold p) (f64_of_int (score_of p req)), p))"

definition default_cpu_load :: "int \<Rightarrow> f64" where
  "default_cpu_load usage = fdiv (f64_of_int usage) (Fin 1000)"

subsection \<open>Scores\<close>

text \<open>Every cohort, the least \<open>int\<close> included, lands in the range.\<close>

lemma normalize_cohort_range: "is_i64 c \<Longrightarrow> 1 \<le> normalize_cohort c \<and> normalize_cohort c \<le> 128"
proof -
  assume c: "is_i64 c"
  have m: "0 \<le> x smod 128 \<and> x smod 128 < 128" if "0 \<le> x" for x :: int
    using that by (simp add: smod_nonneg)
  consider "c = i64_min" | "c \<noteq> i64_min" "c < 0" | "c = 0" | "128 < c" | "0 < c" "c \<le> 128" by linarith
  then show ?thesis
  proof cases
    case 2
    then have "i64 (- c) = - c" using c by (intro i64_idI) (simp_all add: is_i64_def)
    then have "normalize_cohort c = i64 (- c smod 128 + 1)" using 2 by (simp add: normalize_cohort_def priority_defs)
    moreover have "0 \<le> - c smod 128 \<and> - c smod 128 < 128" using 2 by (intro m) simp
    ultimately show ?thesis by (simp add: i64_idI)
  next
    case 4
    then have "normalize_cohort c = i64 (c smod 128 + 1)" by (simp add: normalize_cohort_def priority_defs)
    moreover have "0 \<le> c smod 128 \<and> c smod 128 < 128" using 4 by (intro m) simp
    ultimately show ?thesis by (simp add: i64_idI)
  qed (simp_all add: normalize_cohort_def priority_defs)
qed

text \<open>A request whose classifiers return an \<open>int\<close> and whose priority is one of the five.\<close>

definition request_ok :: "'r priority_shedding \<Rightarrow> 'r \<Rightarrow> bool" where
  "request_ok p req \<longleftrightarrow> is_i64 (first_applying (classifiers p) 64 req)
     \<and> PriorityCritical \<le> priority_of p req \<and> priority_of p req \<le> PriorityDegraded"

lemma score_eq:
  assumes "request_ok p req"
  shows "score_of p req = 128 * priority_of p req + cohort_of p req"
    "1 \<le> cohort_of p req" "cohort_of p req \<le> 128" "1 \<le> score_of p req" "score_of p req \<le> 640"
proof -
  have c: "1 \<le> cohort_of p req" "cohort_of p req \<le> 128"
    using normalize_cohort_range [of "first_applying (classifiers p) 64 req"] assms
    by (simp_all add: cohort_of_def request_ok_def)
  have p: "0 \<le> priority_of p req" "priority_of p req \<le> 4" using assms by (simp_all add: request_ok_def priority_defs)
  have "cohort_baseline (priority_of p req) = 128 * priority_of p req"
    unfolding cohort_baseline_def priority_defs using p by (subst i64_idI) simp_all
  then show s: "score_of p req = 128 * priority_of p req + cohort_of p req"
    unfolding score_of_def using p c by (subst i64_idI) simp_all
  show "1 \<le> cohort_of p req" "cohort_of p req \<le> 128" by (rule c)+
  show "1 \<le> score_of p req" "score_of p req \<le> 640" unfolding s using p c by simp_all
qed

subsection \<open>The threshold\<close>

text \<open>For a load from 0 to 1 the threshold is a number from 0 to the maximum, falling with the load.\<close>

lemma threshold_range:
  assumes "finite_in 0 1 (Fin x)" "1 \<le> mx" "mx \<le> 2 ^ 53"
  obtains t where "threshold_for mx (Fin x) = Fin t" "0 \<le> t" "t \<le> of_int mx"
    "t = rne (of_int mx * rne (1 - rne (rne (x * x) * x)))"
proof -
  have x: "0 \<le> x" "x \<le> 1" using assms(1) by (auto simp: finite_in_def)
  have b01: "f64_bounds 0 1" by (intro f64_bounds_le) simp_all
  have "0 \<le> x * x" "x * x \<le> 1" using x by (simp_all add: mult_le_one)
  note s = rnd_eq [OF b01 this]
  have "0 \<le> rne (x * x) * x" "rne (x * x) * x \<le> 1" using s x by (simp_all add: mult_le_one)
  note c = rnd_eq [OF b01 this]
  have "0 \<le> 1 - rne (rne (x * x) * x)" "1 - rne (rne (x * x) * x) \<le> 1" using c by simp_all
  note d = rnd_eq [OF b01 this]
  have bm: "f64_bounds 0 (of_int mx)" using f64_bounds_of_int [of 0 mx] assms(2,3) by simp
  have mx: "(1 :: rat) \<le> of_int mx" using assms(2) by simp
  have "0 \<le> of_int mx * rne (1 - rne (rne (x * x) * x))"
    "of_int mx * rne (1 - rne (rne (x * x) * x)) \<le> of_int mx"
    using d mx by (simp_all add: mult_left_le)
  note t = rnd_eq [OF bm this]
  have "f64_of_int mx = Fin (of_int mx)" using assms(2,3) by (intro f64_of_int_exact) simp
  then have "threshold_for mx (Fin x) = Fin (rne (of_int mx * rne (1 - rne (rne (x * x) * x))))"
    using x s c d t by (simp add: threshold_for_def)
  with t x show thesis by (intro that) simp_all
qed

lemma threshold_antimono:
  assumes "finite_in 0 1 a" "finite_in 0 1 b" "fle a b" "1 \<le> mx" "mx \<le> 2 ^ 53"
  obtains s t where "threshold_for mx a = Fin s" "threshold_for mx b = Fin t" "t \<le> s" "0 \<le> t" "s \<le> of_int mx"
proof -
  obtain x where x: "a = Fin x" "0 \<le> x" "x \<le> 1" using assms(1) by (auto simp: finite_in_def)
  obtain y where y: "b = Fin y" "0 \<le> y" "y \<le> 1" using assms(2) by (auto simp: finite_in_def)
  have xy: "x \<le> y" using assms(3) x y by simp
  obtain s where s: "threshold_for mx a = Fin s" "0 \<le> s" "s \<le> of_int mx"
    "s = rne (of_int mx * rne (1 - rne (rne (x * x) * x)))"
    using assms(1,4,5) unfolding x(1) by (rule threshold_range)
  obtain t where t: "threshold_for mx b = Fin t" "0 \<le> t" "t \<le> of_int mx"
    "t = rne (of_int mx * rne (1 - rne (rne (y * y) * y)))"
    using assms(2,4,5) unfolding y(1) by (rule threshold_range)
  have "x * x \<le> y * y" using x y xy by (intro mult_mono)
  then have "rne (x * x) \<le> rne (y * y)" by (rule rne_mono)
  then have "rne (x * x) * x \<le> rne (y * y) * y"
    using x y xy rne_nonneg [of "x * x"] rne_nonneg [of "y * y"] by (intro mult_mono) simp_all
  then have "1 - rne (rne (y * y) * y) \<le> 1 - rne (rne (x * x) * x)" using rne_mono by (intro diff_left_mono)
  then have "rne (1 - rne (rne (y * y) * y)) \<le> rne (1 - rne (rne (x * x) * x))" by (rule rne_mono)
  then have "of_int mx * rne (1 - rne (rne (y * y) * y)) \<le> of_int mx * rne (1 - rne (rne (x * x) * x))"
    using assms(4) by (intro mult_left_mono) simp_all
  then have "t \<le> s" unfolding s(4) t(4) by (rule rne_mono)
  with s t show thesis by (intro that)
qed

subsection \<open>Who is shed\<close>

lemma refresh_fields [simp]:
  "classifiers (refresh_threshold env p) = classifiers p" "prioritizers (refresh_threshold env p) = prioritizers p"
  "p_max (refresh_threshold env p) = p_max p" "p_enabled (refresh_threshold env p) = p_enabled p"
  by (simp_all add: refresh_threshold_def)

lemma refresh_score [simp]: "score_of (refresh_threshold env p) req = score_of p req"
  by (simp add: score_of_def priority_of_def cohort_of_def)

text \<open>With a fresh threshold from a load in its range, a request is shed when its score is above it.\<close>

lemma shed_fresh:
  assumes "p_enabled p" "1000 < i64 (now - last_threshold_time p)" "threshold_for (p_max p) load = Fin t" "0 \<le> t"
    and "request_ok p req"
  shows "fst (shed_load (now, load) req p) \<longleftrightarrow> t < of_int (score_of p req)"
proof -
  have "last_threshold (refresh_threshold (now, load) p) = Fin t" using assms(2,3) by (simp add: refresh_threshold_def)
  moreover have "f64_of_int (score_of p req) = Fin (of_int (score_of p req))"
    using score_eq(4,5) [OF assms(5)] by (intro f64_of_int_exact) simp
  ultimately show ?thesis using assms(1,4) by (simp add: shed_load_def Let_def)
qed

text \<open>
  C26. Shedding respects importance and load: when a request is shed at some CPU load, then at
  the same or a higher load every request of a less important priority is shed, and every one
  of the same priority and no smaller cohort, whatever the classifiers return.
\<close>

theorem shed_order:
  assumes "request_ok p r1" "request_ok p r2"
    and "priority_of p r1 < priority_of p r2 \<or> priority_of p r1 = priority_of p r2 \<and> cohort_of p r1 \<le> cohort_of p r2"
    and "finite_in 0 1 a" "finite_in 0 1 b" "fle a b" "1 \<le> p_max p" "p_max p \<le> 2 ^ 53"
    and "1000 < i64 (now - last_threshold_time p)" "fst (shed_load (now, a) r1 p)"
  shows "fst (shed_load (now, b) r2 p)"
proof (cases "p_enabled p")
  case True
  obtain s t where st: "threshold_for (p_max p) a = Fin s" "threshold_for (p_max p) b = Fin t" "t \<le> s" "0 \<le> t"
    using assms(4-8) by (rule threshold_antimono)
  have "score_of p r1 \<le> score_of p r2"
    using assms(3) score_eq(1-3) [OF assms(1)] score_eq(1-3) [OF assms(2)] by linarith
  then have "(of_int (score_of p r1) :: rat) \<le> of_int (score_of p r2)" by simp
  moreover have "s < of_int (score_of p r1)"
    using shed_fresh [OF True assms(9) st(1) _ assms(1)] st(3,4) assms(10) by simp
  ultimately show ?thesis using shed_fresh [OF True assms(9) st(2,4) assms(2)] st(3) by simp
qed (simp add: shed_load_def)

definition demo_priority :: "int priority_shedding" where
  "demo_priority = new_priority default_quarkus_config [with_prioritizers [(\<lambda>_. True, \<lambda>r. r)]]"

theorem shed_order_witness:
  "request_ok demo_priority PriorityCritical \<and> fst (shed_load (5000, Fin 1) PriorityDegraded demo_priority)"
proof -
  have ok: "request_ok demo_priority PriorityCritical" "request_ok demo_priority PriorityDegraded"
    by (simp_all add: request_ok_def demo_priority_def new_priority_def with_prioritizers_def priority_of_def
        priority_defs is_i64_def default_quarkus_config_def)
  have lt: "priority_of demo_priority PriorityCritical < priority_of demo_priority PriorityDegraded"
    by (simp add: demo_priority_def new_priority_def with_prioritizers_def priority_of_def priority_defs)
  have f: "p_enabled demo_priority" "p_max demo_priority = 640" "last_threshold_time demo_priority = 0"
    by (simp_all add: demo_priority_def new_priority_def with_prioritizers_def priority_defs default_quarkus_config_def i64_idI)
  have fresh: "1000 < i64 (5000 - last_threshold_time demo_priority)" unfolding f by (simp add: i64_idI)
  have "threshold_for 640 (Fin 1) = Fin 0" by (simp add: threshold_for_def)
  with shed_fresh [OF f(1) fresh _ _ ok(1), of "Fin 1" 0] f score_eq(4) [OF ok(1)]
  have s: "fst (shed_load (5000, Fin 1) PriorityCritical demo_priority)" by simp
  have "finite_in 0 1 (Fin 1)" "fle (Fin 1) (Fin 1)" by (simp_all add: finite_in_def)
  then have "fst (shed_load (5000, Fin 1) PriorityDegraded demo_priority)"
    using ok lt f fresh s by (intro shed_order [of demo_priority PriorityCritical PriorityDegraded "Fin 1" "Fin 1"]) simp_all
  with ok show ?thesis by simp
qed

text \<open>
  The two ends of the load: an overloaded detector sheds nothing when the CPU is idle, and
  at a load of 1 everything, critical requests of every cohort included: the threshold is 0
  there, below every score.
\<close>

theorem shed_at_the_ends:
  assumes "p = new_priority default_quarkus_config [with_prioritizers ps, with_classifiers cs]"
    and "request_ok p req" "1000 < now" "now \<le> i64_max"
  shows "\<not> fst (shed_load (now, Fin 0) req p) \<and> fst (shed_load (now, Fin 1) req p)"
proof -
  have f: "p_enabled p" "p_max p = 640" "last_threshold_time p = 0"
    by (simp_all add: assms(1) new_priority_def with_prioritizers_def with_classifiers_def priority_defs
        default_quarkus_config_def i64_idI)
  have fresh: "1000 < i64 (now - last_threshold_time p)" unfolding f using assms(3,4) by (simp add: i64_idI)
  have "threshold_for 640 (Fin 1) = Fin 0" by (simp add: threshold_for_def)
  moreover have "rnd 640 = Fin 640" by (rule rnd_by_rne [OF rne_of_small [of 640, simplified]]) simp
  then have "threshold_for 640 (Fin 0) = Fin 640" by (simp add: threshold_for_def f64_of_int_def)
  ultimately show ?thesis
    using shed_fresh [OF f(1) fresh _ _ assms(2), of "Fin 0" 640] shed_fresh [OF f(1) fresh _ _ assms(2), of "Fin 1" 0]
      f(2) score_eq(4,5) [OF assms(2)] by simp
qed

theorem shed_at_the_ends_witness:
  "fst (shed_load (5000, Fin 1) PriorityCritical (new_priority default_quarkus_config
      [with_prioritizers [(\<lambda>_. True, \<lambda>_. PriorityCritical)], with_classifiers [(\<lambda>_. True, \<lambda>_. 1)]]))"
proof -
  let ?p = "new_priority default_quarkus_config
      [with_prioritizers [(\<lambda>_. True, \<lambda>_. PriorityCritical)], with_classifiers [(\<lambda>_. True, \<lambda>_. 1)]]"
  have "request_ok ?p PriorityCritical"
    by (simp add: request_ok_def new_priority_def with_prioritizers_def with_classifiers_def priority_of_def
        priority_defs is_i64_def)
  from shed_at_the_ends [OF refl this, of 5000] show ?thesis by simp
qed

end
