(* ===== verification/QuarkusShedder.thy ===== *)
theory QuarkusShedder
  imports Priority Http "HOL-Library.Multiset"
begin

text \<open>
  The Quarkus shedder (quarkus/shedder.go): the detector tells whether the service is
  overloaded, and then the priority shedding decides. \<open>Admit\<close> loads the count, then loads
  the limit and decides, then counts the request in; the \<open>done\<close> callback counts it out and
  then updates the limit under the mutex. Each of these is one step, so that requests
  interleave between them.
\<close>

subsection \<open>State and steps\<close>

record 'r quarkus =
  q_detector :: detector
  q_priority :: "'r priority_shedding"
  q_loaded :: "(nat \<times> 'r \<times> int) multiset"    \<comment> \<open>the count has been loaded\<close>
  q_passed :: "nat multiset"                    \<comment> \<open>admitted, not yet counted\<close>
  q_running :: "(nat \<times> time) multiset"         \<comment> \<open>counted, with the start time\<close>
  q_leaving :: "(nat \<times> duration \<times> int) multiset"  \<comment> \<open>counted out, not yet sampled\<close>
  q_shed :: "nat multiset"
  q_finished :: "nat multiset"
  q_started :: "nat multiset"

definition new_quarkus :: "quarkus_config \<Rightarrow> 'r priority_option list \<Rightarrow> f64 \<Rightarrow> 'r quarkus" where
  "new_quarkus cfg opts r =
     \<lparr>q_detector = new_detector cfg r, q_priority = new_priority cfg opts, q_loaded = {#}, q_passed = {#},
      q_running = {#}, q_leaving = {#}, q_shed = {#}, q_finished = {#}, q_started = {#}\<rparr>"

definition q_load :: "nat \<Rightarrow> 'r \<Rightarrow> 'r quarkus \<Rightarrow> 'r quarkus option" where
  "q_load i req q =
     (if i \<in># q_started q then None
      else Some (q\<lparr>q_started := add_mset i (q_started q),
             q_loaded := add_mset (i, req, detector_requests (q_detector q)) (q_loaded q)\<rparr>))"

text \<open>\<open>IsOverloaded\<close> with the count loaded before, and \<open>ShedLoad\<close>, which runs only then.\<close>

definition q_decide :: "int \<times> f64 \<Rightarrow> nat \<times> 'r \<times> int \<Rightarrow> 'r quarkus \<Rightarrow> 'r quarkus option" where
  "q_decide env x q =
     (if x \<notin># q_loaded q then None
      else let q' = q\<lparr>q_loaded := q_loaded q - {#x#}\<rparr>
      in if detector_limit (q_detector q) \<le> snd (snd x)
         then (case shed_load env (fst (snd x)) (q_priority q) of
                 (True, p) \<Rightarrow> Some (q'\<lparr>q_priority := p, q_shed := add_mset (fst x) (q_shed q)\<rparr>)
               | (False, p) \<Rightarrow> Some (q'\<lparr>q_priority := p, q_passed := add_mset (fst x) (q_passed q)\<rparr>))
         else Some (q'\<lparr>q_passed := add_mset (fst x) (q_passed q)\<rparr>))"

text \<open>The count is a number of goroutines, so it is taken to stay below the end of \<open>int64\<close>.\<close>

definition q_begin :: "time \<Rightarrow> nat \<Rightarrow> 'r quarkus \<Rightarrow> 'r quarkus option" where
  "q_begin now i q =
     (if i \<notin># q_passed q \<or> i64_max \<le> requests (q_detector q) then None
      else Some (q\<lparr>q_passed := q_passed q - {#i#}, q_detector := request_begin (q_detector q),
             q_running := add_mset (i, now) (q_running q)\<rparr>))"

definition q_leave :: "time \<Rightarrow> nat \<times> time \<Rightarrow> 'r quarkus \<Rightarrow> 'r quarkus option" where
  "q_leave now x q =
     (if x \<notin># q_running q then None
      else case request_leave (q_detector q) of (cur, d) \<Rightarrow>
        Some (q\<lparr>q_running := q_running q - {#x#}, q_detector := d,
          q_leaving := add_mset (fst x, time_sub now (snd x), cur) (q_leaving q)\<rparr>))"

definition q_update :: "(f64 \<Rightarrow> f64) \<Rightarrow> f64 \<Rightarrow> nat \<times> duration \<times> int \<Rightarrow> 'r quarkus \<Rightarrow> 'r quarkus option" where
  "q_update lg r x q =
     (if x \<notin># q_leaving q then None
      else Some (q\<lparr>q_leaving := q_leaving q - {#x#}, q_finished := add_mset (fst x) (q_finished q),
             q_detector := d_update lg r (microseconds (fst (snd x))) (snd (snd x)) (q_detector q)\<rparr>))"

datatype 'r quarkus_event =
    QLoad nat 'r | QDecide "int \<times> f64" "nat \<times> 'r \<times> int" | QBegin time nat
  | QLeave time "nat \<times> time" | QUpdate f64 "nat \<times> duration \<times> int"

fun quarkus_exec :: "(f64 \<Rightarrow> f64) \<Rightarrow> 'r quarkus_event \<Rightarrow> 'r quarkus \<Rightarrow> 'r quarkus option" where
  "quarkus_exec lg (QLoad i req) q = q_load i req q"
| "quarkus_exec lg (QDecide env x) q = q_decide env x q"
| "quarkus_exec lg (QBegin now i) q = q_begin now i q"
| "quarkus_exec lg (QLeave now x) q = q_leave now x q"
| "quarkus_exec lg (QUpdate r x) q = q_update lg r x q"

inductive quarkus_step :: "(f64 \<Rightarrow> f64) \<Rightarrow> 'r quarkus \<Rightarrow> 'r quarkus \<Rightarrow> bool" for lg where
  quarkus_stepI: "quarkus_exec lg ev q = Some q' \<Longrightarrow> quarkus_step lg q q'"

inductive_cases quarkus_stepE: "quarkus_step lg q q'"

lemmas quarkus_defs = q_load_def q_decide_def q_begin_def q_leave_def q_update_def

subsection \<open>Invariants\<close>

definition q_count_inv :: "'r quarkus \<Rightarrow> bool" where
  "q_count_inv q \<longleftrightarrow> requests (q_detector q) = int (size (q_running q)) \<and> int (size (q_running q)) \<le> i64_max
     \<and> (\<forall>x \<in># q_leaving q. is_i64 (fst (snd x)))"

definition q_limit_inv :: "int \<Rightarrow> 'r quarkus \<Rightarrow> bool" where
  "q_limit_inv m q \<longleftrightarrow> detector_inv m (q_detector q)"

definition q_place_inv :: "'r quarkus \<Rightarrow> bool" where
  "q_place_inv q \<longleftrightarrow> q_started q = image_mset fst (q_loaded q) + q_passed q + image_mset fst (q_running q)
     + image_mset fst (q_leaving q) + q_shed q + q_finished q"

definition q_uniq_inv :: "'r quarkus \<Rightarrow> bool" where
  "q_uniq_inv q \<longleftrightarrow> (\<forall>i. count (q_started q) i \<le> 1)"

lemma d_update_requests [simp]: "requests (d_update lg r t cur d) = requests d"
  by (simp add: d_update_def Let_def d_reset_jitter_def split: option.split)

lemma detector_inv_requests [simp]: "detector_inv m (d\<lparr>requests := n\<rparr>) = detector_inv m d"
  by (simp add: detector_inv_def)

lemma quarkus_exec_limit:
  assumes "quarkus_exec lg ev q = Some q'" "q_limit_inv m q" "q_count_inv q"
  shows "q_limit_inv m q'"
proof (cases ev)
  case (QUpdate r x)
  with assms(1) have x: "x \<in># q_leaving q"
    "q_detector q' = d_update lg r (microseconds (fst (snd x))) (snd (snd x)) (q_detector q)"
    by (auto simp: q_update_def split: if_split_asm)
  have "is_i64 (fst (snd x))" using assms(3) x(1) by (simp add: q_count_inv_def)
  then have "microseconds (fst (snd x)) \<le> i64_max" by (rule microseconds_bounds)
  with assms(2) show ?thesis unfolding q_limit_inv_def x(2) by (rule d_update_inv)
qed (use assms in \<open>auto simp: quarkus_defs q_limit_inv_def request_begin_def request_leave_def Let_def
      split: if_split_asm prod.splits bool.splits\<close>)

lemma time_sub_i64: "is_i64 (time_sub t u)"
  by (simp add: time_sub_def is_i64_def)

lemma quarkus_exec_count:
  assumes "quarkus_exec lg ev q = Some q'" "q_count_inv q"
  shows "q_count_inv q'"
proof (cases ev)
  case (QBegin now i)
  then show ?thesis using assms
    by (auto simp: q_begin_def q_count_inv_def request_begin_def i64_idI split: if_split_asm)
next
  case (QLeave now x)
  then have "x \<in># q_running q" using assms by (auto simp: q_leave_def split: if_split_asm)
  then obtain N where N: "q_running q = add_mset x N" by (auto dest: multi_member_split)
  then have "requests (q_detector q) = int (size N) + 1" "int (size N) + 1 \<le> i64_max"
    using assms(2) by (simp_all add: q_count_inv_def)
  moreover from this have "i64 (requests (q_detector q) - 1) = int (size N)" by (simp add: i64_idI)
  ultimately show ?thesis using assms QLeave
    by (auto simp: q_leave_def q_count_inv_def request_leave_def N time_sub_i64)
next
  case (QUpdate r x)
  then have "x \<in># q_leaving q" using assms by (auto simp: q_update_def split: if_split_asm)
  then obtain N where "q_leaving q = add_mset x N" by (auto dest: multi_member_split)
  with QUpdate assms show ?thesis by (auto simp: q_update_def q_count_inv_def)
qed (use assms in \<open>auto simp: quarkus_defs q_count_inv_def Let_def
      split: if_split_asm prod.splits bool.splits\<close>)

lemma quarkus_exec_place:
  assumes "quarkus_exec lg ev q = Some q'" "q_place_inv q"
  shows "q_place_inv q'"
proof (cases ev)
  case (QDecide env x)
  then have "x \<in># q_loaded q" using assms by (auto simp: q_decide_def split: if_split_asm)
  then obtain N where "q_loaded q = add_mset x N" by (auto dest: multi_member_split)
  with QDecide assms show ?thesis
    by (auto simp: q_decide_def q_place_inv_def Let_def ac_simps split: if_split_asm prod.splits bool.splits)
next
  case (QBegin now i)
  then have "i \<in># q_passed q" using assms by (auto simp: q_begin_def split: if_split_asm)
  then obtain N where "q_passed q = add_mset i N" by (auto dest: multi_member_split)
  with QBegin assms show ?thesis by (auto simp: q_begin_def q_place_inv_def ac_simps split: if_split_asm)
next
  case (QLeave now x)
  then have "x \<in># q_running q" using assms by (auto simp: q_leave_def split: if_split_asm)
  then obtain N where "q_running q = add_mset x N" by (auto dest: multi_member_split)
  with QLeave assms show ?thesis by (auto simp: q_leave_def q_place_inv_def request_leave_def ac_simps)
next
  case (QUpdate r x)
  then have "x \<in># q_leaving q" using assms by (auto simp: q_update_def split: if_split_asm)
  then obtain N where "q_leaving q = add_mset x N" by (auto dest: multi_member_split)
  with QUpdate assms show ?thesis by (auto simp: q_update_def q_place_inv_def ac_simps)
qed (use assms in \<open>auto simp: q_load_def q_place_inv_def split: if_split_asm\<close>)

lemma quarkus_exec_uniq: "quarkus_exec lg ev q = Some q' \<Longrightarrow> q_uniq_inv q \<Longrightarrow> q_uniq_inv q'"
  by (cases ev) (auto simp: q_uniq_inv_def quarkus_defs Let_def not_in_iff request_leave_def
      split: if_split_asm prod.splits bool.splits)

definition quarkus_inv :: "int \<Rightarrow> 'r quarkus \<Rightarrow> bool" where
  "quarkus_inv m q \<longleftrightarrow> q_count_inv q \<and> q_limit_inv m q \<and> q_place_inv q \<and> q_uniq_inv q"

lemma quarkus_inv_step: "quarkus_inv m q \<Longrightarrow> quarkus_step lg q q' \<Longrightarrow> quarkus_inv m q'"
  by (auto simp: quarkus_inv_def elim!: quarkus_stepE
      intro: quarkus_exec_count quarkus_exec_limit quarkus_exec_place quarkus_exec_uniq)

text \<open>
  Every configuration whose initial limit is within its maximum starts well. The code does not
  clamp it: the default configuration with a maximum of 50 starts at 100.
\<close>

definition quarkus_config_ok :: "quarkus_config \<Rightarrow> bool" where
  "quarkus_config_ok cfg \<longleftrightarrow> 1 \<le> cfg_initial cfg \<and> cfg_initial cfg \<le> cfg_max_limit cfg \<and> cfg_max_limit cfg \<le> i64_max"

lemma quarkus_starts_above_max:
  "detector_limit (q_detector (new_quarkus (default_quarkus_config\<lparr>cfg_max_limit := 50\<rparr>) opts r)) = 100"
  by (simp add: new_quarkus_def new_detector_def d_reset_jitter_def default_quarkus_config_def detector_limit_def)

lemma new_quarkus_inv: "quarkus_config_ok cfg \<Longrightarrow> quarkus_inv (cfg_max_limit cfg) (new_quarkus cfg opts r)"
  by (simp add: quarkus_inv_def q_count_inv_def q_limit_inv_def q_place_inv_def q_uniq_inv_def new_quarkus_def
      new_detector_def d_reset_jitter_def detector_inv_def quarkus_config_ok_def)

subsection \<open>Properties of the shedder\<close>

lemma quarkus_system:
  "quarkus_config_ok cfg \<Longrightarrow>
     transition_system (new_quarkus cfg opts r) (quarkus_step lg) (quarkus_inv (cfg_max_limit cfg))"
  by unfold_locales (auto intro: new_quarkus_inv quarkus_inv_step)

lemma default_quarkus_ok: "quarkus_config_ok default_quarkus_config"
  by (simp add: quarkus_config_ok_def default_quarkus_config_def)

interpretation default_quarkus: transition_system "new_quarkus default_quarkus_config opts r" "quarkus_step lg"
  "quarkus_inv (cfg_max_limit default_quarkus_config)"
  for opts r lg
  by (rule quarkus_system [OF default_quarkus_ok])

fun run_quarkus :: "(f64 \<Rightarrow> f64) \<Rightarrow> 'r quarkus_event list \<Rightarrow> 'r quarkus \<Rightarrow> 'r quarkus option" where
  "run_quarkus lg [] q = Some q"
| "run_quarkus lg (ev # evs) q =
     (case quarkus_exec lg ev q of None \<Rightarrow> None | Some q' \<Rightarrow> run_quarkus lg evs q')"

lemma run_quarkus_reach: "run_quarkus lg evs q = Some q' \<Longrightarrow> reach q (quarkus_step lg) q'"
proof (induction evs arbitrary: q)
  case (Cons ev evs)
  then obtain n where n: "quarkus_exec lg ev q = Some n" "run_quarkus lg evs n = Some q'"
    by (auto split: option.splits)
  have "reach q (quarkus_step lg) n" using n(1) by (auto intro: reach.intros quarkus_stepI)
  with Cons.IH [OF n(2)] show ?case by (auto intro: reach_trans)
qed (simp add: reach.intros)

text \<open>
  C20. Under every interleaving, and for every configuration whose initial limit is from 1 to
  its maximum, the detector's count is the number of requests between their two atomic
  additions, its limit stays from 1 to the configured maximum, and every request that arrived is
  in exactly one place: deciding, admitted, counted, being sampled, shed or finished.
\<close>

theorem quarkus_accounting:
  assumes "quarkus_config_ok cfg" "reach (new_quarkus cfg opts r) (quarkus_step lg) q"
  shows "detector_requests (q_detector q) = int (size (q_running q))
    \<and> 1 \<le> detector_limit (q_detector q) \<and> detector_limit (q_detector q) \<le> cfg_max_limit cfg
    \<and> q_started q = image_mset fst (q_loaded q) + q_passed q + image_mset fst (q_running q)
        + image_mset fst (q_leaving q) + q_shed q + q_finished q
    \<and> count (q_started q) i \<le> 1"
proof -
  have "quarkus_inv (cfg_max_limit cfg) q"
    using transition_system.inv_reach [OF quarkus_system [OF assms(1)] assms(2)] .
  then have i: "q_count_inv q" "q_limit_inv (cfg_max_limit cfg) q" "q_place_inv q" "q_uniq_inv q"
    by (simp_all add: quarkus_inv_def)
  show ?thesis
    using i(1,2) i(3) [unfolded q_place_inv_def] i(4) [unfolded q_uniq_inv_def]
    by (intro conjI) (simp_all only: q_count_inv_def q_limit_inv_def detector_inv_def detector_limit_def detector_requests_def)
qed

theorem quarkus_accounting_witness:
  "\<exists>q. run_quarkus lg_digits [QLoad 0 (), QDecide (5000, Fin 1) (0, (), 0), QBegin 5 0]
      (new_quarkus default_quarkus_config [] (Fin 0)) = Some q
    \<and> detector_requests (q_detector q) = 1 \<and> q_running q = {#(0, 5)#}"
proof -
  obtain q where q: "run_quarkus lg_digits [QLoad 0 (), QDecide (5000, Fin 1) (0, (), 0), QBegin 5 0]
      (new_quarkus default_quarkus_config [] (Fin 0)) = Some q" "q_running q = {#(0, 5)#}"
    by (simp add: quarkus_defs new_quarkus_def new_detector_def d_reset_jitter_def default_quarkus_config_def
        detector_requests_def detector_limit_def)
  have "reach (new_quarkus default_quarkus_config [] (Fin 0)) (quarkus_step lg_digits) q"
    using q(1) by (rule run_quarkus_reach)
  from quarkus_accounting [OF default_quarkus_ok this, of 0] q show ?thesis by simp
qed

definition tight_config :: quarkus_config where
  "tight_config = \<lparr>cfg_max_limit = 1, cfg_alpha = 3, cfg_beta = 6, cfg_probe = Fin 30, cfg_initial = 1,
     cfg_priority = False\<rparr>"

text \<open>
  The maximum is not a bound on concurrency: \<open>Admit\<close> checks and counts in separate
  atomic operations, so that with a maximum of 1 and no priorities two requests that check
  before either is counted are both in flight.
\<close>

theorem quarkus_overadmits:
  "map_option (\<lambda>q. (cfg_max_limit tight_config, detector_limit (q_detector q), detector_requests (q_detector q), q_running q))
     (run_quarkus lg_digits
       [QLoad 0 (), QLoad 1 (), QDecide (5000, Fin 0) (0, (), 0), QDecide (5000, Fin 0) (1, (), 0), QBegin 5 0, QBegin 6 1]
       (new_quarkus tight_config [] (Fin 0)))
   = Some (1, 1, 2, {#(0, 5), (1, 6)#})"
  by (simp add: quarkus_defs new_quarkus_def new_detector_def d_reset_jitter_def tight_config_def
      detector_requests_def detector_limit_def request_begin_def i64_idI add_mset_commute)

subsection \<open>The middleware\<close>

text \<open>
  The handler writes straight to the response; \<open>done\<close> is deferred, so it is called once
  also when the downstream handler panics.
\<close>

definition q_handler :: "bool \<Rightarrow> 'p handler_run \<Rightarrow> http_call list \<times> 'p option \<times> nat" where
  "q_handler admitted h =
     (if \<not> admitted then (shed_response, None, 0) else (calls h, panics h, 1))"

text \<open>The accessor \<open>Detector()\<close>.\<close>

definition shedder_detector :: "'r quarkus \<Rightarrow> detector" where
  "shedder_detector q = q_detector q"

subsection \<open>Admit without interleaving\<close>

text \<open>The whole of \<open>Admit\<close> at once, as a caller runs it when no other does.\<close>

definition q_admit :: "int \<times> f64 \<Rightarrow> time \<Rightarrow> nat \<Rightarrow> 'r \<Rightarrow> 'r quarkus \<Rightarrow> 'r quarkus option" where
  "q_admit env now i req q =
     Option.bind (q_load i req q) (\<lambda>q1.
     Option.bind (q_decide env (i, req, detector_requests (q_detector q)) q1) (\<lambda>q2.
       if i \<in># q_passed q2 then q_begin now i q2 else Some q2))"

datatype 'r admission = SAdmit "int \<times> f64" time nat 'r | SLeave time "nat \<times> time" | SUpdate f64 "nat \<times> duration \<times> int"

fun sequential_exec :: "(f64 \<Rightarrow> f64) \<Rightarrow> 'r admission \<Rightarrow> 'r quarkus \<Rightarrow> 'r quarkus option" where
  "sequential_exec lg (SAdmit env now i req) q = q_admit env now i req q"
| "sequential_exec lg (SLeave now x) q = q_leave now x q"
| "sequential_exec lg (SUpdate r x) q = q_update lg r x q"

lemma run_quarkus_runs_to: "run_quarkus lg evs q = runs_to (quarkus_exec lg) evs q"
  by (induction evs arbitrary: q) (auto split: option.split)

text \<open>Such a run is one of the interleaved system.\<close>

lemma sequential_refines:
  assumes "sequential_exec lg ev q = Some q'"
  shows "\<exists>evs. run_quarkus lg evs q = Some q'"
proof (cases ev)
  case (SAdmit env now i req)
  let ?x = "(i, req, detector_requests (q_detector q))"
  obtain q1 q2 where q: "q_load i req q = Some q1" "q_decide env ?x q1 = Some q2"
    "(if i \<in># q_passed q2 then q_begin now i q2 else Some q2) = Some q'"
    using assms SAdmit by (auto simp: q_admit_def bind_eq_Some_conv)
  show ?thesis
  proof (cases "i \<in># q_passed q2")
    case True
    with q show ?thesis by (intro exI [of _ "[QLoad i req, QDecide env ?x, QBegin now i]"]) simp
  next
    case False
    with q show ?thesis by (intro exI [of _ "[QLoad i req, QDecide env ?x]"]) simp
  qed
next
  case (SLeave now x)
  with assms show ?thesis by (intro exI [of _ "[QLeave now x]"]) simp
next
  case (SUpdate r x)
  with assms show ?thesis by (intro exI [of _ "[QUpdate r x]"]) simp
qed

lemma sequential_run_refines:
  "runs_to (sequential_exec lg) evs q = Some q' \<Longrightarrow> \<exists>evs'. run_quarkus lg evs' q = Some q'"
proof (induction evs arbitrary: q)
  case Nil
  then show ?case by (intro exI [of _ "[]"]) simp
next
  case (Cons ev evs)
  then obtain r where r: "sequential_exec lg ev q = Some r" "runs_to (sequential_exec lg) evs r = Some q'"
    by (auto split: option.splits)
  from sequential_refines [OF r(1)] Cons.IH [OF r(2)] obtain as bs
    where "run_quarkus lg as q = Some r" "run_quarkus lg bs r = Some q'" by blast
  then show ?case by (intro exI [of _ "as @ bs"]) (simp add: run_quarkus_runs_to runs_to_append)
qed

text \<open>Without priorities an overloaded detector sheds, so a request begins only below the limit.\<close>

definition seq_inv :: "int \<Rightarrow> 'r quarkus \<Rightarrow> bool" where
  "seq_inv m q \<longleftrightarrow> q_count_inv q \<and> q_limit_inv m q \<and> \<not> p_enabled (q_priority q) \<and> q_loaded q = {#} \<and> q_passed q = {#}
     \<and> int (size (q_running q)) \<le> m"

lemma q_admit_seq:
  assumes "seq_inv m q" "q_admit env now i req q = Some q'"
  shows "\<not> p_enabled (q_priority q') \<and> q_loaded q' = {#} \<and> q_passed q' = {#} \<and> int (size (q_running q')) \<le> m"
  using assms
  by (auto simp: q_admit_def bind_eq_Some_conv q_load_def q_decide_def q_begin_def shed_load_def seq_inv_def Let_def
      detector_limit_def detector_requests_def q_count_inv_def q_limit_inv_def detector_inv_def
      split: if_split_asm prod.splits bool.splits)

lemma sequential_inv:
  assumes "seq_inv m q" "sequential_exec lg ev q = Some q'"
  shows "seq_inv m q'"
proof -
  obtain evs where evs: "run_quarkus lg evs q = Some q'" using sequential_refines [OF assms(2)] by blast
  have "q_count_inv q \<and> q_limit_inv m q" using assms(1) by (simp add: seq_inv_def)
  with evs have base: "q_count_inv q' \<and> q_limit_inv m q'"
    by (induction evs arbitrary: q) (auto split: option.splits dest: quarkus_exec_count quarkus_exec_limit)
  show ?thesis
  proof (cases ev)
    case (SAdmit env now i req)
    with q_admit_seq [OF assms(1)] assms(2) base show ?thesis by (auto simp: seq_inv_def)
  next
    case (SLeave now x)
    then have l: "q_leave now x q = Some q'" using assms(2) by simp
    then have "size (q_running q') \<le> size (q_running q)"
      by (auto simp: q_leave_def size_Diff_singleton_if split: if_split_asm prod.splits)
    with l assms(1) base show ?thesis by (auto simp: seq_inv_def q_leave_def split: if_split_asm prod.splits)
  next
    case (SUpdate r x)
    with assms base show ?thesis by (auto simp: seq_inv_def q_update_def split: if_split_asm)
  qed
qed

lemma sequential_run_inv: "runs_to (sequential_exec lg) evs q = Some q' \<Longrightarrow> seq_inv m q \<Longrightarrow> seq_inv m q'"
  by (induction evs arbitrary: q) (auto split: option.splits intro: sequential_inv)

text \<open>
  C21. The configured maximum is a bound on concurrency when the calls of \<open>Admit\<close> do not
  overlap, priorities are off and the initial limit is from 1 to the maximum: at most \<open>MaxLimit\<close> requests run at any time, although the
  limit moves under them. Such a run is also a run of the interleaved shedder, so the bound is
  lost only in the gap between the check and the count.
\<close>

theorem quarkus_sequential_bound:
  assumes "quarkus_config_ok cfg" "\<not> cfg_priority cfg"
    and "runs_to (sequential_exec lg) evs (new_quarkus cfg [] r) = Some q"
  shows "int (size (q_running q)) \<le> cfg_max_limit cfg
    \<and> detector_requests (q_detector q) = int (size (q_running q))
    \<and> reach (new_quarkus cfg [] r) (quarkus_step lg) q"
proof -
  have "seq_inv (cfg_max_limit cfg) (new_quarkus cfg [] r :: 'a quarkus)"
    using new_quarkus_inv [OF assms(1), of "[]" r] assms(1,2)
    by (auto simp: seq_inv_def quarkus_inv_def new_quarkus_def new_priority_def quarkus_config_ok_def)
  with sequential_run_inv [OF assms(3)] have "seq_inv (cfg_max_limit cfg) q" by blast
  moreover obtain evs' where "run_quarkus lg evs' (new_quarkus cfg [] r) = Some q"
    using sequential_run_refines [OF assms(3)] by blast
  ultimately show ?thesis by (auto simp: seq_inv_def q_count_inv_def detector_requests_def intro: run_quarkus_reach)
qed

theorem quarkus_sequential_bound_witness:
  "\<exists>q. runs_to (sequential_exec lg_digits) [SAdmit (5000, Fin 0) 5 0 (), SAdmit (5000, Fin 0) 6 1 ()]
      (new_quarkus tight_config [] (Fin 0)) = Some q
    \<and> q_running q = {#(0, 5)#} \<and> q_shed q = {#1#} \<and> int (size (q_running q)) \<le> 1"
proof -
  obtain q where q: "runs_to (sequential_exec lg_digits) [SAdmit (5000, Fin 0) 5 0 (), SAdmit (5000, Fin 0) 6 1 ()]
      (new_quarkus tight_config [] (Fin 0)) = Some q" "q_running q = {#(0, 5)#}" "q_shed q = {#1#}"
    by (simp add: q_admit_def quarkus_defs new_quarkus_def new_detector_def d_reset_jitter_def tight_config_def
        detector_requests_def detector_limit_def request_begin_def i64_idI shed_load_def new_priority_def)
  have ok: "quarkus_config_ok tight_config" "\<not> cfg_priority tight_config"
    by (simp_all add: tight_config_def quarkus_config_ok_def)
  from quarkus_sequential_bound [OF ok q(1)] q show ?thesis by (auto simp: tight_config_def)
qed

end
