(* ===== verification/Gozero.thy ===== *)
theory Gozero
  imports Gate Limiter
begin

text \<open>
  The go-zero adapters (gozero/gozero.go, gozero/gate.go). go-zero's adaptive shedder is not
  part of this repository: its \<open>Allow\<close> and a promise's \<open>Pass\<close> and \<open>Fail\<close> are the
  parameters \<open>al\<close>, \<open>ps\<close> and \<open>fl\<close>, of which nothing is assumed; an error of
  \<open>Allow\<close> is \<open>None\<close>.
\<close>

subsection \<open>The gate\<close>

record 's gz_gate =
  gz_shedder :: 's
  gz_switch :: bool

definition new_gz_gate :: "'s \<Rightarrow> 's gz_gate" where
  "new_gz_gate s = \<lparr>gz_shedder = s, gz_switch = True\<rparr>"

text \<open>A ticket without a promise is the callback of a disabled gate.\<close>

definition gz_allow :: "('env \<Rightarrow> 's \<Rightarrow> 'p option \<times> 's) \<Rightarrow> 'env \<Rightarrow> 's gz_gate \<Rightarrow> 'p option option \<times> 's gz_gate" where
  "gz_allow al env g =
     (if \<not> gz_switch g then (Some None, g)
      else case al env (gz_shedder g) of
             (None, s) \<Rightarrow> (None, g\<lparr>gz_shedder := s\<rparr>)
           | (Some p, s) \<Rightarrow> (Some (Some p), g\<lparr>gz_shedder := s\<rparr>))"

definition gz_done :: "('p \<Rightarrow> 's \<Rightarrow> 's) \<Rightarrow> ('p \<Rightarrow> 's \<Rightarrow> 's) \<Rightarrow> 'p option \<Rightarrow> bool \<Rightarrow> 's gz_gate \<Rightarrow> 's gz_gate" where
  "gz_done ps fl t success g =
     (case t of None \<Rightarrow> g
      | Some p \<Rightarrow> g\<lparr>gz_shedder := (if success then ps p (gz_shedder g) else fl p (gz_shedder g))\<rparr>)"

definition gz_set_enabled :: "bool \<Rightarrow> 's gz_gate \<Rightarrow> 's gz_gate" where
  "gz_set_enabled on g = g\<lparr>gz_switch := on\<rparr>"

definition gz_enabled :: "'s gz_gate \<Rightarrow> bool" where
  "gz_enabled g = gz_switch g"

definition gz_ops ::
  "('env \<Rightarrow> 's \<Rightarrow> 'p option \<times> 's) \<Rightarrow> ('p \<Rightarrow> 's \<Rightarrow> 's) \<Rightarrow> ('p \<Rightarrow> 's \<Rightarrow> 's) \<Rightarrow> ('env, 's gz_gate, 'p option) gate_ops" where
  "gz_ops al ps fl = \<lparr>g_allow = gz_allow al, g_done = gz_done ps fl, g_set_enabled = gz_set_enabled,
     g_enabled = gz_enabled\<rparr>"

lemmas gz_gate_defs = gz_ops_def gz_allow_def gz_done_def gz_set_enabled_def gz_enabled_def

text \<open>It is a gate in the sense of the queue package, whatever the shedder does.\<close>

interpretation gz_gate: gate_contract "gz_ops al ps fl"
  for al :: "'env \<Rightarrow> 's \<Rightarrow> 'p option \<times> 's" and ps fl :: "'p \<Rightarrow> 's \<Rightarrow> 's"
  by unfold_locales (auto simp: gz_gate_defs split: prod.splits option.splits)

text \<open>
  Switching the gate off takes the shedder out of the path altogether: it admits
  everything without asking the shedder, and the callback of a request admitted meanwhile
  reports nothing to it, also when the gate has been switched on again by then.
\<close>

theorem gozero_gate_off:
  fixes al :: "'env \<Rightarrow> 's \<Rightarrow> 'p option \<times> 's" and ps fl :: "'p \<Rightarrow> 's \<Rightarrow> 's" and g h :: "'s gz_gate"
  shows "fst (gz_allow al env (gz_set_enabled False g)) = Some None
   \<and> gz_shedder (snd (gz_allow al env (gz_set_enabled False g))) = gz_shedder g
   \<and> gz_done ps fl (the (fst (gz_allow al env (gz_set_enabled False g)))) success h = h"
proof -
  let ?G = "gz_ops al ps fl"
  obtain t where t: "g_allow ?G env (g_set_enabled ?G False g) = (Some t, g_set_enabled ?G False g)"
    by (rule exE [OF gz_gate.switched_off_admits])
  have "g_done ?G t success h = h" using t by (rule gz_gate.switched_off_done)
  with t show ?thesis by (auto simp: gz_gate_defs)
qed

subsection \<open>The shedder and its middleware\<close>

text \<open>The constructor of the adaptive shedder takes the options of \<open>New\<close>.\<close>

definition gozero_new :: "('o list \<Rightarrow> 's) \<Rightarrow> 'o list \<Rightarrow> 's" where
  "gozero_new mk opts = mk opts"

definition gozero_allow :: "('env \<Rightarrow> 's \<Rightarrow> 'p option \<times> 's) \<Rightarrow> 'env \<Rightarrow> 's \<Rightarrow> 'p option \<times> 's" where
  "gozero_allow al env s = al env s"

definition gz_write_header :: "int \<Rightarrow> code_writer \<Rightarrow> code_writer" where
  "gz_write_header c w =
     (if cw_wrote w then w
      else w\<lparr>cw_wrote := True, cw_code := c, cw_inner := cw_inner w @ [WriteHeader c]\<rparr>)"

definition gz_write :: "string \<Rightarrow> code_writer \<Rightarrow> code_writer" where
  "gz_write b w =
     (let w' = (if \<not> cw_wrote w then gz_write_header StatusOK w else w)
      in w'\<lparr>cw_inner := cw_inner w' @ [Write b]\<rparr>)"

definition gz_unwrap :: "code_writer \<Rightarrow> http_call list" where
  "gz_unwrap w = cw_inner w"

fun gz_call :: "http_call \<Rightarrow> code_writer \<Rightarrow> code_writer" where
  "gz_call (WriteHeader c) w = gz_write_header c w"
| "gz_call (Write b) w = gz_write b w"
| "gz_call (SetHeader k v) w = w\<lparr>cw_inner := cw_inner w @ [SetHeader k v]\<rparr>"

definition gz_serve :: "'x handler_run \<Rightarrow> http_call list \<Rightarrow> code_writer" where
  "gz_serve h w = run gz_call (calls h) (new_code_writer w)"

text \<open>The response, the panic and what the promise is told: \<open>Pass\<close> is \<open>True\<close>.\<close>

definition gozero_handler :: "'p option \<Rightarrow> 'x handler_run \<Rightarrow> http_call list \<times> 'x option \<times> bool option" where
  "gozero_handler promise h =
     (case promise of
        None \<Rightarrow> (shed_response, None, None)
      | Some _ \<Rightarrow>
          let cw = gz_serve h [] in
          if panics h \<noteq> None then (cw_inner cw, panics h, Some False)
          else (cw_inner cw, None, Some (\<not> StatusInternalServerError \<le> cw_code cw)))"

lemma gz_serve_eq: "gz_serve h w = serve h w"
proof -
  have "gz_call c v = cw_call c v" for c and v :: code_writer
    by (cases c) (simp_all add: gz_write_header_def cw_write_header_def gz_write_def cw_write_def)
  then have "gz_call = cw_call" by (intro ext)
  then show ?thesis by (simp add: gz_serve_def serve_def)
qed

text \<open>
  C32. The go-zero middleware and the one of concurrencylimits are the same program with
  another token: the same response and the same panic for every downstream handler, admitted
  or not, \<open>Pass\<close> exactly where the other calls \<open>OnSuccess\<close> and \<open>Fail\<close> exactly where it
  calls \<open>OnDropped\<close>.
\<close>

theorem gozero_handler_equiv:
  "gozero_handler token h =
     (case cl_handler token h of (resp, panic, out) \<Rightarrow> (resp, panic, map_option (\<lambda>x. x = OnSuccess) out))"
  by (auto simp: gozero_handler_def cl_handler_def gz_serve_eq cl_serve_eq Let_def split: option.split)

end
