(* ===== verification/Sentinel.thy ===== *)
theory Sentinel
  imports F64 Http
begin

text \<open>
  The Sentinel adapter (sentinel/shedder.go): the rules made from a configuration, the
  once-per-process initialisation, and the middleware. The Sentinel library is a parameter:
  \<open>init_default\<close> is the error of its initialisation if any, \<open>load_rules\<close> the error of
  loading a rule list, and an entry that is blocked is \<open>None\<close>.
\<close>

subsection \<open>Configuration and rules\<close>

record sentinel_config =
  s_resource :: string
  s_cpu :: f64
  s_concurrency :: f64
  s_load :: f64
  s_avg_rt :: f64

definition default_resource :: string where "default_resource = ''go-zero-inbound''"

definition default_sentinel_config :: sentinel_config where
  "default_sentinel_config = \<lparr>s_resource = default_resource, s_cpu = rnd (8 / 10), s_concurrency = Fin 0,
     s_load = Fin 0, s_avg_rt = Fin 0\<rparr>"

datatype metric_type = CpuUsage | Concurrency | Load | AvgRT
datatype strategy = BBR

record rule =
  metric :: metric_type
  trigger_count :: f64
  rule_strategy :: strategy

definition add_rule :: "metric_type \<Rightarrow> f64 \<Rightarrow> rule list \<Rightarrow> rule list" where
  "add_rule mt trigger rules =
     (if flt (Fin 0) trigger then rules @ [\<lparr>metric = mt, trigger_count = trigger, rule_strategy = BBR\<rparr>] else rules)"

definition build_rules :: "sentinel_config \<Rightarrow> rule list" where
  "build_rules cfg =
     (let rules = add_rule CpuUsage (s_cpu cfg) [];
          rules = add_rule Concurrency (s_concurrency cfg) rules;
          rules = add_rule Load (s_load cfg) rules
      in add_rule AvgRT (s_avg_rt cfg) rules)"

subsection \<open>The process and its shedders\<close>

text \<open>\<open>initOnce\<close> and \<open>initErr\<close>, and the rules loaded last.\<close>

record 'e sentinel =
  init_ran :: bool
  init_err :: "'e option"
  loaded :: "rule list option"

definition sentinel0 :: "'e sentinel" where
  "sentinel0 = \<lparr>init_ran = False, init_err = None, loaded = None\<rparr>"

definition sentinel_new ::
  "'e option \<Rightarrow> (rule list \<Rightarrow> 'e option) \<Rightarrow> sentinel_config \<Rightarrow> 'e sentinel \<Rightarrow> ('e + string) \<times> 'e sentinel" where
  "sentinel_new init_default load_rules cfg st =
     (let st = (if init_ran st then st else st\<lparr>init_ran := True, init_err := init_default\<rparr>)
      in case init_err st of
           Some e \<Rightarrow> (Inl e, st)
         | None \<Rightarrow>
             let rules = build_rules cfg in
             (case load_rules rules of
                Some e \<Rightarrow> (Inl e, st)
              | None \<Rightarrow> (Inr (if s_resource cfg = [] then default_resource else s_resource cfg),
                    st\<lparr>loaded := Some rules\<rparr>)))"

text \<open>\<open>Allow\<close>: the entry's exit is the callback.\<close>

definition sentinel_allow :: "(string \<Rightarrow> 's \<Rightarrow> 'en option \<times> 's) \<Rightarrow> string \<Rightarrow> 's \<Rightarrow> 'en option \<times> 's" where
  "sentinel_allow entry resource s = entry resource s"

text \<open>The response, the panic, and how often the entry is exited.\<close>

definition sentinel_handler :: "'en option \<Rightarrow> 'x handler_run \<Rightarrow> http_call list \<times> 'x option \<times> nat" where
  "sentinel_handler e h =
     (case e of None \<Rightarrow> (shed_response, None, 0) | Some _ \<Rightarrow> (calls h, panics h, 1))"

subsection \<open>Properties\<close>

lemma build_rules_eq:
  "build_rules cfg = concat (List.map (\<lambda>(mt, t). add_rule mt t [])
     [(CpuUsage, s_cpu cfg), (Concurrency, s_concurrency cfg), (Load, s_load cfg), (AvgRT, s_avg_rt cfg)])"
  by (simp add: build_rules_def Let_def add_rule_def)

fun trigger_of :: "sentinel_config \<Rightarrow> metric_type \<Rightarrow> f64" where
  "trigger_of cfg CpuUsage = s_cpu cfg"
| "trigger_of cfg Concurrency = s_concurrency cfg"
| "trigger_of cfg Load = s_load cfg"
| "trigger_of cfg AvgRT = s_avg_rt cfg"

text \<open>
  The rules are those of the configuration: a metric has a rule exactly when its
  threshold is positive (not when it is NaN), never two, and the rule has that threshold and
  the BBR strategy.
\<close>

theorem sentinel_rules_exact:
  "distinct (List.map metric (build_rules cfg))
   \<and> set (build_rules cfg) = {\<lparr>metric = mt, trigger_count = trigger_of cfg mt, rule_strategy = BBR\<rparr> | mt.
        flt (Fin 0) (trigger_of cfg mt)}"
proof -
  have all: "mt \<in> {CpuUsage, Concurrency, Load, AvgRT}" for mt by (cases mt) simp_all
  have "set (build_rules cfg) = (\<Union>mt \<in> {CpuUsage, Concurrency, Load, AvgRT}. set (add_rule mt (trigger_of cfg mt) []))"
    by (simp add: build_rules_eq Un_assoc)
  also have "\<dots> = (\<Union>mt. set (add_rule mt (trigger_of cfg mt) []))" using all by blast
  also have "\<dots> = {\<lparr>metric = mt, trigger_count = trigger_of cfg mt, rule_strategy = BBR\<rparr> | mt. flt (Fin 0) (trigger_of cfg mt)}"
    by (auto simp: add_rule_def)
  finally show ?thesis by (simp add: build_rules_eq add_rule_def)
qed

text \<open>
  C40. An error of the initialisation is final: after it every \<open>New\<close> of the process, for any
  configuration and whatever the library would answer now, returns that error, makes no shedder
  and loads no rules.
\<close>

theorem sentinel_init_error_final:
  assumes "fst (sentinel_new (Some e) lr cfg sentinel0) = Inl e'" "st = snd (sentinel_new (Some e) lr cfg sentinel0)"
  shows "e' = e \<and> fold (\<lambda>(i, l, c) s. snd (sentinel_new i l c s)) calls_made st = st
    \<and> sentinel_new i l c st = (Inl e, st) \<and> loaded st = None"
proof -
  have st: "init_ran st" "init_err st = Some e" "loaded st = None" "e' = e"
    using assms by (simp_all add: sentinel_new_def sentinel0_def)
  then have again: "sentinel_new i l c st = (Inl e, st)" for i l c by (simp add: sentinel_new_def)
  have "fold (\<lambda>(i, l, c) s. snd (sentinel_new i l c s)) calls_made st = st"
    by (induction calls_made) (auto simp: again)
  with st again show ?thesis by simp
qed

theorem sentinel_init_error_final_witness:
  "fst (sentinel_new None (\<lambda>_. None) default_sentinel_config
     (snd (sentinel_new (Some ''no config'') (\<lambda>_. None) default_sentinel_config sentinel0))) = Inl ''no config''"
  using sentinel_init_error_final [of "''no config''" "\<lambda>_. None" default_sentinel_config "''no config''" _ "[]" None
      "\<lambda>_. None" default_sentinel_config, OF _ refl]
  by (simp add: sentinel_new_def sentinel0_def)

end
