(* ===== verification/Simulate.thy ===== *)
theory Simulate
  imports F64 Http "HOL-Library.Multiset"
begin

text \<open>
  The traffic simulator (simulate/simulate.go): which ticks issue a request, how the responses
  are counted, and the percentiles of the latencies. The clock, the shedder under test and the
  order in which requests complete are inputs. Where Go panics the result is \<open>None\<close>: an integer
  division by zero, a ticker with an interval that is not positive, an index out of range. The
  table printed from the results is in theory SimTable.
\<close>

record scenario =
  sc_duration :: duration
  sc_rps :: int
  sc_service :: duration

record sim_result =
  r_sent :: int
  r_served :: int
  r_shed :: int
  r_other :: int
  r_p50 :: duration
  r_p95 :: duration
  r_p99 :: duration
  r_wall :: duration

definition shed_rate :: "sim_result \<Rightarrow> f64" where
  "shed_rate r = (if r_sent r = 0 then Fin 0 else fdiv (f64_of_int (r_shed r)) (f64_of_int (r_sent r)))"

definition guarded_rps :: "scenario \<Rightarrow> int" where
  "guarded_rps sc = (if sc_rps sc < 1 then 1 else sc_rps sc)"

text \<open>Go's integer division and \<open>time.NewTicker\<close>, both of which panic on some arguments.\<close>

definition go_div :: "int \<Rightarrow> int \<Rightarrow> int option" where
  "go_div a b = (if b = 0 then None else Some (a sdiv b))"

definition new_ticker :: "duration \<Rightarrow> duration option" where
  "new_ticker d = (if d \<le> 0 then None else Some d)"

definition sim_ticker :: "scenario \<Rightarrow> duration option" where
  "sim_ticker sc =
     Option.bind (go_div second (guarded_rps sc)) (\<lambda>interval.
       new_ticker (if interval \<le> 0 then microsecond else interval))"

text \<open>The ticks up to the first one after the deadline issue a request each.\<close>

definition issued :: "scenario \<Rightarrow> time \<Rightarrow> time list \<Rightarrow> time list" where
  "issued sc start ticks = takeWhile (\<lambda>now. \<not> after now (time_add start (sc_duration sc))) ticks"

text \<open>One response: its status and its latency.\<close>

record tally =
  t_served :: int
  t_shed :: int
  t_other :: int
  t_latencies :: "duration list"

definition tally0 :: tally where
  "tally0 = \<lparr>t_served = 0, t_shed = 0, t_other = 0, t_latencies = []\<rparr>"

definition tally_response :: "int \<times> duration \<Rightarrow> tally \<Rightarrow> tally" where
  "tally_response x t =
     (if fst x = StatusOK then t\<lparr>t_served := t_served t + 1, t_latencies := t_latencies t @ [snd x]\<rparr>
      else if fst x = StatusServiceUnavailable then t\<lparr>t_shed := t_shed t + 1\<rparr>
      else t\<lparr>t_other := t_other t + 1\<rparr>)"

definition percentile :: "duration list \<Rightarrow> f64 \<Rightarrow> duration option" where
  "percentile ds p =
     (if ds = [] then Some 0
      else let idx = f64_to_i64 (fmul (f64_of_int (int (length ds) - 1)) p)
           in if 0 \<le> idx \<and> idx < int (length ds) then Some (ds ! nat idx) else None)"

text \<open>The run, given the ticks, the responses in the order they complete, and when the last did.\<close>

definition sim_run :: "scenario \<Rightarrow> time \<Rightarrow> time list \<Rightarrow> (int \<times> duration) list \<Rightarrow> time \<Rightarrow> sim_result option" where
  "sim_run sc start ticks responses stop =
     Option.bind (sim_ticker sc) (\<lambda>_.
     let t = run tally_response responses tally0;
         ls = sort (t_latencies t)
     in case (percentile ls (rnd (50 / 100)), percentile ls (rnd (95 / 100)), percentile ls (rnd (99 / 100))) of
          (Some p50, Some p95, Some p99) \<Rightarrow>
            Some \<lparr>r_sent = int (length (issued sc start ticks)), r_served = t_served t, r_shed = t_shed t,
              r_other = t_other t, r_p50 = p50, r_p95 = p95, r_p99 = p99, r_wall = time_sub stop start\<rparr>
        | _ \<Rightarrow> None)"

subsection \<open>The ticker\<close>

text \<open>The guards are enough: neither the division nor the ticker panics, at any rate.\<close>

lemma sim_ticker_starts: "\<exists>d. sim_ticker sc = Some d \<and> 0 < d"
  by (simp add: sim_ticker_def go_div_def new_ticker_def guarded_rps_def)

subsection \<open>Counting\<close>

lemma tally_run:
  "t_served (run tally_response rs t) = t_served t + int (length (filter (\<lambda>x. fst x = StatusOK) rs))"
  "t_shed (run tally_response rs t) = t_shed t + int (length (filter (\<lambda>x. fst x = StatusServiceUnavailable) rs))"
  "t_served (run tally_response rs t) + t_shed (run tally_response rs t) + t_other (run tally_response rs t)
    = t_served t + t_shed t + t_other t + int (length rs)"
  "t_latencies (run tally_response rs t) = t_latencies t @ List.map snd (filter (\<lambda>x. fst x = StatusOK) rs)"
  by (induction rs arbitrary: t) (auto simp: tally_response_def)

subsection \<open>Percentiles\<close>

lemma is_i64_between: "0 \<le> k \<Longrightarrow> k \<le> n \<Longrightarrow> n \<le> 9007199254740992 \<Longrightarrow> is_i64 k"
  by (simp add: is_i64_def)

lemma percentile_index:
  assumes "0 \<le> q" "q \<le> 1" "repr q" "ds \<noteq> []" "int (length ds) \<le> 2 ^ 53"
  obtains i where "percentile ds (Fin q) = Some (ds ! i)" "i < length ds"
    "i = nat \<lfloor>rne (of_int (int (length ds) - 1) * q)\<rfloor>"
proof -
  let ?n = "int (length ds) - 1"
  have n: "0 \<le> ?n" "?n \<le> 2 ^ 53" using assms(4,5) by (simp_all add: Suc_le_eq)
  have nq: "0 \<le> of_int ?n * q" "of_int ?n * q \<le> of_int ?n"
    using n(1) assms(1,2) by (simp_all only: mult_left_le mult_nonneg_nonneg of_int_0_le_iff)
  have "f64_bounds 0 (of_int ?n)" using f64_bounds_of_int [of 0 ?n] n by simp
  note r = rnd_eq [OF this nq]
  have "\<lfloor>rne (of_int ?n * q)\<rfloor> \<le> \<lfloor>of_int ?n :: rat\<rfloor>" using r(3) by (rule floor_mono)
  then have i: "0 \<le> \<lfloor>rne (of_int ?n * q)\<rfloor>" "\<lfloor>rne (of_int ?n * q)\<rfloor> \<le> ?n" using r(2) by simp_all
  have f: "f64_of_int ?n = Fin (of_int ?n)" using n by (intro f64_of_int_exact) simp
  have "is_i64 \<lfloor>rne (of_int ?n * q)\<rfloor>"
  proof (rule is_i64_between [OF i])
    show "?n \<le> 9007199254740992" using n(2) by simp
  qed
  then have "f64_to_i64 (fmul (f64_of_int ?n) (Fin q)) = \<lfloor>rne (of_int ?n * q)\<rfloor>"
    using r(1,2) by (simp only: f fmul.simps f64_to_i64.simps trunc_rat_def if_True)
  moreover have "nat \<lfloor>rne (of_int ?n * q)\<rfloor> < length ds" using i assms(4) by (cases ds) (simp_all add: nat_less_iff)
  ultimately show thesis
    using i assms(4) by (intro that [of "nat \<lfloor>rne (of_int ?n * q)\<rfloor>"]) (simp_all add: percentile_def Let_def)
qed

lemma percentile_mono:
  assumes "0 \<le> p" "p \<le> q" "q \<le> 1" "repr p" "repr q" "sorted ds" "int (length ds) \<le> 2 ^ 53"
  obtains x y where "percentile ds (Fin p) = Some x" "percentile ds (Fin q) = Some y" "x \<le> y"
    "ds \<noteq> [] \<longrightarrow> x \<in> set ds \<and> y \<in> set ds"
proof (cases "ds = []")
  case True
  then show thesis by (intro that [of 0 0]) (simp_all add: percentile_def)
next
  case False
  have pq: "p \<le> 1" "0 \<le> q" using assms(1-3) by simp_all
  obtain i where i: "percentile ds (Fin p) = Some (ds ! i)" "i < length ds"
    "i = nat \<lfloor>rne (of_int (int (length ds) - 1) * p)\<rfloor>"
    using assms(1) pq(1) assms(4) False assms(7) by (rule percentile_index)
  obtain j where j: "percentile ds (Fin q) = Some (ds ! j)" "j < length ds"
    "j = nat \<lfloor>rne (of_int (int (length ds) - 1) * q)\<rfloor>"
    using pq(2) assms(3,5) False assms(7) by (rule percentile_index)
  have "0 \<le> (of_int (int (length ds) - 1) :: rat)" using False by (simp add: Suc_le_eq)
  then have "of_int (int (length ds) - 1) * p \<le> of_int (int (length ds) - 1) * q"
    using assms(2) by (intro mult_left_mono)
  then have "i \<le> j" unfolding i(3) j(3) by (intro nat_mono floor_mono rne_mono)
  have "ds ! i \<le> ds ! j" using assms(6) \<open>i \<le> j\<close> j(2) by (rule sorted_nth_mono)
  with i(1) j(1) show thesis using i(2) j(2) by (intro that) (assumption | simp)+
qed

text \<open>The three constants, rounded to \<open>float64\<close>.\<close>

lemma unit_constants:
  obtains a b c where "rnd (50 / 100) = Fin a" "rnd (95 / 100) = Fin b" "rnd (99 / 100) = Fin c"
    "0 \<le> a" "a \<le> b" "b \<le> c" "c \<le> 1" "repr a" "repr b" "repr c"
proof -
  have b01: "f64_bounds 0 1" by (intro f64_bounds_le) simp_all
  have u: "rnd x = Fin (rne x) \<and> 0 \<le> rne x \<and> rne x \<le> 1" if "0 \<le> x" "x \<le> 1" for x
    using rnd_eq [OF b01 that] by simp
  show thesis
    by (rule that [of "rne (50 / 100)" "rne (95 / 100)" "rne (99 / 100)"])
      (use u [of "50 / 100"] u [of "95 / 100"] u [of "99 / 100"] in \<open>auto intro!: rne_mono simp: repr_rne\<close>)
qed

lemma sim_run_counts:
  assumes "sim_run sc start ticks responses stop = Some r"
  shows "r_sent r = int (length (issued sc start ticks))"
    "r_served r = int (length (filter (\<lambda>x. fst x = StatusOK) responses))"
    "r_shed r = int (length (filter (\<lambda>x. fst x = StatusServiceUnavailable) responses))"
    "r_served r + r_shed r + r_other r = int (length responses)"
  using assms tally_run [of responses tally0]
  by (auto simp: sim_run_def tally0_def Let_def bind_eq_Some_conv split: option.splits)

lemma sim_run_total:
  assumes "length responses = length (issued sc start ticks)" "int (length responses) \<le> 2 ^ 53"
    and "mset responses = mset responses'"
  shows "\<exists>r. sim_run sc start ticks responses stop = Some r
    \<and> r_sent r = r_served r + r_shed r + r_other r
    \<and> r_p50 r \<le> r_p95 r \<and> r_p95 r \<le> r_p99 r
    \<and> {r_p50 r, r_p95 r, r_p99 r} \<subseteq> (if r_served r = 0 then {0} else {d. (StatusOK, d) \<in> set responses})
    \<and> sim_run sc start ticks responses' stop = Some r"
proof -
  let ?lat = "\<lambda>rs. List.map snd (filter (\<lambda>x. fst x = StatusOK) rs :: (int \<times> duration) list)"
  define ls where "ls = sort (?lat responses)"
  have ln: "int (length ls) \<le> 2 ^ 53"
  proof -
    have "length ls \<le> length responses" by (simp add: ls_def)
    then show ?thesis using assms(2) by linarith
  qed
  obtain a b c where abc: "rnd (50 / 100) = Fin a" "rnd (95 / 100) = Fin b" "rnd (99 / 100) = Fin c"
    "0 \<le> a" "a \<le> b" "b \<le> c" "c \<le> 1" "repr a" "repr b" "repr c" by (rule unit_constants)
  have le1: "b \<le> 1" "0 \<le> b" using abc by simp_all
  have s: "sorted ls" by (simp add: ls_def)
  obtain x y where xy: "percentile ls (Fin a) = Some x" "percentile ls (Fin b) = Some y" "x \<le> y"
    "ls \<noteq> [] \<longrightarrow> x \<in> set ls \<and> y \<in> set ls"
    using abc(4,5) le1(1) abc(8,9) s ln by (rule percentile_mono)
  obtain y' z where yz: "percentile ls (Fin b) = Some y'" "percentile ls (Fin c) = Some z" "y' \<le> z"
    "ls \<noteq> [] \<longrightarrow> y' \<in> set ls \<and> z \<in> set ls"
    using le1(2) abc(6,7,9,10) s ln by (rule percentile_mono)
  let ?t = "run tally_response responses tally0" and ?t' = "run tally_response responses' tally0"
  have lat: "t_latencies ?t = ?lat responses" "t_latencies ?t' = ?lat responses'"
    by (simp_all add: tally_run tally0_def)
  have len: "length responses = length responses'" using assms(3) by (metis size_mset)
  have "mset (?lat responses) = mset (?lat responses')" using assms(3) by (simp add: mset_filter mset_map)
  then have ls': "sort (?lat responses') = ls" unfolding ls_def by (metis properties_for_sort mset_sort sorted_sort)
  have cnt: "length (filter P responses) = length (filter P responses')" for P
    using assms(3) by (metis mset_filter size_mset)
  have counts: "t_served ?t' = t_served ?t" "t_shed ?t' = t_shed ?t"
    by (simp_all add: tally_run(1,2) cnt)
  have sum: "t_served ?t + t_shed ?t + t_other ?t = int (length responses)"
    "t_served ?t' + t_shed ?t' + t_other ?t' = int (length responses')"
    by (simp_all only: tally_run(3)) (simp_all add: tally0_def)
  then have other: "t_other ?t' = t_other ?t" using counts len by simp
  have empty: "ls = [] \<longleftrightarrow> t_served ?t = 0"
  proof -
    have "ls = [] \<longleftrightarrow> ?lat responses = []" unfolding ls_def length_0_conv [symmetric] length_sort ..
    then show ?thesis by (simp only: tally_run(1) tally0_def tally.simps map_is_Nil_conv) simp
  qed
  have members: "{x, y, z} \<subseteq> (if t_served ?t = 0 then {0} else {d. (StatusOK, d) \<in> set responses})"
  proof (cases "ls = []")
    case True
    then have "x = 0" "y = 0" "z = 0" using xy yz by (simp_all add: percentile_def)
    then show ?thesis using True empty by simp
  next
    case False
    have "set ls = {d. (StatusOK, d) \<in> set responses}" by (force simp: ls_def)
    then show ?thesis using False empty xy yz by auto
  qed
  let ?r = "\<lparr>r_sent = int (length (issued sc start ticks)), r_served = t_served ?t, r_shed = t_shed ?t,
      r_other = t_other ?t, r_p50 = x, r_p95 = y, r_p99 = z, r_wall = time_sub stop start\<rparr>"
  have "y' = y" using xy(2) yz(1) by simp
  moreover obtain d where "sim_ticker sc = Some d" using sim_ticker_starts by blast
  ultimately have "sim_run sc start ticks responses stop = Some ?r" "sim_run sc start ticks responses' stop = Some ?r"
    using abc(1-3) xy(1) yz(1,2) counts other by (simp_all add: sim_run_def Let_def lat ls' ls_def [symmetric])
  then show ?thesis using xy(3) yz(3) \<open>y' = y\<close> members sum(1) assms(1) by (intro exI [of _ ?r]) simp
qed

text \<open>
  C37. A run accounts for every request and never panics, whatever the scenario: neither where
  it divides by the rate and starts its ticker, also at a rate that is not positive or above a
  billion, nor where it indexes the latencies. With one response per issued request, and not
  more than 2^53 of them, the counts add up to the requests sent, the percentiles are in order,
  each is the latency of a served request (or 0 when none was), and the result does not depend
  on the order in which the requests complete.
\<close>

theorem simulation_accounts:
  assumes "length responses = length (issued sc start ticks)" "int (length responses) \<le> 2 ^ 53"
    and "mset responses = mset responses'"
  shows "\<exists>r. sim_run sc start ticks responses stop = Some r
    \<and> r_sent r = r_served r + r_shed r + r_other r
    \<and> r_p50 r \<le> r_p95 r \<and> r_p95 r \<le> r_p99 r
    \<and> {r_p50 r, r_p95 r, r_p99 r} \<subseteq> (if r_served r = 0 then {0} else {d. (StatusOK, d) \<in> set responses})
    \<and> sim_run sc start ticks responses' stop = Some r"
  using assms by (rule sim_run_total)

theorem simulation_accounts_witness:
  "\<exists>r. sim_run \<lparr>sc_duration = 3, sc_rps = 800, sc_service = 0\<rparr> 10 [11, 12, 13, 14] [(200, 7), (503, 1), (200, 5)] 20 = Some r
    \<and> r_sent r = 3 \<and> r_p50 r \<le> r_p99 r"
proof -
  have "issued \<lparr>sc_duration = 3, sc_rps = 800, sc_service = 0\<rparr> 10 [11, 12, 13, 14] = [11, 12, 13]"
    by (simp add: issued_def time_defs)
  then show ?thesis
    using simulation_accounts [of "[(200, 7), (503, 1), (200, 5)]" "\<lparr>sc_duration = 3, sc_rps = 800, sc_service = 0\<rparr>"
        10 "[11, 12, 13, 14]" "[(503, 1), (200, 5), (200, 7)]" 20]
    by (auto simp: sim_run_def Let_def bind_eq_Some_conv split: option.splits)
qed

end
