(* ===== verification/Strategies.thy ===== *)
theory Strategies
  imports CodelStop Lifo QuarkusShedder Gozero Sentinel Simulate
begin

text \<open>
  The simulator over the shedders of the library: the interface \<open>Shedder\<close> of simulate.go as a
  locale, interpreted on every middleware, and what a simulation of the two pools reports
  against the pools' own counters.
\<close>

subsection \<open>The synthetic backend\<close>

text \<open>It sleeps and answers 200.\<close>

definition sim_backend :: "scenario \<Rightarrow> 'p handler_run" where
  "sim_backend sc = \<lparr>calls = [WriteHeader StatusOK], panics = None\<rparr>"

text \<open>The code an \<open>httptest.ResponseRecorder\<close> keeps: the first one written, 200 until then.\<close>

fun recorder_code :: "http_call list \<Rightarrow> int" where
  "recorder_code [] = StatusOK"
| "recorder_code (WriteHeader c # cs) = c"
| "recorder_code (Write b # cs) = StatusOK"
| "recorder_code (SetHeader k v # cs) = recorder_code cs"

subsection \<open>The interface\<close>

text \<open>
  A middleware turns a decision about a request and the run of the handler into a response: the
  503 of the library when it refuses, the handler's own calls, at most filtered by a
  \<open>codeWriter\<close>, when it does not.
\<close>

locale shedder =
  fixes answer :: "'d \<Rightarrow> 'p handler_run \<Rightarrow> http_call list"
    and refuses :: "'d \<Rightarrow> bool"
  assumes refused: "refuses d \<Longrightarrow> answer d h = shed_response"
    and passed: "\<not> refuses d \<Longrightarrow> answer d h \<in> {calls h, cw_inner (serve h [])}"
begin

lemma answer_code:
  "recorder_code (answer d (sim_backend sc)) = (if refuses d then StatusServiceUnavailable else StatusOK)"
proof (cases "refuses d")
  case True
  then show ?thesis by (simp add: refused shed_response_def)
next
  case False
  have "cw_inner (serve (sim_backend sc :: 'p handler_run) []) = [WriteHeader StatusOK]"
    by (simp add: serve_def sim_backend_def new_code_writer_def cw_write_header_def)
  with False passed [OF False, of "sim_backend sc"] show ?thesis by (auto simp: sim_backend_def)
qed

text \<open>The simulator counts the decisions: what was refused as shed, the rest as served.\<close>

lemma measured:
  assumes "mset responses = image_mset (\<lambda>i. (recorder_code (answer (dec i) (sim_backend sc)), lat i)) M"
    and "size M = length (issued sc t0 ticks)" "int (size M) \<le> 2 ^ 53"
  shows "\<exists>r. sim_run sc t0 ticks responses stop = Some r \<and> r_other r = 0
    \<and> r_shed r = int (size (filter_mset (\<lambda>i. refuses (dec i)) M))
    \<and> r_served r = int (size (filter_mset (\<lambda>i. \<not> refuses (dec i)) M))
    \<and> r_sent r = r_served r + r_shed r"
proof -
  have len: "length responses = size M" using assms(1) by (metis size_image_mset size_mset)
  obtain r where r: "sim_run sc t0 ticks responses stop = Some r"
    using sim_run_total [of responses sc t0 ticks responses stop] len assms(2,3) by auto
  have cnt: "length (filter (\<lambda>x. fst x = c) responses)
      = size (filter_mset (\<lambda>i. recorder_code (answer (dec i) (sim_backend sc)) = c) M)" for c
  proof -
    have "length (filter (\<lambda>x. fst x = c) responses) = size (filter_mset (\<lambda>x. fst x = c) (mset responses))"
      by (metis mset_filter size_mset)
    also have "\<dots> = size (filter_mset (\<lambda>i. recorder_code (answer (dec i) (sim_backend sc)) = c) M)"
      unfolding assms(1) by (simp add: filter_mset_image_mset)
    finally show ?thesis .
  qed
  have "(\<lambda>i. recorder_code (answer (dec i) (sim_backend sc)) = StatusOK) = (\<lambda>i. \<not> refuses (dec i))"
    "(\<lambda>i. recorder_code (answer (dec i) (sim_backend sc)) = StatusServiceUnavailable) = (\<lambda>i. refuses (dec i))"
    by (auto simp: answer_code)
  then have c: "r_served r = int (size (filter_mset (\<lambda>i. \<not> refuses (dec i)) M))"
    "r_shed r = int (size (filter_mset (\<lambda>i. refuses (dec i)) M))"
    using sim_run_counts(2,3) [OF r] cnt by simp_all
  have "size M = size (filter_mset (\<lambda>i. refuses (dec i)) M) + size (filter_mset (\<lambda>i. \<not> refuses (dec i)) M)"
    by (metis multiset_partition size_union)
  then show ?thesis using r c sim_run_counts(1,4) [OF r] len assms(2) by auto
qed

end

interpretation pool_shedder: shedder "\<lambda>err h. fst (pool_handler err h)" "\<lambda>err. err \<noteq> None"
  by unfold_locales (simp_all add: pool_handler_def)

interpretation codel_shedder: shedder "\<lambda>err h. fst (codel_handler err h)" "\<lambda>err. err \<noteq> None"
  by unfold_locales (simp_all add: codel_handler_def)

interpretation limiter_shedder: shedder "\<lambda>l h. fst (cl_handler l h)" "\<lambda>l. l = None"
  by unfold_locales (auto simp: cl_handler_def cl_serve_eq Let_def)

interpretation lifo_shedder: shedder "\<lambda>l h. fst (lifo_handler l h)" "\<lambda>l. l = None"
  by unfold_locales (auto simp: lifo_handler_def cl_handler_def cl_serve_eq Let_def)

interpretation quarkus_shedder: shedder "\<lambda>ok h. fst (q_handler ok h)" "\<lambda>ok. \<not> ok"
  by unfold_locales (simp_all add: q_handler_def)

interpretation gozero_shedder: shedder "\<lambda>promise h. fst (gozero_handler promise h)" "\<lambda>promise. promise = None"
  by unfold_locales (auto simp: gozero_handler_def gz_serve_eq Let_def)

interpretation sentinel_shedder: shedder "\<lambda>entry h. fst (sentinel_handler entry h)" "\<lambda>entry. entry = None"
  by unfold_locales (auto simp: sentinel_handler_def)

subsection \<open>A set of requests that have all been answered\<close>

text \<open>When each of \<open>S\<close> is answered by one of two verdicts, none is left over.\<close>

lemma verdicts_partition:
  assumes S: "S = W + A + R" and once: "\<forall>i. count S i \<le> 1"
    and verdict: "\<forall>i \<in># S. if bad i then i \<in># R else i \<in># A"
  shows "filter_mset bad S = R \<and> filter_mset (\<lambda>i. \<not> bad i) S = A \<and> W = {#}"
proof -
  have c: "count W i + count A i + count R i \<le> 1" for i using once unfolding S by (metis count_union)
  have v: "bad i \<Longrightarrow> 1 \<le> count R i" "\<not> bad i \<Longrightarrow> 1 \<le> count A i" if "count S i \<noteq> 0" for i
    using verdict that by (metis Suc_le_eq One_nat_def count_greater_zero_iff neq0_conv)+
  have "count (filter_mset bad S) i = count R i \<and> count (filter_mset (\<lambda>i. \<not> bad i) S) i = count A i
      \<and> count W i = 0" for i
  proof (cases "count S i = 0")
    case True
    then show ?thesis unfolding S by simp
  next
    case False
    show ?thesis
    proof (cases "bad i")
      case True
      then have "count W i = 0" "count A i = 0" "count S i = count R i"
        using v(1) [OF False] c [of i] unfolding S count_union by linarith+
      with True show ?thesis by simp
    next
      case good: False
      then have "count W i = 0" "count R i = 0" "count S i = count A i"
        using v(2) [OF False] c [of i] unfolding S count_union by linarith+
      with good show ?thesis by simp
    qed
  qed
  then show ?thesis by (auto intro: multiset_eqI)
qed

subsection \<open>The bounded pool\<close>

text \<open>\<open>Submit\<close> returns four errors, \<open>ErrStopped\<close> only on a closed pool.\<close>

definition ordinary :: "nat \<times> submit_error option \<Rightarrow> bool" where
  "ordinary x \<longleftrightarrow> snd x = None \<or> is_shed (snd x)"

lemma ordinary_simps [simp]:
  "ordinary (i, None)" "ordinary (i, Some ErrOverloaded)" "ordinary (i, Some ErrQueueFull)"
  "ordinary (i, Some ErrQueueTimeout)"
  by (simp_all add: ordinary_def is_shed_def)

definition pool_errors_ok :: "('g, 't) pool \<Rightarrow> bool" where
  "pool_errors_ok p \<longleftrightarrow> (\<forall>x \<in># results p. ordinary x \<or> closed p)"

lemma pool_exec_errors: "pool_errors_ok p \<Longrightarrow> pool_exec G ev p = Some q \<Longrightarrow> pool_errors_ok q"
  by (cases ev)
    (auto simp: pool_errors_ok_def pool_defs Let_def
      split: if_split_asm list.splits option.splits prod.splits bool.splits)

lemma pool_run_errors: "run_events G evs p = Some q \<Longrightarrow> pool_errors_ok p \<Longrightarrow> pool_errors_ok q"
  by (induction evs arbitrary: p) (auto split: option.splits intro: pool_exec_errors)

subsection \<open>Agreement with the bounded pool\<close>

lemma pool_run_facts:
  assumes "run_events G evs (new_pool cfg) = Some p"
  shows "slots_inv p" "ids_inv p" "unique_inv p" "pool_errors_ok p"
proof -
  note r = run_events_reach [OF assms]
  show "slots_inv p" "ids_inv p" "unique_inv p" using reach_slots [OF r] reach_ids [OF r] reach_unique [OF r] .
  show "pool_errors_ok p" using pool_run_errors [OF assms] by (simp add: pool_errors_ok_def new_pool_def Let_def)
qed

lemma pool_all_answered:
  assumes "slots_inv p" "ids_inv p" "unique_inv p" "pool_errors_ok p" and "\<not> closed p"
    and "\<forall>i \<in># submitted p. submit_wait_returns i (err i) p"
  shows "int (size (filter_mset (\<lambda>i. err i \<noteq> None) (submitted p))) = rejected p
    \<and> int (size (filter_mset (\<lambda>i. \<not> err i \<noteq> None) (submitted p))) = accepted p
    \<and> counting p = {#}"
proof -
  let ?R = "result_ids (\<lambda>r. r \<noteq> None) p" and ?N = "result_ids (\<lambda>r. r = None) p"
  have S: "submitted p = (asking p + holding p + counting p) + ?N + ?R"
    using assms(2) by (simp add: ids_inv_def ac_simps)
  have "if err i \<noteq> None then i \<in># ?R else i \<in># ?N" if "i \<in># submitted p" for i
  proof -
    have "(i, err i) \<in># results p" using assms(6) that by (auto simp: submit_wait_returns_def)
    then show ?thesis by (auto simp: result_ids_member)
  qed
  then have v: "filter_mset (\<lambda>i. err i \<noteq> None) (submitted p) = ?R
      \<and> filter_mset (\<lambda>i. \<not> err i \<noteq> None) (submitted p) = ?N \<and> asking p + holding p + counting p = {#}"
    by (intro verdicts_partition [OF S assms(3) [unfolded unique_inv_def]] ballI)
  have "filter_mset (\<lambda>x. snd x \<noteq> None) (results p) = filter_mset (\<lambda>x. is_shed (snd x)) (results p)"
    using assms(4,5) by (intro filter_mset_cong) (auto simp: pool_errors_ok_def ordinary_def is_shed_def)
  then have "?R = result_ids is_shed p" by (simp add: result_ids_def)
  then have "int (size ?R) = rejected p" using assms(2) by (simp add: ids_inv_def)
  moreover have "int (size ?N) = accepted p"
    using assms(1,2) v by (simp add: slots_inv_def ids_inv_def)
  ultimately show ?thesis using v by simp
qed

text \<open>
  The simulator's table agrees with the pool it measures: when a run of the bounded pool has
  answered every request of the simulation, each through the pool's middleware over the
  synthetic backend, the simulator counts as served exactly what the pool counts as accepted,
  as shed what the pool counts as rejected, and nothing as other.
\<close>

theorem simulation_agrees_with_pool:
  assumes "run_events G evs (new_pool cfg) = Some p" and "\<not> closed p"
    and "\<forall>i \<in># submitted p. submit_wait_returns i (err i) p"
    and "mset responses = image_mset (\<lambda>i. (recorder_code (fst (pool_handler (err i) (sim_backend sc))), lat i)) (submitted p)"
    and "size (submitted p) = length (issued sc t0 ticks)" "int (size (submitted p)) \<le> 2 ^ 53"
  shows "\<exists>r. sim_run sc t0 ticks responses stop = Some r \<and> r_served r = Accepted (pool_stats p)
    \<and> r_shed r = Rejected (pool_stats p) \<and> r_other r = 0
    \<and> r_sent r = Accepted (pool_stats p) + Rejected (pool_stats p)"
proof -
  note f = pool_run_facts [OF assms(1)]
  note a = pool_all_answered [OF f assms(2,3)]
  obtain r where "sim_run sc t0 ticks responses stop = Some r" "r_other r = 0" "r_shed r = rejected p"
    "r_served r = accepted p" "r_sent r = r_served r + r_shed r"
    using pool_shedder.measured [where dec = err and stop = stop, OF assms(4-6)] a by auto
  then show ?thesis by (intro exI [of _ r]) (simp add: pool_stats_def)
qed

subsection \<open>Agreement with the CoDel pool\<close>

definition codel_errors_ok :: "('g, 't) codel \<Rightarrow> bool" where
  "codel_errors_ok p \<longleftrightarrow> (\<forall>x \<in># c_results p. ordinary x \<or> c_closed p)"

lemma codel_exec_errors: "codel_errors_ok p \<Longrightarrow> codel_exec G ev p = Some q \<Longrightarrow> codel_errors_ok q"
proof (cases ev)
  case (CWorker now)
  moreover assume "codel_errors_ok p" "codel_exec G ev p = Some q"
  ultimately show ?thesis by (simp add: codel_errors_ok_def codel_worker_fixed)
qed (auto simp: codel_errors_ok_def codel_submit_defs codel_on_drop_def codel_begin_def codel_end_def
    codel_stop_def codel_stop_wait_def not_empty_broadcast_def codel_set_gate_def Let_def
    split: if_split_asm option.splits prod.splits bool.splits)

lemma codel_run_errors: "run_codel G evs p = Some q \<Longrightarrow> codel_errors_ok p \<Longrightarrow> codel_errors_ok q"
  by (induction evs arbitrary: p) (auto split: option.splits intro: codel_exec_errors)

lemma codel_run_facts:
  assumes "run_codel G evs (new_codel cfg t0) = Some p"
  shows "c_slots_inv p" "c_ids_inv p" "c_unique_inv p" "codel_errors_ok p"
proof -
  note r = run_codel_reach [OF assms]
  show "c_slots_inv p" "c_ids_inv p" "c_unique_inv p" using codel_reach_inv [OF r] by simp_all
  show "codel_errors_ok p" using codel_run_errors [OF assms] by (simp add: codel_errors_ok_def new_codel_def Let_def)
qed

lemma codel_all_answered:
  assumes "c_slots_inv p" "c_ids_inv p" "c_unique_inv p" "codel_errors_ok p" and "\<not> c_closed p"
    and "\<forall>i \<in># c_submitted p. codel_wait_returns i (err i) p"
  shows "int (size (filter_mset (\<lambda>i. err i \<noteq> None) (c_submitted p))) = c_rejected p + c_dropped p
    \<and> int (size (filter_mset (\<lambda>i. \<not> err i \<noteq> None) (c_submitted p))) = c_accepted p - c_dropped p
    \<and> waiting p = {#}"
proof -
  let ?R = "c_result_ids (\<lambda>r. r \<noteq> None) p"
  have S: "c_submitted p = (waiting p + queued_ids p + popped p + c_running p + dropping_now p) + served p + (?R + shed p)"
    using assms(2) by (simp add: c_ids_inv_def c_admitted_def ac_simps)
  have "if err i \<noteq> None then i \<in># ?R + shed p else i \<in># served p" if "i \<in># c_submitted p" for i
  proof -
    have "codel_wait_returns i (err i) p" using assms(6) that by blast
    then show ?thesis by (cases "err i") (auto simp: codel_wait_returns_def c_result_ids_member split: if_split_asm)
  qed
  then have v: "filter_mset (\<lambda>i. err i \<noteq> None) (c_submitted p) = ?R + shed p
      \<and> filter_mset (\<lambda>i. \<not> err i \<noteq> None) (c_submitted p) = served p
      \<and> waiting p + queued_ids p + popped p + c_running p + dropping_now p = {#}"
    by (intro verdicts_partition [OF S assms(3) [unfolded c_unique_inv_def]] ballI)
  then have e: "buf p = []" "popped p = {#}" "c_running p = {#}" "dropping_now p = {#}"
    by (simp_all add: queued_ids_def)
  have "filter_mset (\<lambda>x. snd x \<noteq> None) (c_results p) = filter_mset (\<lambda>x. is_shed (snd x)) (c_results p)"
    using assms(4,5) by (intro filter_mset_cong) (auto simp: codel_errors_ok_def ordinary_def is_shed_def)
  then have "?R = c_result_ids is_shed p" by (simp add: c_result_ids_def)
  then have "int (size ?R) = c_rejected p" using assms(2) by (simp add: c_ids_inv_def)
  moreover have "c_dropped p = int (size (shed p))" "c_accepted p = int (size (served p)) + int (size (shed p))"
    using assms(1) e by (simp_all add: c_slots_inv_def)
  ultimately show ?thesis using v by simp
qed

text \<open>
  C14. The simulator's table agrees with the CoDel pool it measures: a request the pool rejected
  or dropped counts as shed, one it served as served, and nothing as other.
\<close>

theorem simulation_agrees_with_codel:
  assumes "run_codel G evs (new_codel cfg c0) = Some p" and "\<not> c_closed p"
    and "\<forall>i \<in># c_submitted p. codel_wait_returns i (err i) p"
    and "mset responses = image_mset (\<lambda>i. (recorder_code (fst (codel_handler (err i) (sim_backend sc))), lat i)) (c_submitted p)"
    and "size (c_submitted p) = length (issued sc t0 ticks)" "int (size (c_submitted p)) \<le> 2 ^ 53"
  shows "\<exists>r. sim_run sc t0 ticks responses stop = Some r
    \<and> r_served r = CAccepted (codel_pool_stats p) - CDropped (codel_pool_stats p)
    \<and> r_shed r = CRejected (codel_pool_stats p) + CDropped (codel_pool_stats p) \<and> r_other r = 0"
proof -
  note f = codel_run_facts [OF assms(1)]
  note a = codel_all_answered [OF f assms(2,3)]
  obtain r where "sim_run sc t0 ticks responses stop = Some r" "r_other r = 0"
    "r_shed r = c_rejected p + c_dropped p" "r_served r = c_accepted p - c_dropped p"
    using codel_shedder.measured [where dec = err and stop = stop, OF assms(4-6)] a by auto
  then show ?thesis by (intro exI [of _ r]) (simp add: codel_pool_stats_def)
qed

subsection \<open>A simulated run\<close>

definition sim_demo :: "(int \<times> int) pool_event list" where
  "sim_demo = demo_busy @ [EvEnter 2, EvCount 2, EvEnd 0 (Ret True), EvRelease 0, EvTake, EvBegin 2,
     EvEnd 2 (Ret True), EvRelease 2]"

definition sim_demo_errs :: "nat \<Rightarrow> submit_error option" where
  "sim_demo_errs i = (if i = 1 then Some ErrOverloaded else if i = 3 then Some ErrQueueFull else None)"

theorem simulation_agrees_with_pool_witness:
  "\<exists>p r. run_events demo_ops sim_demo (new_pool demo_cfg) = Some p
    \<and> sim_run \<lparr>sc_duration = 9, sc_rps = 800, sc_service = 0\<rparr> 0 [1, 2, 3, 4, 100]
        [(200, 0), (503, 1), (200, 2), (503, 3)] 50 = Some r
    \<and> r_served r = Accepted (pool_stats p) \<and> r_shed r = Rejected (pool_stats p)"
proof -
  let ?sc = "\<lparr>sc_duration = 9, sc_rps = 800, sc_service = 0\<rparr>"
  have ex: "\<exists>p. run_events demo_ops sim_demo (new_pool demo_cfg) = Some p \<and> \<not> closed p
      \<and> submitted p = {#0, 1, 2, 3#} \<and> (\<forall>i \<in># {#0, 1, 2, 3#}. submit_wait_returns i (sim_demo_errs i) p)"
    by (simp add: sim_demo_def demo_defs outcome_success_def submit_wait_returns_def sim_demo_errs_def)
  then obtain p where p: "run_events demo_ops sim_demo (new_pool demo_cfg) = Some p" "\<not> closed p"
    "submitted p = {#0, 1, 2, 3#}" "\<forall>i \<in># submitted p. submit_wait_returns i (sim_demo_errs i) p" by auto
  have m: "mset [(200, 0), (503, 1), (200, 2), (503, 3)] =
      image_mset (\<lambda>i. (recorder_code (fst (pool_handler (sim_demo_errs i) (sim_backend ?sc :: unit handler_run))), int i))
        (submitted p)"
    unfolding p(3) by (simp add: sim_demo_errs_def pool_shedder.answer_code)
  have i: "issued ?sc 0 [1, 2, 3, 4, 100] = [1, 2, 3, 4]" by (simp add: issued_def time_defs)
  from simulation_agrees_with_pool [OF p(1,2,4) m, of 0 "[1, 2, 3, 4, 100]" 50] p(1)
  show ?thesis unfolding i p(3) by auto
qed

definition sim_lull_errs :: "nat \<Rightarrow> submit_error option" where
  "sim_lull_errs i = (if i = 2 then Some ErrDropped else None)"

theorem simulation_agrees_with_codel_witness:
  "\<exists>p r. run_codel demo_ops (lull_before @ lull_after) (new_codel lull_cfg 0) = Some p
    \<and> sim_run \<lparr>sc_duration = 9, sc_rps = 800, sc_service = 0\<rparr> 0 [1, 2, 3, 100]
        [(200, 0), (200, 1), (503, 2)] 50 = Some r
    \<and> r_shed r = CRejected (codel_pool_stats p) + CDropped (codel_pool_stats p)"
proof -
  let ?sc = "\<lparr>sc_duration = 9, sc_rps = 800, sc_service = 0\<rparr>"
  have ex: "\<exists>p. run_codel demo_ops (lull_before @ lull_after) (new_codel lull_cfg 0) = Some p \<and> \<not> c_closed p
      \<and> c_submitted p = {#0, 1, 2#} \<and> (\<forall>i \<in># {#0, 1, 2#}. codel_wait_returns i (sim_lull_errs i) p)"
    by (simp add: lull_before_def lull_after_def lull_defs outcome_success_def codel_wait_returns_def sim_lull_errs_def)
  then obtain p where p: "run_codel demo_ops (lull_before @ lull_after) (new_codel lull_cfg 0) = Some p" "\<not> c_closed p"
    "c_submitted p = {#0, 1, 2#}" "\<forall>i \<in># c_submitted p. codel_wait_returns i (sim_lull_errs i) p" by auto
  have m: "mset [(200, 0), (200, 1), (503, 2)] =
      image_mset (\<lambda>i. (recorder_code (fst (codel_handler (sim_lull_errs i) (sim_backend ?sc :: unit handler_run))), int i))
        (c_submitted p)"
    unfolding p(3) by (simp add: sim_lull_errs_def codel_shedder.answer_code)
  have i: "issued ?sc 0 [1, 2, 3, 100] = [1, 2, 3]" by (simp add: issued_def time_defs)
  from simulation_agrees_with_codel [OF p(1,2,4) m, of 0 "[1, 2, 3, 100]" 50] p(1)
  show ?thesis unfolding i p(3) by auto
qed

end
