(* ===== verification/SimTable.thy ===== *)
theory SimTable
  imports GoText Simulate
begin

text \<open>
  The report of the simulator (simulate/simulate.go: \<open>FormatTable\<close>, \<open>roundMs\<close>) with what it
  uses of the packages fmt, strconv and time: padded columns, the printing of integers, of a
  \<open>float64\<close> with one decimal and of a \<open>Duration\<close>, and \<open>Duration.Round\<close>.
\<close>

subsection \<open>Printing\<close>

text \<open>A width counts runes: the bytes of a UTF-8 text that do not continue another.\<close>

definition rune_count :: "string \<Rightarrow> nat" where
  "rune_count s = length (filter (\<lambda>c. (of_char c :: nat) div 64 \<noteq> 2) s)"

definition pad_left :: "nat \<Rightarrow> string \<Rightarrow> string" where
  "pad_left n s = replicate (n - rune_count s) CHR '' '' @ s"

definition pad_right :: "nat \<Rightarrow> string \<Rightarrow> string" where
  "pad_right n s = s @ replicate (n - rune_count s) CHR '' ''"

definition show_int :: "int \<Rightarrow> string" where
  "show_int n = (if n < 0 then CHR ''-'' # show_nat (nat (- n)) else show_nat (nat n))"

text \<open>
  The verb \<open>%.1f\<close>: the exact value rounded to tenths, ties to even. The sign is that of the
  number, so a negative one that rounds to zero prints as \<open>-0.0\<close>.
\<close>

definition show_tenths :: "f64 \<Rightarrow> string" where
  "show_tenths x =
     (case x of
        Fin q \<Rightarrow>
          let n = nat (round_even (10 * \<bar>q\<bar>)) in
          (if q < 0 then ''-'' else []) @ show_nat (n div 10) @ CHR ''.'' # [digit_char (n mod 10)]
      | PInf \<Rightarrow> ''+Inf'' | NInf \<Rightarrow> ''-Inf'' | NaN \<Rightarrow> ''NaN'')"

text \<open>
  \<open>Duration.String\<close>: \<open>show_frac\<close> prints the digits of a fraction without the zeros at its
  end, and nothing when there are none.
\<close>

fun frac_digits :: "nat \<Rightarrow> nat \<Rightarrow> bool \<Rightarrow> string \<Rightarrow> string" where
  "frac_digits 0 v pr acc = (if pr then CHR ''.'' # acc else acc)"
| "frac_digits (Suc k) v pr acc =
     (let d = v mod 10; pr' = (pr \<or> d \<noteq> 0)
      in frac_digits k (v div 10) pr' (if pr' then digit_char d # acc else acc))"

definition show_duration :: "duration \<Rightarrow> string" where
  "show_duration d =
     (let u = nat \<bar>d\<bar>; sign = (if d < 0 then ''-'' else [])
      in if u = 0 then ''0s''
         else if u < 1000 then sign @ show_nat u @ ''ns''
         else if u < 1000000 then sign @ show_nat (u div 1000) @ frac_digits 3 u False [] @ [CHR 0xC2, CHR 0xB5, CHR ''s'']
         else if u < 1000000000 then sign @ show_nat (u div 1000000) @ frac_digits 6 u False [] @ ''ms''
         else
           let s = u div 1000000000; m = s div 60; h = m div 60;
               secs = show_nat (s mod 60) @ frac_digits 9 u False [] @ ''s''
           in sign @ (if m = 0 then secs
                else (if h = 0 then [] else show_nat h @ ''h'') @ show_nat (m mod 60) @ ''m'' @ secs))"

text \<open>\<open>Duration.Round\<close>, half away from zero, held at the ends of the range.\<close>

definition round_duration :: "duration \<Rightarrow> duration \<Rightarrow> duration" where
  "round_duration d m =
     (if m \<le> 0 then d
      else let r = d smod m
      in if d < 0 then
           (let r = - r; d1 = i64 (d - m + r)
            in if 2 * r < m then d + r else if d1 < d then d1 else i64_min)
         else
           (let d1 = i64 (d + m - r)
            in if 2 * r < m then d - r else if d < d1 then d1 else i64_max))"

subsection \<open>The table\<close>

definition round_ms :: "duration \<Rightarrow> duration" where
  "round_ms d = round_duration d millisecond"

text \<open>A result with the name of its strategy.\<close>

definition shed_percent :: "sim_result \<Rightarrow> f64" where
  "shed_percent r = fmul (shed_rate r) (Fin 100)"

definition table_header :: string where
  "table_header = join_with CHR '' ''
     (pad_right 22 ''strategy'' # List.map (pad_left 7) [''sent'', ''served'', ''shed'']
      @ List.map (pad_left 8) [''shed%'', ''p50'', ''p95'', ''p99'']) @ [CHR 0x0A]"

definition table_row :: "string \<times> sim_result \<Rightarrow> string" where
  "table_row x = (case x of (nm, r) \<Rightarrow>
     join_with CHR '' ''
       (pad_right 22 nm # List.map (pad_left 7) [show_int (r_sent r), show_int (r_served r), show_int (r_shed r)]
        @ (pad_left 7 (show_tenths (shed_percent r)) @ ''%'')
        # List.map (\<lambda>d. pad_left 8 (show_duration (round_ms d))) [r_p50 r, r_p95 r, r_p99 r]) @ [CHR 0x0A])"

definition format_table :: "(string \<times> sim_result) list \<Rightarrow> string" where
  "format_table rs = table_header @ concat (List.map table_row rs)"

subsection \<open>Reading the table back\<close>

lemma str_fields_blank: "is_space c \<Longrightarrow> str_fields (c # s) = str_fields s"
  by (simp add: str_fields_def)

lemma str_fields_blanks: "str_fields (replicate n CHR '' '' @ s) = str_fields s"
  by (induction n) (simp_all add: str_fields_blank is_space_def)

lemma fields_pad_left:
  "is_field w \<Longrightarrow> is_space d \<Longrightarrow> str_fields (pad_left n w @ d # s) = w # str_fields s"
  "is_field w \<Longrightarrow> str_fields (pad_left n w) = [w]"
  by (simp_all add: pad_left_def str_fields_blanks str_fields_cons str_fields_word)

lemma fields_pad_right:
  assumes "is_field w" "is_space d"
  shows "str_fields (pad_right n w @ d # s) = w # str_fields s"
proof (cases "n - rune_count w")
  case 0
  with assms show ?thesis by (simp add: pad_right_def str_fields_cons)
next
  case (Suc k)
  have b: "is_space CHR '' ''" by (simp add: is_space_def)
  have "str_fields (pad_right n w @ d # s) = str_fields (w @ CHR '' '' # replicate k CHR '' '' @ d # s)"
    by (simp add: pad_right_def Suc)
  also have "\<dots> = w # str_fields s"
    by (simp only: str_fields_cons [OF assms(1) b] str_fields_blanks str_fields_blank [OF assms(2)])
  finally show ?thesis .
qed

lemma digit_field: "d < 10 \<Longrightarrow> \<not> is_space (digit_char d)"
  using digit_val_char [of d] by (auto simp: is_space_def digit_val_def)

lemma not_space_char [simp]:
  "\<not> is_space CHR ''-''" "\<not> is_space CHR ''.''" "\<not> is_space CHR ''%''" "\<not> is_space CHR ''+''"
  "\<not> is_space CHR ''s''" "\<not> is_space CHR ''n''" "\<not> is_space CHR ''m''" "\<not> is_space CHR ''h''"
  "\<not> is_space CHR ''I''" "\<not> is_space CHR ''f''" "\<not> is_space CHR ''N''" "\<not> is_space CHR ''a''"
  "\<not> is_space CHR ''0''" "\<not> is_space (CHR 0xC2)" "\<not> is_space (CHR 0xB5)"
  by (simp_all add: is_space_def)

lemma field_append: "is_field w \<Longrightarrow> list_all (\<lambda>c. \<not> is_space c) v \<Longrightarrow> is_field (w @ v) \<and> is_field (v @ w)"
  by (simp add: is_field_def)

lemma no_space_show_nat: "list_all (\<lambda>c. \<not> is_space c) (show_nat n)"
  using show_nat_field [of n] by (simp add: is_field_def)

lemma show_int_field: "is_field (show_int n)"
  using no_space_show_nat by (simp add: show_int_def is_field_def)

lemma show_tenths_field: "is_field (show_tenths x)"
  by (cases x) (simp_all add: show_tenths_def Let_def is_field_def no_space_show_nat digit_field)

lemma no_space_frac: "list_all (\<lambda>c. \<not> is_space c) acc \<Longrightarrow> list_all (\<lambda>c. \<not> is_space c) (frac_digits k v pr acc)"
  by (induction k v pr acc rule: frac_digits.induct) (auto simp: Let_def digit_field)

lemma show_duration_field: "is_field (show_duration d)"
  by (simp add: show_duration_def Let_def is_field_def no_space_show_nat no_space_frac)

lemma strconv_show_int: "is_i64 n \<Longrightarrow> strconv_parse_int (show_int n) = Inr n"
proof (cases "n < 0")
  case True
  moreover assume "is_i64 n"
  ultimately have "int (nat (- n)) \<le> i64_max + 1" "int (nat (- n)) \<le> u64_max" by (simp_all add: is_i64_def)
  then show ?thesis using True
    by (simp add: show_int_def strconv_parse_int_def strconv_parse_uint_show Let_def)
next
  case False
  moreover assume "is_i64 n"
  ultimately have "int (nat n) \<le> i64_max" by (simp add: is_i64_def)
  from strconv_parse_int_show [OF this] False show ?thesis by (simp add: show_int_def)
qed

text \<open>A row is a line: the cells do not hold a newline.\<close>

definition row_fields :: "string \<times> sim_result \<Rightarrow> string list" where
  "row_fields x = (case x of (nm, r) \<Rightarrow>
     [nm, show_int (r_sent r), show_int (r_served r), show_int (r_shed r), show_tenths (shed_percent r) @ ''%'',
      show_duration (round_ms (r_p50 r)), show_duration (round_ms (r_p95 r)), show_duration (round_ms (r_p99 r))])"

definition header_fields :: "string list" where
  "header_fields = [''strategy'', ''sent'', ''served'', ''shed'', ''shed%'', ''p50'', ''p95'', ''p99'']"

definition row_line :: "string list \<Rightarrow> string" where
  "row_line cells = join_with CHR '' '' cells"

lemma newline_free:
  "is_field w \<Longrightarrow> CHR 0x0A \<notin> set w"
  "is_field w \<Longrightarrow> CHR 0x0A \<notin> set (pad_left n w)"
  "is_field w \<Longrightarrow> CHR 0x0A \<notin> set (pad_right n w)"
  by (auto simp: is_field_def list_all_iff is_space_def pad_left_def pad_right_def)

text \<open>The padded cells of a row, which a blank separates.\<close>

definition row_cells :: "string \<times> sim_result \<Rightarrow> string list" where
  "row_cells x = (case x of (nm, r) \<Rightarrow>
     pad_right 22 nm # List.map (pad_left 7) [show_int (r_sent r), show_int (r_served r), show_int (r_shed r)]
        @ (pad_left 7 (show_tenths (shed_percent r)) @ ''%'')
        # List.map (\<lambda>d. pad_left 8 (show_duration (round_ms d))) [r_p50 r, r_p95 r, r_p99 r])"

definition header_cells :: "string list" where
  "header_cells = pad_right 22 ''strategy'' # List.map (pad_left 7) [''sent'', ''served'', ''shed'']
      @ List.map (pad_left 8) [''shed%'', ''p50'', ''p95'', ''p99'']"

lemma table_lines_eq:
  "table_row x = row_line (row_cells x) @ [CHR 0x0A]"
  "table_header = row_line header_cells @ [CHR 0x0A]"
  by (simp_all add: table_row_def table_header_def row_line_def row_cells_def header_cells_def split: prod.split)

lemma newline_free_line: "\<forall>w \<in> set ws. CHR 0x0A \<notin> set w \<Longrightarrow> CHR 0x0A \<notin> set (row_line ws)"
  using set_join [of "CHR '' ''" ws] by (auto simp: row_line_def)

lemma percent_field: "is_field (w @ ''%'') \<longleftrightarrow> list_all (\<lambda>c. \<not> is_space c) w"
  by (simp add: is_field_def)

lemma percent_cell: "pad_left 7 (show_tenths x) @ ''%'' = replicate (7 - rune_count (show_tenths x)) CHR '' '' @ show_tenths x @ ''%''"
  by (simp add: pad_left_def)

lemma newline_free_row: "is_field (fst x) \<Longrightarrow> CHR 0x0A \<notin> set (row_line (row_cells x))"
proof (rule newline_free_line)
  assume nm: "is_field (fst x)"
  obtain nm r where x: "x = (nm, r)" by fastforce
  show "\<forall>w \<in> set (row_cells x). CHR 0x0A \<notin> set w"
    using nm newline_free(2) [OF show_int_field] newline_free(2) [OF show_duration_field]
      newline_free(2) [OF show_tenths_field]
    by (simp add: x row_cells_def newline_free(3))
qed

lemma newline_free_header: "CHR 0x0A \<notin> set (row_line header_cells)"
  by (simp add: row_line_def header_cells_def pad_left_def pad_right_def)

lemma fields_row: "is_field (fst x) \<Longrightarrow> str_fields (row_line (row_cells x)) = row_fields x"
proof -
  assume nm: "is_field (fst x)"
  obtain nm r where x: "x = (nm, r)" by fastforce
  have b: "is_space CHR '' ''" by (simp add: is_space_def)
  have pf: "is_field (show_tenths (shed_percent r) @ ''%'')"
    using show_tenths_field [of "shed_percent r"] by (simp add: percent_field is_field_def)
  have pc: "str_fields ((pad_left 7 (show_tenths (shed_percent r)) @ ''%'') @ CHR '' '' # s)
      = (show_tenths (shed_percent r) @ ''%'') # str_fields s" for s
    using str_fields_cons [OF pf b, of s] unfolding percent_cell by (simp add: str_fields_blanks)
  show ?thesis using nm pc
    by (simp add: x row_line_def row_cells_def row_fields_def fields_pad_left fields_pad_right b show_int_field show_duration_field
        del: append_assoc)
qed

lemma fields_header: "str_fields (row_line header_cells) = header_fields"
proof -
  have b: "is_space CHR '' ''" by (simp add: is_space_def)
  have f: "is_field ''strategy''" "is_field ''sent''" "is_field ''served''" "is_field ''shed''" "is_field ''shed%''"
    "is_field ''p50''" "is_field ''p95''" "is_field ''p99''" by (simp_all add: is_field_def is_space_def)
  show ?thesis
    by (simp add: row_line_def header_cells_def header_fields_def fields_pad_left fields_pad_right b f)
qed

lemma str_fields_nil: "str_fields [] = []"
  by (simp add: str_fields_def)

lemma table_lines:
  assumes "list_all (\<lambda>x. is_field (fst x)) rs"
  shows "split_on (CHR 0x0A) (format_table rs)
    = row_line header_cells # List.map (\<lambda>x. row_line (row_cells x)) rs @ [[]]"
proof -
  have "split_on (CHR 0x0A) (concat (List.map table_row rs)) = List.map (\<lambda>x. row_line (row_cells x)) rs @ [[]]"
    using assms
  proof (induction rs)
    case (Cons x rs)
    then show ?case
      using split_on_cons [OF newline_free_row, of x] by (simp add: table_lines_eq)
  qed simp
  then show ?thesis
    using split_on_cons [OF newline_free_header] by (simp add: format_table_def table_lines_eq)
qed

lemma table_fields:
  assumes "list_all (\<lambda>x. is_field (fst x)) rs"
  shows "List.map str_fields (split_on (CHR 0x0A) (format_table rs)) = header_fields # List.map row_fields rs @ [[]]"
  using assms by (auto simp: table_lines fields_header fields_row list_all_iff str_fields_nil)

text \<open>
  The simulator's table can be read back: cut into lines and blank-separated fields it is
  the header and one line per result, in order, with the name, the counts, which
  \<open>strconv.ParseInt\<close> reads as the numbers they were, the shed percentage and the three
  latencies; however long the values, no column runs into the next.
\<close>

theorem format_table_reads_back:
  assumes "list_all (\<lambda>x. is_field (fst x)) rs"
    and "list_all (\<lambda>x. is_i64 (r_sent (snd x)) \<and> is_i64 (r_served (snd x)) \<and> is_i64 (r_shed (snd x))) rs"
  shows "List.map str_fields (split_on (CHR 0x0A) (format_table rs)) = header_fields # List.map row_fields rs @ [[]]
    \<and> List.map (\<lambda>x. List.map strconv_parse_int (take 3 (tl (row_fields x)))) rs
      = List.map (\<lambda>x. [Inr (r_sent (snd x)), Inr (r_served (snd x)), Inr (r_shed (snd x))]) rs"
proof
  show "List.map str_fields (split_on (CHR 0x0A) (format_table rs)) = header_fields # List.map row_fields rs @ [[]]"
    using assms(1) by (rule table_fields)
  show "List.map (\<lambda>x. List.map strconv_parse_int (take 3 (tl (row_fields x)))) rs
      = List.map (\<lambda>x. [Inr (r_sent (snd x)), Inr (r_served (snd x)), Inr (r_shed (snd x))]) rs"
    using assms(2) by (auto simp: row_fields_def strconv_show_int list_all_iff split: prod.split)
qed

subsection \<open>Durations in the table\<close>

lemma frac_digits_zeros: "k \<le> n \<Longrightarrow> frac_digits n (10 ^ k * w) False acc = frac_digits (n - k) w False acc"
proof (induction k arbitrary: n)
  case (Suc k)
  then obtain n' where n: "n = Suc n'" "k \<le> n'" by (cases n) auto
  show ?case using Suc.IH [OF n(2)] by (simp add: n(1) mult.assoc Let_def)
qed simp

lemma frac_digits_length: "length (frac_digits k v pr acc) \<le> k + 1 + length acc"
proof (induction k v pr acc rule: frac_digits.induct)
  case (2 k v pr acc)
  from 2 [OF refl refl] show ?case by (auto simp: Let_def split: if_splits)
qed simp

lemma show_duration_ms:
  assumes "0 < w" "w < 1000"
  shows "show_duration (int w * millisecond) = show_nat w @ ''ms''"
proof -
  have u: "nat \<bar>int w * millisecond\<bar> = 10 ^ 6 * w" by (simp add: nat_mult_distrib)
  have f: "frac_digits 6 (10 ^ 6 * w) False [] = []" by (subst frac_digits_zeros) simp_all
  have "\<not> 10 ^ 6 * w < 1000000" "10 ^ 6 * w < 1000000000" "10 ^ 6 * w div 1000000 = w" "10 ^ 6 * w \<noteq> 0" "\<not> 10 ^ 6 * w < 1000"
    using assms by simp_all
  then show ?thesis
    unfolding show_duration_def Let_def u f using assms(1) by simp
qed

lemma show_duration_s:
  assumes "1000 \<le> w" "w < 60000"
  shows "show_duration (int w * millisecond) = show_nat (w div 1000) @ frac_digits 3 w False [] @ ''s''"
proof -
  have u: "nat \<bar>int w * millisecond\<bar> = 10 ^ 6 * w" by (simp add: nat_mult_distrib)
  have f: "frac_digits 9 (10 ^ 6 * w) False [] = frac_digits 3 w False []" by (subst frac_digits_zeros) simp_all
  have d: "10 ^ 6 * w div 1000000000 = w div 1000"
  proof -
    have "10 ^ 6 * w div (10 ^ 6 * 1000) = w div (1000 :: nat)" by (rule div_mult_mult1) simp
    then show ?thesis by simp
  qed
  have "w div 1000 < 60" using assms(2) by (simp add: less_mult_imp_div_less)
  then have m: "w div 1000 div 60 = 0" "w div 1000 mod 60 = w div 1000" by simp_all
  have "\<not> 10 ^ 6 * w < 1000000000" "10 ^ 6 * w \<noteq> 0" "\<not> 10 ^ 6 * w < 1000" "\<not> 10 ^ 6 * w < 1000000"
    using assms by simp_all
  then show ?thesis
    unfolding show_duration_def Let_def u f d m using assms(1) by simp
qed

lemma show_duration_minute: "show_duration (60000 * millisecond) = ''1m0s''"
proof -
  have f: "frac_digits 9 60000000000 False [] = []" using frac_digits_zeros [of 9 9 60 "[]"] by simp
  have "show_nat 1 = ''1''" "show_nat 0 = ''0''" by code_simp+
  then show ?thesis by (simp add: show_duration_def Let_def f)
qed

text \<open>The nearest whole millisecond, for a latency that is not negative.\<close>

lemma round_ms_nearest:
  assumes "0 \<le> d" "d \<le> 10 ^ 18"
  shows "\<exists>w. round_ms d = int w * millisecond \<and> 2 * \<bar>round_ms d - d\<bar> \<le> millisecond"
proof -
  let ?r = "d mod millisecond"
  have r: "0 \<le> ?r" "?r < millisecond" "d - ?r = millisecond * (d div millisecond)"
    by (simp_all add: minus_mod_eq_mult_div)
  have q: "0 \<le> d div millisecond" using assms(1) by (simp add: pos_imp_zdiv_nonneg_iff)
  have d: "d \<le> 1000000000000000000" using assms(2) by simp
  have i: "i64 (d + millisecond - ?r) = d + millisecond - ?r"
    by (rule i64_idI) (use assms(1) d r(1,2) in simp_all)
  show ?thesis
  proof (cases "2 * ?r < millisecond")
    case True
    then have e: "round_ms d = d - ?r"
      using assms(1) by (simp add: round_ms_def round_duration_def smod_nonneg Let_def)
    show ?thesis
    proof (intro exI conjI)
      show "round_ms d = int (nat (d div millisecond)) * millisecond" using e r(3) q by simp
      show "2 * \<bar>round_ms d - d\<bar> \<le> millisecond" using e r True by simp
    qed
  next
    case False
    then have e: "round_ms d = (d - ?r) + millisecond"
      using assms(1) r(2) i by (simp add: round_ms_def round_duration_def smod_nonneg Let_def)
    show ?thesis
    proof (intro exI conjI)
      show "round_ms d = int (nat (d div millisecond) + 1) * millisecond" using e r(3) q by (simp add: distrib_right)
      show "2 * \<bar>round_ms d - d\<bar> \<le> millisecond" using e r False by simp
    qed
  qed
qed

lemma show_round_ms_width:
  assumes "0 \<le> d" "d < 60 * second"
  shows "length (show_duration (round_ms d)) \<le> 8"
proof -
  have "d \<le> 10 ^ 18" using assms(2) by simp
  then obtain w where w: "round_ms d = int w * millisecond" "2 * \<bar>round_ms d - d\<bar> \<le> millisecond"
    using round_ms_nearest assms(1) by blast
  have "round_ms d - d \<le> 500000" using w(2) by simp
  then have "int w * millisecond < 60001 * millisecond" using w(1) assms(2) by simp
  then have "w \<le> 60000" by simp
  then consider "w = 0" | "0 < w" "w < 1000" | "1000 \<le> w" "w < 60000" | "w = 60000" by linarith
  then show ?thesis
  proof cases
    case 1
    then show ?thesis using w(1) by (simp add: show_duration_def)
  next
    case 2
    then show ?thesis using w(1) show_nat_length [of w 3] by (simp add: show_duration_ms)
  next
    case 3
    have "w div 1000 < 10 ^ 2" using 3(2) by (simp add: less_mult_imp_div_less)
    then have "length (show_nat (w div 1000)) \<le> 2" by (rule show_nat_length) simp
    moreover have "length (frac_digits 3 w False []) \<le> 4" using frac_digits_length [of 3 w False "[]"] by simp
    ultimately show ?thesis using w(1) 3 by (simp add: show_duration_s)
  next
    case 4
    then show ?thesis using w(1) show_duration_minute by simp
  qed
qed

lemma show_count_width: "0 \<le> n \<Longrightarrow> n < 10 ^ 7 \<Longrightarrow> length (show_int n) \<le> 7"
  using show_nat_length [of "nat n" 7] by (simp add: show_int_def nat_less_iff)

lemma show_percent_width:
  assumes "0 \<le> q" "q \<le> 100"
  shows "length (show_tenths (Fin q)) \<le> 5"
proof -
  have "round_even (10 * \<bar>q\<bar>) \<le> round_even (of_int 1000)" using assms by (intro round_even_mono) simp
  then have "round_even (10 * \<bar>q\<bar>) \<le> 1000" by (simp only: round_even_of_int)
  then have "nat (round_even (10 * \<bar>q\<bar>)) div 10 < 10 ^ 3" by (simp add: less_mult_imp_div_less)
  then have "length (show_nat (nat (round_even (10 * \<bar>q\<bar>)) div 10)) \<le> 3" by (rule show_nat_length) simp
  then show ?thesis using assms(1) by (simp add: show_tenths_def Let_def)
qed

lemma shed_percent_range:
  assumes "0 \<le> r_shed r" "r_shed r \<le> r_sent r" "r_sent r \<le> 2 ^ 53"
  obtains q where "shed_percent r = Fin q" "0 \<le> q" "q \<le> 100"
proof -
  have b: "f64_bounds 0 1" "f64_bounds 0 100"
    using f64_bounds_of_int [of 0 1] f64_bounds_of_int [of 0 100] by simp_all
  have "\<exists>p. shed_rate r = Fin p \<and> 0 \<le> p \<and> p \<le> 1"
  proof (cases "r_sent r = 0")
    case False
    then have s: "0 < r_sent r" using assms by simp
    let ?x = "(of_int (r_shed r) :: rat) / of_int (r_sent r)"
    have x: "0 \<le> ?x" "?x \<le> 1" using assms s by (simp_all add: divide_le_eq_1)
    have "shed_rate r = rnd ?x" using assms s by (simp add: shed_rate_def f64_of_int_exact fdiv_Fin)
    with rnd_eq [OF b(1) x] show ?thesis by simp
  qed (simp add: shed_rate_def)
  then obtain p where p: "shed_rate r = Fin p" "0 \<le> p" "p \<le> 1" by blast
  have "0 \<le> p * 100" "p * 100 \<le> 100" using p by simp_all
  from rnd_eq [OF b(2) this] show thesis
    using p(1) by (intro that [of "rne (p * 100)"]) (simp_all add: shed_percent_def)
qed

lemma rune_count_append [simp]: "rune_count (s @ t) = rune_count s + rune_count t"
  and rune_count_nil [simp]: "rune_count [] = 0"
  and rune_count_le: "rune_count s \<le> length s"
  by (simp_all add: rune_count_def)

lemma rune_count_blanks [simp]: "rune_count (replicate n CHR '' '') = n"
  by (induction n) (simp_all add: rune_count_def)

lemma pad_width:
  "rune_count w \<le> n \<Longrightarrow> rune_count (pad_left n w) = n"
  "rune_count w \<le> n \<Longrightarrow> rune_count (pad_right n w) = n"
  by (simp_all add: pad_left_def pad_right_def)

lemma row_line_width:
  "rune_count (row_line (w # ws)) = rune_count w + sum_list (List.map (\<lambda>v. 1 + rune_count v) ws)"
proof -
  have b: "rune_count (CHR '' '' # s) = 1 + rune_count s" for s by (simp add: rune_count_def)
  show ?thesis by (induction ws arbitrary: w) (simp_all add: row_line_def b)
qed

text \<open>What the columns have room for.\<close>

definition fits_table :: "string \<times> sim_result \<Rightarrow> bool" where
  "fits_table x = (case x of (nm, r) \<Rightarrow>
     rune_count nm \<le> 22 \<and> list_all (\<lambda>n. 0 \<le> n \<and> n < 10 ^ 7) [r_sent r, r_served r, r_shed r]
     \<and> r_shed r \<le> r_sent r \<and> list_all (\<lambda>d. 0 \<le> d \<and> d < 60 * second) [r_p50 r, r_p95 r, r_p99 r])"

lemma row_width:
  assumes "fits_table x"
  shows "rune_count (row_line (row_cells x)) = 82"
proof -
  obtain nm r where x: "x = (nm, r)" by fastforce
  have f: "rune_count nm \<le> 22" "list_all (\<lambda>n. 0 \<le> n \<and> n < 10 ^ 7) [r_sent r, r_served r, r_shed r]"
    "r_shed r \<le> r_sent r" "list_all (\<lambda>d. 0 \<le> d \<and> d < 60 * second) [r_p50 r, r_p95 r, r_p99 r]"
    using assms by (simp_all add: fits_table_def x)
  have n: "rune_count (pad_left 7 (show_int n)) = 7" if "0 \<le> n" "n < 10 ^ 7" for n
    using order_trans [OF rune_count_le show_count_width [OF that]] by (rule pad_width)
  have d: "rune_count (pad_left 8 (show_duration (round_ms d))) = 8" if "0 \<le> d" "d < 60 * second" for d
    using order_trans [OF rune_count_le show_round_ms_width [OF that]] by (rule pad_width)
  have "r_sent r \<le> 2 ^ 53" "0 \<le> r_shed r" using f(2) by simp_all
  then obtain q where q: "shed_percent r = Fin q" "0 \<le> q" "q \<le> 100"
    using shed_percent_range f(3) by metis
  have "rune_count (show_tenths (Fin q)) \<le> 7"
    using order_trans [OF rune_count_le show_percent_width [OF q(2,3)]] by simp
  then have p: "rune_count (pad_left 7 (show_tenths (shed_percent r))) = 7" unfolding q(1) by (rule pad_width)
  have c: "rune_count ''%'' = 1" by (simp add: rune_count_def)
  show ?thesis
    using f(2,4) unfolding x row_cells_def prod.case list.simps append.simps row_line_width
    by (simp add: n d p c pad_width(2) [OF f(1)])
qed

lemma header_width: "rune_count (row_line header_cells) = 82"
proof -
  have "rune_count ''strategy'' \<le> 22" "rune_count ''sent'' \<le> 7" "rune_count ''served'' \<le> 7" "rune_count ''shed'' \<le> 7"
    "rune_count ''shed%'' \<le> 8" "rune_count ''p50'' \<le> 8" "rune_count ''p95'' \<le> 8" "rune_count ''p99'' \<le> 8"
    by (simp_all add: rune_count_def)
  then show ?thesis by (simp add: header_cells_def row_line_width pad_width)
qed

text \<open>
  Every line of the table is 82 columns wide, the header's included, as long as the names
  have at most 22 runes, the counts are below ten million, no more requests were shed than
  sent, and the latencies are under a minute, after rounding too.
\<close>

theorem format_table_aligned:
  assumes "list_all (\<lambda>x. is_field (fst x)) rs" "list_all fits_table rs"
  shows "List.map rune_count (split_on (CHR 0x0A) (format_table rs)) = replicate (length rs + 1) 82 @ [0]"
proof -
  have "List.map (\<lambda>x. rune_count (row_line (row_cells x))) rs = replicate (length rs) 82"
    using assms(2) by (induction rs) (simp_all add: row_width)
  then show ?thesis by (simp add: table_lines [OF assms(1)] header_width comp_def)
qed

theorem format_table_aligned_witness:
  "List.map rune_count (split_on (CHR 0x0A) (format_table
      [(''queue-codel'', \<lparr>r_sent = 1600, r_served = 402, r_shed = 1198, r_other = 0,
          r_p50 = 21123456, r_p95 = 119900000, r_p99 = 59999600000, r_wall = 2100000000\<rparr>)])) = [82, 82, 0]"
  using format_table_aligned [of "[(''queue-codel'', \<lparr>r_sent = 1600, r_served = 402, r_shed = 1198, r_other = 0,
          r_p50 = 21123456, r_p95 = 119900000, r_p99 = 59999600000, r_wall = 2100000000\<rparr>)]"]
  by (simp add: fits_table_def is_field_def is_space_def rune_count_def)

lemma digit_chars:
  "digit_char 0 = CHR ''0''" "digit_char (Suc 0) = CHR ''1''" "digit_char 2 = CHR ''2''" "digit_char 5 = CHR ''5''"
  "digit_char 6 = CHR ''6''" "digit_char 8 = CHR ''8''"
  by code_simp+

lemma show_nat_eval:
  "n < 10 \<Longrightarrow> show_nat n = [digit_char n]" "10 \<le> n \<Longrightarrow> show_nat n = show_nat (n div 10) @ [digit_char (n mod 10)]"
  by (subst show_nat.simps, simp)+

lemma frac_digits_numeral:
  "frac_digits (numeral k) v pr acc = (let d = v mod 10; pr' = (pr \<or> d \<noteq> 0)
      in frac_digits (pred_numeral k) (v div 10) pr' (if pr' then digit_char d # acc else acc))"
  unfolding numeral_eq_Suc [of k] by (rule frac_digits.simps)

theorem format_table_reads_back_witness:
  "List.map str_fields (split_on (CHR 0x0A) (format_table
      [(''queue-codel'', \<lparr>r_sent = 1600, r_served = 800, r_shed = 800, r_other = 0,
          r_p50 = 21123456, r_p95 = 119900000, r_p99 = 1200000000, r_wall = 2100000000\<rparr>),
       (''gozero'', \<lparr>r_sent = 0, r_served = 0, r_shed = 0, r_other = 0, r_p50 = 0, r_p95 = 0, r_p99 = 0, r_wall = 0\<rparr>)]))
    = [[''strategy'', ''sent'', ''served'', ''shed'', ''shed%'', ''p50'', ''p95'', ''p99''],
       [''queue-codel'', ''1600'', ''800'', ''800'', ''50.0%'', ''21ms'', ''120ms'', ''1.2s''],
       [''gozero'', ''0'', ''0'', ''0'', ''0.0%'', ''0s'', ''0s'', ''0s''], []]"
proof -
  let ?r = "\<lparr>r_sent = 1600, r_served = 800, r_shed = 800, r_other = 0,
          r_p50 = 21123456, r_p95 = 119900000, r_p99 = 1200000000, r_wall = 2100000000\<rparr>"
  let ?z = "\<lparr>r_sent = 0, r_served = 0, r_shed = 0, r_other = 0, r_p50 = 0, r_p95 = 0, r_p99 = 0, r_wall = 0\<rparr>"
  have f: "row_fields (''queue-codel'', ?r) = [''queue-codel'', ''1600'', ''800'', ''800'', ''50.0%'', ''21ms'', ''120ms'', ''1.2s'']"
  proof -
    have half: "rnd (1/2) = Fin (1/2)" by (intro rnd_repr less_trans [OF _ huge_big]) simp_all
    have "shed_rate ?r = Fin (1/2)" by (simp add: shed_rate_def fdiv_Fin f64_of_int_exact half)
    then have "shed_percent ?r = Fin 50" by (simp add: shed_percent_def)
    moreover have "show_tenths (Fin 50) = ''50.0''" using round_even_of_int [of 500]
      by (simp add: show_tenths_def show_nat_eval digit_chars)
    ultimately have p: "show_tenths (shed_percent ?r) = ''50.0''" by simp
    have rd: "round_ms 21123456 = 21000000" "round_ms 119900000 = 120000000" "round_ms 1200000000 = 1200000000"
      by (simp_all add: round_ms_def round_duration_def smod_nonneg i64_simps)
    have n: "show_nat 21 = ''21''" "show_nat 120 = ''120''" "frac_digits 3 1200 False [] = ''.2''"
      by (simp_all add: show_nat_eval digit_chars frac_digits_numeral)
    have d: "show_duration 21000000 = ''21ms''" "show_duration 120000000 = ''120ms''" "show_duration 1200000000 = ''1.2s''"
      using show_duration_ms [of 21] show_duration_ms [of 120] show_duration_s [of 1200] by (simp_all add: n show_nat_eval digit_chars)
    have i: "show_int 1600 = ''1600''" "show_int 800 = ''800''" by (simp_all add: show_int_def show_nat_eval digit_chars)
    show ?thesis by (simp add: row_fields_def p rd d i)
  qed
  have z: "row_fields (''gozero'', ?z) = [''gozero'', ''0'', ''0'', ''0'', ''0.0%'', ''0s'', ''0s'', ''0s'']"
  proof -
    have "shed_percent ?z = Fin 0" by (simp add: shed_percent_def shed_rate_def)
    moreover have "show_tenths (Fin 0) = ''0.0''" "show_int 0 = ''0''" "show_duration (round_ms 0) = ''0s''"
      using round_even_of_int [of 0]
      by (simp_all add: show_tenths_def show_int_def show_duration_def round_ms_def round_duration_def smod_nonneg
        show_nat_eval digit_chars)
    ultimately show ?thesis by (simp add: row_fields_def)
  qed
  show ?thesis
    using format_table_reads_back [of "[(''queue-codel'', ?r), (''gozero'', ?z)]"]
    by (simp add: f z header_fields_def is_field_def is_space_def is_i64_def)
qed

end
