(* ===== verification/Command.thy ===== *)
theory Command
  imports Strategies SimTable "HOL-Library.Monad_Syntax"
begin

text \<open>
  The command (cmd/simulate/main.go): the six strategies it measures, with the configurations
  it gives them, and what it prints. What happens while a strategy is measured is a
  \<open>world\<close>: the steps its shedder takes, the decision on each request, the latencies, the order
  in which the requests complete and the clock; for the pools also the steps between the
  deferred \<open>Stop\<close> and its return.
\<close>

subsection \<open>Measuring a strategy\<close>

record ('ev, 'd) world =
  w_events :: "'ev list"
  w_decision :: "nat \<Rightarrow> 'd"
  w_latency :: "nat \<Rightarrow> duration"
  w_order :: "nat list"
  w_start :: time
  w_ticks :: "time list"
  w_end :: time
  w_closing :: "'ev list"

text \<open>\<open>simulate.Run\<close> with the middleware of the strategy around the synthetic backend.\<close>

definition sim_named ::
  "string \<Rightarrow> ('d \<Rightarrow> unit handler_run \<Rightarrow> http_call list) \<Rightarrow> ('ev, 'd) world \<Rightarrow> scenario \<Rightarrow> (string \<times> sim_result) option" where
  "sim_named nm answer w sc =
     map_option (Pair nm) (sim_run sc (w_start w) (w_ticks w)
       (List.map (\<lambda>i. (recorder_code (answer (w_decision w i) (sim_backend sc)), w_latency w i)) (w_order w)) (w_end w))"

type_synonym 'env pool_world = "('env pool_event, submit_error option) world"
type_synonym 'env codel_world = "('env codel_event, submit_error option) world"

definition measure_queue ::
  "string \<Rightarrow> 'g config \<Rightarrow> ('env, 'g + cpu_gate, 't) gate_ops \<Rightarrow> 'env pool_world \<Rightarrow> scenario
    \<Rightarrow> ((string \<times> sim_result) \<times> ('g + cpu_gate, 't) pool) option" where
  "measure_queue nm cfg G w sc = do {
     p \<leftarrow> run_events G (w_events w) (new_pool cfg);
     r \<leftarrow> sim_named nm (\<lambda>d h. fst (pool_handler d h)) w sc;
     q \<leftarrow> run_events G (EvStop # w_closing w @ [EvStopped]) p;
     Some (r, q)
   }"

definition measure_codel ::
  "string \<Rightarrow> 'g codel_config \<Rightarrow> time \<Rightarrow> ('env, 'g + cpu_gate, 't) gate_ops \<Rightarrow> 'env codel_world \<Rightarrow> scenario
    \<Rightarrow> ((string \<times> sim_result) \<times> ('g + cpu_gate, 't) codel) option" where
  "measure_codel nm cfg c0 G w sc = do {
     p \<leftarrow> run_codel G (w_events w) (new_codel cfg c0);
     r \<leftarrow> sim_named nm (\<lambda>d h. fst (codel_handler d h)) w sc;
     q \<leftarrow> run_codel G (CStop # w_closing w @ [CStopped]) p;
     Some (r, q)
   }"

subsection \<open>The strategies\<close>

definition main_scenario :: scenario where
  "main_scenario = \<lparr>sc_duration = 2 * second, sc_rps = 800, sc_service = 20 * millisecond\<rparr>"

definition queue_length_config :: "'g config" where
  "queue_length_config = \<lparr>Workers = 4, QueueCapacity = 16, MaxWait = 0, CpuThreshold = 0, Gate = None\<rparr>"

definition queue_timeout_config :: "'g config" where
  "queue_timeout_config =
     \<lparr>Workers = 4, QueueCapacity = 16, MaxWait = 50 * millisecond, CpuThreshold = 0, Gate = None\<rparr>"

definition queue_codel_config :: "bool \<Rightarrow> 'g codel_config" where
  "queue_codel_config lifo = \<lparr>CWorkers = 4, Capacity = 10000, Target = 5 * millisecond,
     Interval = 100 * millisecond, AdaptiveLIFO = lifo, CCpuThreshold = 0, CGate = None\<rparr>"

definition run_queue_length ::
  "('env, 'g + cpu_gate, 't) gate_ops \<Rightarrow> 'env pool_world \<Rightarrow> scenario
    \<Rightarrow> ((string \<times> sim_result) \<times> ('g + cpu_gate, 't) pool) option" where
  "run_queue_length G w sc = measure_queue ''queue-length'' queue_length_config G w sc"

definition run_queue_timeout ::
  "('env, 'g + cpu_gate, 't) gate_ops \<Rightarrow> 'env pool_world \<Rightarrow> scenario
    \<Rightarrow> ((string \<times> sim_result) \<times> ('g + cpu_gate, 't) pool) option" where
  "run_queue_timeout G w sc = measure_queue ''queue-timeout'' queue_timeout_config G w sc"

definition run_queue_codel ::
  "bool \<Rightarrow> time \<Rightarrow> ('env, 'g + cpu_gate, 't) gate_ops \<Rightarrow> 'env codel_world \<Rightarrow> scenario
    \<Rightarrow> ((string \<times> sim_result) \<times> ('g + cpu_gate, 't) codel) option" where
  "run_queue_codel lifo c0 G w sc =
     (let nm = (if lifo then ''queue-adaptive-lifo'' else ''queue-codel'')
      in measure_codel nm (queue_codel_config lifo) c0 G w sc)"

text \<open>
  go-zero's shedder is a parameter: its constructor \<open>mk\<close>, the option \<open>WithCpuThreshold\<close>,
  \<open>Allow\<close>, and the promise's \<open>Pass\<close> and \<open>Fail\<close>. A request goes through the middleware in
  three steps: \<open>Allow\<close>, after which a refused one has returned with 503; the downstream
  handler; and the deferred function, which calls the promise.
\<close>

datatype 'p gz_stage = GRefused | GServing 'p | GUnwinding 'p code_writer bool | GReturned 'p

record ('s, 'p) gozero_state =
  gr_shedder :: 's
  gr_stage :: "nat \<Rightarrow> 'p gz_stage option"   \<comment> \<open>where each request is, \<open>None\<close> before it comes\<close>
  gr_reports :: "(nat \<times> bool) multiset"     \<comment> \<open>calls of \<open>Pass\<close> (\<open>True\<close>) and \<open>Fail\<close>\<close>

datatype 'env gz_event = GAllow 'env nat | GServe nat | GDefer nat

text \<open>The calls the deferred function makes on the promise, by the code and by whether it recovers a panic.\<close>

definition gozero_deferred :: "code_writer \<Rightarrow> bool \<Rightarrow> bool list" where
  "gozero_deferred cw panicked =
     (if panicked then [False] else if StatusInternalServerError \<le> cw_code cw then [False] else [True])"

definition gozero_report ::
  "('p \<Rightarrow> 's \<Rightarrow> 's) \<Rightarrow> ('p \<Rightarrow> 's \<Rightarrow> 's) \<Rightarrow> nat \<times> 'p \<Rightarrow> bool \<Rightarrow> ('s, 'p) gozero_state \<Rightarrow> ('s, 'p) gozero_state" where
  "gozero_report ps fl x b st =
     st\<lparr>gr_shedder := (if b then ps (snd x) (gr_shedder st) else fl (snd x) (gr_shedder st)),
        gr_reports := add_mset (fst x, b) (gr_reports st)\<rparr>"

fun gozero_exec ::
  "('env \<Rightarrow> 's \<Rightarrow> 'p option \<times> 's) \<Rightarrow> ('p \<Rightarrow> 's \<Rightarrow> 's) \<Rightarrow> ('p \<Rightarrow> 's \<Rightarrow> 's) \<Rightarrow> unit handler_run \<Rightarrow> 'env gz_event
    \<Rightarrow> ('s, 'p) gozero_state \<Rightarrow> ('s, 'p) gozero_state option" where
  "gozero_exec al ps fl h (GAllow env i) st =
     (if gr_stage st i \<noteq> None then None
      else case gozero_allow al env (gr_shedder st) of
          (None, s) \<Rightarrow> Some (st\<lparr>gr_shedder := s, gr_stage := (gr_stage st)(i \<mapsto> GRefused)\<rparr>)
        | (Some tok, s) \<Rightarrow> Some (st\<lparr>gr_shedder := s, gr_stage := (gr_stage st)(i \<mapsto> GServing tok)\<rparr>))"
| "gozero_exec al ps fl h (GServe i) st =
     (case gr_stage st i of
        Some (GServing tok) \<Rightarrow>
          Some (st\<lparr>gr_stage := (gr_stage st)(i \<mapsto> GUnwinding tok (gz_serve h []) (panics h \<noteq> None))\<rparr>)
      | _ \<Rightarrow> None)"
| "gozero_exec al ps fl h (GDefer i) st =
     (case gr_stage st i of
        Some (GUnwinding tok cw panicked) \<Rightarrow>
          Some (fold (gozero_report ps fl (i, tok)) (gozero_deferred cw panicked)
            (st\<lparr>gr_stage := (gr_stage st)(i \<mapsto> GReturned tok)\<rparr>))
      | _ \<Rightarrow> None)"

definition run_gozero ::
  "('o list \<Rightarrow> 's) \<Rightarrow> (int \<Rightarrow> 'o) \<Rightarrow> ('env \<Rightarrow> 's \<Rightarrow> 'p option \<times> 's) \<Rightarrow> ('p \<Rightarrow> 's \<Rightarrow> 's) \<Rightarrow> ('p \<Rightarrow> 's \<Rightarrow> 's)
    \<Rightarrow> ('env gz_event, 'p option) world \<Rightarrow> scenario
    \<Rightarrow> ((string \<times> sim_result) \<times> ('s, 'p) gozero_state) option" where
  "run_gozero mk opt al ps fl w sc = do {
     st \<leftarrow> runs_to (gozero_exec al ps fl (sim_backend sc)) (w_events w)
       \<lparr>gr_shedder = gozero_new mk [opt 900], gr_stage = (\<lambda>_. None), gr_reports = {#}\<rparr>;
     r \<leftarrow> sim_named ''gozero'' (\<lambda>d h. fst (gozero_handler d h)) w sc;
     Some (r, st)
   }"

definition run_quarkus_row ::
  "(f64 \<Rightarrow> f64) \<Rightarrow> f64 \<Rightarrow> ('r quarkus_event, bool) world \<Rightarrow> scenario
    \<Rightarrow> ((string \<times> sim_result) \<times> 'r quarkus) option" where
  "run_quarkus_row lg jitter w sc = do {
     q \<leftarrow> run_quarkus lg (w_events w) (new_quarkus default_quarkus_config [] jitter);
     r \<leftarrow> sim_named ''quarkus'' (\<lambda>d h. fst (q_handler d h)) w sc;
     Some (r, q)
   }"

subsection \<open>What it prints\<close>

text \<open>\<open>Duration.Seconds\<close> is a \<open>float64\<close>, which the command truncates.\<close>

definition duration_seconds :: "duration \<Rightarrow> f64" where
  "duration_seconds d = fadd (f64_of_int (d sdiv second)) (fdiv (f64_of_int (d smod second)) (Fin 1000000000))"

definition main_banner :: "scenario \<Rightarrow> string" where
  "main_banner sc = ''scenario: '' @ show_int (f64_to_i64 (duration_seconds (sc_duration sc))) @ ''s @ ''
     @ show_int (sc_rps sc) @ '' rps, service '' @ show_duration (sc_service sc) @ [CHR 0x0A, CHR 0x0A]"

definition command_main ::
  "('env, 'g + cpu_gate, 't) gate_ops \<Rightarrow> ('o list \<Rightarrow> 's) \<Rightarrow> (int \<Rightarrow> 'o) \<Rightarrow> ('e \<Rightarrow> 's \<Rightarrow> 'p option \<times> 's) \<Rightarrow> ('p \<Rightarrow> 's \<Rightarrow> 's) \<Rightarrow> ('p \<Rightarrow> 's \<Rightarrow> 's)
    \<Rightarrow> (f64 \<Rightarrow> f64) \<Rightarrow> f64 \<Rightarrow> 'env pool_world \<Rightarrow> 'env pool_world \<Rightarrow> time \<times> 'env codel_world \<Rightarrow> time \<times> 'env codel_world
    \<Rightarrow> ('e gz_event, 'p option) world \<Rightarrow> ('r quarkus_event, bool) world \<Rightarrow> string option" where
  "command_main G mk opt al ps fl lg jitter wl wt wc wa wg wq = do {
     let sc = main_scenario;
     r1 \<leftarrow> run_queue_length G wl sc;
     r2 \<leftarrow> run_queue_timeout G wt sc;
     r3 \<leftarrow> run_queue_codel False (fst wc) G (snd wc) sc;
     r4 \<leftarrow> run_queue_codel True (fst wa) G (snd wa) sc;
     r5 \<leftarrow> run_gozero mk opt al ps fl wg sc;
     r6 \<leftarrow> run_quarkus_row lg jitter wq sc;
     Some (main_banner sc @ format_table [fst r1, fst r2, fst r3, fst r4, fst r5, fst r6])
   }"

subsection \<open>The rows of the bounded pool\<close>

text \<open>Without a gate, a pool that nothing has stopped returns one error only.\<close>

definition queue_error :: "('g, 't) pool \<Rightarrow> submit_error" where
  "queue_error p = (if 0 < max_wait p then ErrQueueTimeout else ErrQueueFull)"

definition only_full :: "('g, 't) pool \<Rightarrow> bool" where
  "only_full p \<longleftrightarrow> gate p = None \<and> (closed p \<or> (\<forall>x \<in># results p. snd x \<in> {None, Some (queue_error p)}))"

lemma pool_exec_only_full: "only_full p \<Longrightarrow> pool_exec G ev p = Some q \<Longrightarrow> only_full q \<and> max_wait q = max_wait p"
  by (cases ev)
    (auto simp: only_full_def queue_error_def pool_defs Let_def
      split: if_split_asm list.splits option.splits prod.splits bool.splits)

lemma run_events_only_full:
  "only_full p \<Longrightarrow> run_events G evs p = Some q \<Longrightarrow> only_full q \<and> max_wait q = max_wait p"
proof (induction evs arbitrary: p)
  case (Cons ev evs)
  then obtain r where r: "pool_exec G ev p = Some r" "run_events G evs r = Some q" by (auto split: option.splits)
  with pool_exec_only_full [OF Cons.prems(1) r(1)] Cons.IH [of r] show ?case by simp
qed simp

text \<open>Every request of the simulation has its answer.\<close>

definition pool_answered :: "'env pool_world \<Rightarrow> ('g, 't) pool \<Rightarrow> bool" where
  "pool_answered w p \<longleftrightarrow> mset (w_order w) = submitted p
     \<and> (\<forall>i \<in># submitted p. submit_wait_returns i (w_decision w i) p)"

definition issued_all :: "('ev, 'd) world \<Rightarrow> scenario \<Rightarrow> bool" where
  "issued_all w sc \<longleftrightarrow> length (w_order w) = length (issued sc (w_start w) (w_ticks w))
     \<and> int (length (w_order w)) \<le> 2 ^ 53"

lemma run_events_append:
  "run_events G (xs @ ys) p = (case run_events G xs p of None \<Rightarrow> None | Some q \<Rightarrow> run_events G ys q)"
  by (simp only: run_events_runs_to runs_to_append)

lemma pool_stop_runs:
  fixes G :: "('env, 'g, 't) gate_ops"
  assumes "slots_inv p" "\<not> closed p" "counting p = {#}"
  shows "\<exists>(evs :: 'env pool_event list) q. run_events G (EvStop # evs @ [EvStopped]) p = Some q
    \<and> stop_returned q \<and> completed q = sent q \<and> sent p \<subseteq># completed q"
proof -
  have s: "\<not> stopping p" using assms(1,2) by (simp add: slots_inv_def)
  let ?p = "p\<lparr>stopping := True, closed := True, chan_closed := True\<rparr>"
  have c: "stop_close p = Some ?p" using s assms(3) by (simp add: stop_close_def)
  have "pool_exec G EvStop p = Some ?p" using c by simp
  then have i: "slots_inv ?p" using assms(1) by (rule pool_exec_slots [rotated])
  obtain evs :: "'env pool_event list" and q where q: "run_events G evs ?p = Some q" "exited q = n_workers q"
    "slots_inv q" "closed q" "sent ?p \<subseteq># sent q"
    using closed_runs_out [OF i, of G] by auto
  have "stop_wait q = Some (q\<lparr>stop_returned := True\<rparr>)" using q(2-4) by (simp add: stop_wait_def slots_inv_def)
  then have "run_events G (EvStop # evs @ [EvStopped]) p = Some (q\<lparr>stop_returned := True\<rparr>)"
    using c q(1) by (simp add: run_events_append)
  moreover have "sent q = completed q" using all_exited_drained(2) [OF q(3,2)] .
  ultimately show ?thesis using q(5) by (intro exI [of _ evs] exI [of _ "q\<lparr>stop_returned := True\<rparr>"]) (simp add: sent_def)
qed

lemma sim_named_measured:
  assumes "shedder answer refuses" "mset (w_order w) = M" "issued_all w sc"
  shows "\<exists>r. sim_named nm answer w sc = Some (nm, r) \<and> r_other r = 0
    \<and> r_shed r = int (size (filter_mset (\<lambda>i. refuses (w_decision w i)) M))
    \<and> r_served r = int (size (filter_mset (\<lambda>i. \<not> refuses (w_decision w i)) M))
    \<and> r_sent r = r_served r + r_shed r"
proof -
  have m: "mset (List.map (\<lambda>i. (recorder_code (answer (w_decision w i) (sim_backend sc)), w_latency w i)) (w_order w))
      = image_mset (\<lambda>i. (recorder_code (answer (w_decision w i) (sim_backend sc)), w_latency w i)) M"
    using assms(2) by (simp add: mset_map [symmetric])
  have s: "size M = length (issued sc (w_start w) (w_ticks w))" "int (size M) \<le> 2 ^ 53"
    using assms(2,3) by (auto simp: issued_all_def)
  from shedder.measured [OF assms(1), where dec = "w_decision w" and lat = "w_latency w", OF m s]
  show ?thesis by (auto simp: sim_named_def)
qed

lemma measure_queue_row:
  fixes G :: "('env, 'g + cpu_gate, 't) gate_ops"
  assumes "run_events G (w_events w) (new_pool cfg) = Some p" "\<not> closed p" "pool_answered w p" "issued_all w sc"
    and "Gate cfg = None" "CpuThreshold cfg = 0"
  shows "\<exists>closing r q. measure_queue nm cfg G (w\<lparr>w_closing := closing\<rparr>) sc = Some ((nm, r), q)
    \<and> r_served r = Accepted (pool_stats p) \<and> r_shed r = Rejected (pool_stats p) \<and> r_other r = 0
    \<and> r_sent r = r_served r + r_shed r \<and> stop_returned q \<and> sent p \<subseteq># completed q
    \<and> (\<forall>x \<in># results p. snd x \<in> {None, Some (if 0 < MaxWait cfg then ErrQueueTimeout else ErrQueueFull)})"
proof -
  note f = pool_run_facts [OF assms(1)]
  have ans: "mset (w_order w) = submitted p" "\<forall>i \<in># submitted p. submit_wait_returns i (w_decision w i) p"
    using assms(3) by (simp_all add: pool_answered_def)
  note a = pool_all_answered [OF f assms(2) ans(2)]
  have "only_full (new_pool cfg :: ('g + cpu_gate, 't) pool)"
    using assms(5,6) by (simp add: only_full_def new_pool_def gate_for_def Let_def)
  from run_events_only_full [OF this assms(1)] have e: "only_full p" "max_wait p = MaxWait cfg"
    by (simp_all add: new_pool_def Let_def)
  obtain r where r: "sim_named nm (\<lambda>d h. fst (pool_handler d h)) w sc = Some (nm, r)" "r_other r = 0"
    "r_shed r = rejected p" "r_served r = accepted p" "r_sent r = r_served r + r_shed r"
    using sim_named_measured [OF pool_shedder.shedder_axioms ans(1) assms(4), of nm] a by auto
  obtain evs :: "'env pool_event list" and q where q: "run_events G (EvStop # evs @ [EvStopped]) p = Some q"
    "stop_returned q" "sent p \<subseteq># completed q"
    using pool_stop_runs [OF f(1) assms(2), of G] a by blast
  have "measure_queue nm cfg G (w\<lparr>w_closing := evs\<rparr>) sc = Some ((nm, r), q)"
    using assms(1) r(1) q(1) by (simp add: measure_queue_def sim_named_def del: run_events.simps)
  then show ?thesis using r(2-) q(2,3) e assms(2)
    by (intro exI [of _ evs] exI [of _ r] exI [of _ q]) (simp add: pool_stats_def only_full_def queue_error_def)
qed

text \<open>
  The rows of the bounded pool: when every request of the simulation has been answered,
  \<open>runQueueLength\<close> and \<open>runQueueTimeout\<close> return, the deferred \<open>Stop\<close> included; the row counts as
  served what the pool accepted and as shed what it rejected, nothing as other, and the pool
  shed for one reason only, a full queue in the first and a wait of 50 ms in the second.
\<close>

theorem command_queue_rows:
  fixes G :: "('env, 'g + cpu_gate, 't) gate_ops"
  assumes "run_events G (w_events w) (new_pool (if waits then queue_timeout_config else queue_length_config)) = Some p"
    and "\<not> closed p" "pool_answered w p" "issued_all w sc"
  shows "\<exists>closing r q.
      (if waits then run_queue_timeout else run_queue_length) G (w\<lparr>w_closing := closing\<rparr>) sc
        = Some ((if waits then ''queue-timeout'' else ''queue-length'', r), q)
    \<and> r_served r = Accepted (pool_stats p) \<and> r_shed r = Rejected (pool_stats p) \<and> r_other r = 0
    \<and> r_sent r = r_served r + r_shed r \<and> stop_returned q \<and> sent p \<subseteq># completed q
    \<and> (\<forall>x \<in># results p. snd x \<in> {None, Some (if waits then ErrQueueTimeout else ErrQueueFull)})"
proof (cases waits)
  case True
  have g: "Gate (queue_timeout_config :: 'g config) = None" "CpuThreshold (queue_timeout_config :: 'g config) = 0"
    "0 < MaxWait (queue_timeout_config :: 'g config)"
    by (simp_all add: queue_timeout_config_def)
  show ?thesis
    using measure_queue_row [OF assms(1) [unfolded if_P [OF True]] assms(2-4) g(1,2), of "''queue-timeout''"] True g(3)
    by (simp add: run_queue_timeout_def)
next
  case False
  have g: "Gate (queue_length_config :: 'g config) = None" "CpuThreshold (queue_length_config :: 'g config) = 0"
    "\<not> 0 < MaxWait (queue_length_config :: 'g config)"
    by (simp_all add: queue_length_config_def)
  show ?thesis
    using measure_queue_row [OF assms(1) [unfolded if_not_P [OF False]] assms(2-4) g(1,2), of "''queue-length''"] False g(3)
    by (simp add: run_queue_length_def)
qed

definition one_request :: "(int \<times> int) pool_world" where
  "one_request = \<lparr>w_events = [EvSubmit (0, 0) 0, EvAcquire 0, EvEnter 0, EvCount 0, EvTake, EvBegin 0,
       EvEnd 0 (Ret True), EvRelease 0],
     w_decision = (\<lambda>_. None), w_latency = (\<lambda>_. 21 * millisecond), w_order = [0], w_start = 0,
     w_ticks = [1250000, 3 * second], w_end = 3 * second, w_closing = []\<rparr>"

lemma one_issued: "issued main_scenario 0 [1250000, 3000000000] = [1250000]"
  by (simp add: issued_def main_scenario_def time_defs)

theorem command_queue_rows_witness:
  "\<exists>closing r q. run_queue_length demo_ops (one_request\<lparr>w_closing := closing\<rparr>) main_scenario
      = Some ((''queue-length'', r), q) \<and> r_served r = 1 \<and> r_shed r = 0 \<and> stop_returned q"
proof -
  have "\<exists>p. run_events demo_ops (w_events one_request) (new_pool queue_length_config) = Some p \<and> \<not> closed p
      \<and> accepted p = 1 \<and> rejected p = 0 \<and> submitted p = {#0#} \<and> submit_wait_returns 0 None p"
    by (simp add: one_request_def queue_length_config_def demo_defs outcome_success_def submit_wait_returns_def)
  then obtain p where p: "run_events demo_ops (w_events one_request) (new_pool queue_length_config) = Some p"
    "\<not> closed p" "accepted p = 1" "rejected p = 0" "submitted p = {#0#}" "submit_wait_returns 0 None p" by blast
  have a: "pool_answered one_request p" "issued_all one_request main_scenario"
    using p(5,6) by (simp_all add: pool_answered_def issued_all_def one_request_def one_issued)
  from command_queue_rows [of demo_ops one_request False p main_scenario] p a show ?thesis
    by (auto simp: pool_stats_def)
qed

subsection \<open>The rows of the CoDel pool\<close>

text \<open>A pool without a gate whose buffer has room for all it was given refuses nothing.\<close>

definition roomy :: "('g, 't) codel \<Rightarrow> bool" where
  "roomy p \<longleftrightarrow> c_gate p = None
     \<and> (int (size (c_submitted p)) \<le> cap p \<and> \<not> c_closed p \<longrightarrow> (\<forall>x \<in># c_results p. snd x = None))"

lemma buffer_below_submitted:
  assumes "c_ids_inv p" "i \<in># waiting p"
  shows "length (buf p) < size (c_submitted p)"
proof -
  obtain W where "waiting p = add_mset i W" using assms(2) by (rule member_splitE)
  with assms(1) show ?thesis by (simp add: c_ids_inv_def c_admitted_def queued_ids_def)
qed

lemma codel_exec_roomy:
  assumes "c_ids_inv p" "roomy p" "codel_exec G ev p = Some q"
  shows "roomy q"
proof (cases ev)
  case (CEnqueue now i)
  with assms(3) have e: "codel_enqueue G now i p = Some q" by simp
  then have i: "i \<in># waiting p" by (auto simp: codel_enqueue_def split: if_split_asm)
  have "int (size (c_submitted p)) \<le> cap p \<Longrightarrow> \<not> cap p \<le> int (length (buf p))"
    using buffer_below_submitted [OF assms(1) i] by linarith
  then show ?thesis using e assms(2)
    by (auto simp: codel_enqueue_def not_empty_signal_def roomy_def c_returns_def c_call_done_def Let_def split: if_split_asm)
next
  case (CWorker now)
  with assms(3) have w: "codel_worker now p = Some q" by simp
  then have "c_gate q = c_gate p" by (cases rule: codel_worker_cases) (auto simp: not_empty_wait_def)
  with assms(2) show ?thesis by (simp add: roomy_def codel_worker_fixed [OF w])
next
  case (CSubmit e i)
  with assms(2,3) show ?thesis
    by (auto simp: codel_gate_def c_gate_allow_def roomy_def Let_def split: if_split_asm)
qed (use assms in \<open>auto simp: roomy_def codel_on_drop_def c_call_done_def codel_begin_def codel_end_def
    codel_stop_def codel_stop_wait_def not_empty_broadcast_def codel_set_gate_def split: if_split_asm\<close>)

lemma run_codel_roomy:
  "c_ids_inv p \<Longrightarrow> roomy p \<Longrightarrow> run_codel G evs p = Some q \<Longrightarrow> roomy q \<and> cap q = cap p"
proof (induction evs arbitrary: p)
  case (Cons ev evs)
  then obtain r where r: "codel_exec G ev p = Some r" "run_codel G evs r = Some q" by (auto split: option.splits)
  have "c_ids_inv r" using Cons.prems(1) r(1) by (rule codel_exec_ids)
  moreover have "roomy r" using Cons.prems(1,2) r(1) by (rule codel_exec_roomy)
  ultimately have "roomy q \<and> cap q = cap r" using r(2) by (rule Cons.IH)
  then show ?case using codel_exec_fixed [OF r(1)] by simp
qed simp

text \<open>
  The ticker: its ticks come no earlier than one interval after another, counted from its
  start. The rate of a scenario then bounds what it sends.
\<close>

definition ticker_paced :: "scenario \<Rightarrow> time \<Rightarrow> time list \<Rightarrow> bool" where
  "ticker_paced sc t0 ticks \<longleftrightarrow>
     (case sim_ticker sc of
        None \<Rightarrow> False
      | Some d \<Rightarrow> list_all (\<lambda>(k, t). t0 + int (Suc k) * d \<le> t) (List.enumerate 0 ticks))"

lemma issued_bound:
  assumes "ticker_paced sc t0 ticks" "0 \<le> sc_duration sc" "sim_ticker sc = Some d"
  shows "int (length (issued sc t0 ticks)) * d \<le> sc_duration sc"
proof (cases "length (issued sc t0 ticks)")
  case (Suc k)
  have "length (issued sc t0 ticks) \<le> length ticks" by (simp add: issued_def length_takeWhile_le)
  with Suc have k: "k < length (issued sc t0 ticks)" "k < length ticks" by simp_all
  have "issued sc t0 ticks ! k \<in> set (issued sc t0 ticks)" using k(1) by (rule nth_mem)
  then have "issued sc t0 ticks ! k \<le> t0 + sc_duration sc"
    by (auto simp: issued_def time_defs dest: set_takeWhileD)
  moreover have "issued sc t0 ticks ! k = ticks ! k"
    using k(1) by (simp add: issued_def takeWhile_nth)
  moreover have "t0 + int (Suc k) * d \<le> ticks ! k"
    using assms(1,3) k(2) by (auto simp: ticker_paced_def list_all_iff in_set_enumerate_eq)
  ultimately show ?thesis using Suc by simp
qed (use assms(2) in simp)


lemma main_ticker: "sim_ticker main_scenario = Some 1250000"
  by (simp add: sim_ticker_def go_div_def new_ticker_def guarded_rps_def main_scenario_def sdiv_nonneg)

lemma main_issued:
  assumes "ticker_paced main_scenario t0 ticks"
  shows "length (issued main_scenario t0 ticks) \<le> 1600"
proof -
  have d: "sc_duration main_scenario = 2000000000" by (simp add: main_scenario_def)
  from issued_bound [OF assms _ main_ticker] show ?thesis by (simp add: d)
qed

definition codel_answered :: "'env codel_world \<Rightarrow> ('g, 't) codel \<Rightarrow> bool" where
  "codel_answered w p \<longleftrightarrow> mset (w_order w) = c_submitted p
     \<and> (\<forall>i \<in># c_submitted p. codel_wait_returns i (w_decision w i) p)"

lemma codel_stop_runs:
  fixes G :: "('env, 'g, 't) gate_ops"
  assumes "c_slots_inv p" "c_ids_inv p" "\<not> c_closed p"
  shows "\<exists>(evs :: 'env codel_event list) q. run_codel G (CStop # evs @ [CStopped]) p = Some q
    \<and> c_stop_returned q \<and> served q + shed q = c_admitted p"
proof -
  let ?p = "not_empty_broadcast (p\<lparr>c_closed := True\<rparr>)"
  have c: "codel_exec G CStop p = Some ?p" using assms(3) by (simp add: codel_stop_def)
  have i: "c_slots_inv ?p" "c_ids_inv ?p"
    using codel_exec_slots [OF assms(1) c] codel_exec_ids [OF assms(2) c] .
  obtain evs :: "'env codel_event list" and q where q: "run_codel G evs ?p = Some q" "codel_stop_wait q \<noteq> None"
    "served q + shed q = c_admitted ?p"
    using i by (rule codel_runs_out [where G = G]) (simp add: not_empty_broadcast_def)
  have "run_codel G (CStop # evs @ [CStopped]) p = Some (q\<lparr>c_stop_returned := True\<rparr>)"
    using c q(1,2) by (simp add: run_codel_runs_to runs_to_append codel_stop_wait_def split: if_split_asm)
  then show ?thesis using q(3) by (intro exI [of _ evs] exI [of _ "q\<lparr>c_stop_returned := True\<rparr>"]) (simp add: c_admitted_def queued_ids_def not_empty_broadcast_def)
qed

lemma codel_row:
  fixes G :: "('env, 'g + cpu_gate, 't) gate_ops"
  assumes "run_codel G (w_events w) (new_codel (queue_codel_config lifo) c0) = Some p"
    and "\<not> c_closed p" "codel_answered w p" "issued_all w main_scenario"
    and "ticker_paced main_scenario (w_start w) (w_ticks w)"
  shows "\<exists>closing r q. run_queue_codel lifo c0 G (w\<lparr>w_closing := closing\<rparr>) main_scenario
        = Some ((if lifo then ''queue-adaptive-lifo'' else ''queue-codel'', r), q)
    \<and> r_sent r \<le> 1600 \<and> (\<forall>x \<in># c_results p. snd x = None)
    \<and> r_shed r = CDropped (codel_pool_stats p) \<and> r_served r = r_sent r - CDropped (codel_pool_stats p)
    \<and> r_other r = 0 \<and> c_stop_returned q \<and> size (served q) + size (shed q) = length (w_order w)"
proof -
  note f = codel_run_facts [OF assms(1)]
  have ans: "mset (w_order w) = c_submitted p" "\<forall>i \<in># c_submitted p. codel_wait_returns i (w_decision w i) p"
    using assms(3) by (simp_all add: codel_answered_def)
  note a = codel_all_answered [OF f assms(2) ans(2)]
  have n: "length (w_order w) \<le> 1600" using main_issued [OF assms(5)] assms(4) by (simp add: issued_all_def)
  let ?n = "new_codel (queue_codel_config lifo) c0 :: ('g + cpu_gate, 't) codel"
  have "codel_inv ?n" by (rule new_codel_inv)
  then have start: "c_ids_inv ?n" by (simp add: codel_inv_def)
  have start2: "roomy ?n" "cap ?n = 10000"
    by (simp_all add: roomy_def new_codel_def queue_codel_config_def gate_for_def)
  have room: "roomy p \<and> cap p = 10000" using run_codel_roomy [OF start start2(1) assms(1)] start2(2) by simp
  have sz: "size (c_submitted p) = length (w_order w)" using ans(1) by (metis size_mset)
  have none: "\<forall>x \<in># c_results p. snd x = None" using room assms(2) sz n by (simp add: roomy_def)
  then have R: "c_result_ids P p = {#}" if "\<not> P None" for P
  proof -
    have "filter_mset (\<lambda>x. P (snd x)) (c_results p) = filter_mset (\<lambda>_. False) (c_results p)"
      using none that by (intro filter_mset_cong) auto
    then show ?thesis by (simp add: c_result_ids_def)
  qed
  have rej: "c_rejected p = 0" using f(2) R [of is_shed] by (simp add: c_ids_inv_def is_shed_def)
  let ?nm = "if lifo then ''queue-adaptive-lifo'' else ''queue-codel''"
  obtain r where r: "sim_named ?nm (\<lambda>d h. fst (codel_handler d h)) w main_scenario = Some (?nm, r)" "r_other r = 0"
    "r_shed r = c_dropped p" "r_served r = c_accepted p - c_dropped p" "r_sent r = r_served r + r_shed r"
    using sim_named_measured [OF codel_shedder.shedder_axioms ans(1) assms(4), of ?nm] a rej by auto
  have "r_sent r = int (length (issued main_scenario (w_start w) (w_ticks w)))"
    using r(1) by (auto simp: sim_named_def dest: sim_run_counts(1))
  then have sent: "r_sent r \<le> 1600" using main_issued [OF assms(5)] by simp
  obtain evs :: "'env codel_event list" and q where q: "run_codel G (CStop # evs @ [CStopped]) p = Some q"
    "c_stop_returned q" "served q + shed q = c_admitted p"
    using codel_stop_runs [OF f(1,2) assms(2), of G] by blast
  have adm: "c_admitted p = c_submitted p" using f(2) a R [of "\<lambda>r. r \<noteq> None"] by (simp add: c_ids_inv_def)
  have "run_queue_codel lifo c0 G (w\<lparr>w_closing := evs\<rparr>) main_scenario = Some ((?nm, r), q)"
    using assms(1) r(1) q(1)
    by (simp add: run_queue_codel_def measure_codel_def sim_named_def del: run_codel.simps)
  moreover have "size (served q) + size (shed q) = length (w_order w)" using q(3) adm sz by (metis size_union)
  ultimately show ?thesis using r(2-) sent none q(2)
    by (intro exI [of _ evs] exI [of _ r] exI [of _ q]) (simp add: codel_pool_stats_def)
qed


text \<open>Whatever has been submitted so far is answered in the end.\<close>

lemma codel_run_answers:
  fixes G :: "('env, 'g + cpu_gate, 't) gate_ops"
  assumes "run_codel G evs0 (new_codel cfg c0) = Some p" "\<not> c_closed p"
  shows "\<exists>(evs :: 'env codel_event list) err q. list_all codel_own evs \<and> run_codel G evs p = Some q \<and> \<not> c_closed q
    \<and> c_submitted q = c_submitted p \<and> (\<forall>i \<in># c_submitted q. codel_wait_returns i (err i) q)"
proof -
  have "c_slots_inv p \<and> c_ids_inv p \<and> \<not> c_closed p \<and> c_submitted p = c_submitted p"
    using codel_run_facts [OF assms(1)] assms(2) by simp
  from codel_answers.runs_dry [OF this, of G] obtain evs :: "'env codel_event list" and q where q: "list_all codel_own evs"
    "runs_to (codel_exec G) evs p = Some q" "c_ids_inv q" "\<not> c_closed q" "c_submitted q = c_submitted p" "unanswered q = {#}"
    by auto
  have "\<forall>i \<in># c_submitted q. codel_wait_returns i (SOME r. codel_wait_returns i r q) q"
    using none_unanswered [OF q(3,6)] by (auto intro: someI_ex)
  then show ?thesis using q(1,2,4,5) unfolding run_codel_runs_to
    by (intro exI [of _ evs] exI [of _ "\<lambda>i. SOME r. codel_wait_returns i r q"] exI [of _ q]) simp
qed

text \<open>
  C15. The rows of the CoDel pool in the command's scenario, for a ticker that ticks no earlier
  than its interval says: it sends at most 1600 requests, fewer than the 10000 places of the
  buffer, so the pool never refuses one. Every request that has reached the pool is answered by
  steps of the pool alone, and when all have been answered (which \<open>Run\<close> waits for) what the row
  counts as shed is exactly what the control law dropped, and the deferred \<open>Stop\<close> and with it
  \<open>runCodel\<close> can return.
\<close>

theorem command_codel_rows:
  fixes G :: "('env, 'g + cpu_gate, 't) gate_ops"
  assumes "run_codel G (w_events w) (new_codel (queue_codel_config lifo) c0) = Some p"
    and "\<not> c_closed p" "mset (w_order w) = c_submitted p" "issued_all w main_scenario"
    and "ticker_paced main_scenario (w_start w) (w_ticks w)"
  shows "(\<exists>evs err q. list_all codel_own evs \<and> run_codel G (w_events w @ evs) (new_codel (queue_codel_config lifo) c0) = Some q
        \<and> \<not> c_closed q \<and> codel_answered (w\<lparr>w_decision := err\<rparr>) q)
    \<and> (codel_answered w p \<longrightarrow>
        (\<exists>closing r q. run_queue_codel lifo c0 G (w\<lparr>w_closing := closing\<rparr>) main_scenario
            = Some ((if lifo then ''queue-adaptive-lifo'' else ''queue-codel'', r), q)
        \<and> r_sent r \<le> 1600 \<and> (\<forall>x \<in># c_results p. snd x = None)
        \<and> r_shed r = CDropped (codel_pool_stats p) \<and> r_served r = r_sent r - CDropped (codel_pool_stats p)
        \<and> r_other r = 0 \<and> c_stop_returned q \<and> size (served q) + size (shed q) = length (w_order w)))"
proof (intro conjI impI)
  obtain evs :: "'env codel_event list" and err q where q: "list_all codel_own evs" "run_codel G evs p = Some q"
    "\<not> c_closed q" "c_submitted q = c_submitted p" "\<forall>i \<in># c_submitted q. codel_wait_returns i (err i) q"
    using codel_run_answers [OF assms(1,2)] by blast
  then have "run_codel G (w_events w @ evs) (new_codel (queue_codel_config lifo) c0) = Some q"
    using assms(1) by (simp add: run_codel_runs_to runs_to_append)
  with q assms(3) show "\<exists>evs err q. list_all codel_own evs
      \<and> run_codel G (w_events w @ evs) (new_codel (queue_codel_config lifo) c0) = Some q
      \<and> \<not> c_closed q \<and> codel_answered (w\<lparr>w_decision := err\<rparr>) q"
    by (intro exI [of _ evs] exI [of _ err] exI [of _ q]) (simp add: codel_answered_def)
qed (rule codel_row [OF assms(1,2) _ assms(4,5)])

definition lull_world :: "(int \<times> int) codel_world" where
  "lull_world = \<lparr>w_events = lull_before @ lull_after, w_decision = sim_lull_errs, w_latency = (\<lambda>_. 21 * millisecond),
     w_order = [0, 1, 2], w_start = 0, w_ticks = [1000000000, 1001000000, 1190000000, 3000000000],
     w_end = 3 * second, w_closing = []\<rparr>"

theorem command_codel_rows_witness:
  "\<exists>closing r q. run_queue_codel False 0 demo_ops (lull_world\<lparr>w_closing := closing\<rparr>) main_scenario
      = Some ((''queue-codel'', r), q) \<and> r_sent r = 3 \<and> r_shed r = 1 \<and> r_served r = 2 \<and> c_stop_returned q"
proof -
  have "\<exists>p. run_codel demo_ops (w_events lull_world) (new_codel (queue_codel_config False) 0) = Some p \<and> \<not> c_closed p
      \<and> c_accepted p = 3 \<and> c_dropped p = 1
      \<and> c_submitted p = {#0, 1, 2#} \<and> (\<forall>i \<in># {#0, 1, 2#}. codel_wait_returns i (sim_lull_errs i) p)"
    by (simp add: lull_world_def queue_codel_config_def lull_before_def lull_after_def lull_defs outcome_success_def
        codel_wait_returns_def sim_lull_errs_def)
  then obtain p where p: "run_codel demo_ops (w_events lull_world) (new_codel (queue_codel_config False) 0) = Some p"
    "\<not> c_closed p" "c_accepted p = 3" "c_dropped p = 1" "c_submitted p = {#0, 1, 2#}"
    "\<forall>i \<in># {#0, 1, 2#}. codel_wait_returns i (sim_lull_errs i) p" by blast
  have i: "issued main_scenario 0 [1000000000, 1001000000, 1190000000, 3000000000] = [1000000000, 1001000000, 1190000000]"
    by (simp add: issued_def main_scenario_def time_defs)
  have a: "codel_answered lull_world p" "issued_all lull_world main_scenario"
    using p(5,6) by (simp_all add: codel_answered_def issued_all_def lull_world_def i)
  have t: "ticker_paced main_scenario (w_start lull_world) (w_ticks lull_world)"
    by (simp add: ticker_paced_def lull_world_def main_ticker)
  obtain closing r q where r: "run_queue_codel False 0 demo_ops (lull_world\<lparr>w_closing := closing\<rparr>) main_scenario
      = Some ((''queue-codel'', r), q)" "r_shed r = 1" "r_served r = r_sent r - 1" "c_stop_returned q"
    using command_codel_rows [OF p(1,2) _ a(2) t] a(1) p(3,4) by (auto simp: codel_pool_stats_def codel_answered_def)
  have "r_sent r = 3" using r(1)
    by (auto simp: run_queue_codel_def measure_codel_def sim_named_def lull_world_def i bind_eq_Some_conv
        dest!: sim_run_counts(1))
  with r show ?thesis by auto
qed

subsection \<open>The row of the go-zero shedder\<close>

text \<open>
  The middleware told of one request at a time: the deferred steps are those of
  \<open>gozero_handler\<close>, run to the end.
\<close>

lemma gozero_deferred_handler:
  "map_option (\<lambda>b. [b]) (snd (snd (gozero_handler (Some tok) h))) = Some (gozero_deferred (gz_serve h []) (panics h \<noteq> None))"
  by (cases "panics h") (simp_all add: gozero_handler_def gozero_deferred_def Let_def)

lemma gozero_report_frame [simp]:
  "gr_stage (gozero_report ps fl x b st) = gr_stage st"
  "gr_reports (gozero_report ps fl x b st) = add_mset (fst x, b) (gr_reports st)"
  by (simp_all add: gozero_report_def)

lemma gozero_reports_fold:
  "gr_stage (fold (gozero_report ps fl x) bs st) = gr_stage st"
  "gr_reports (fold (gozero_report ps fl x) bs st) = gr_reports st + image_mset (\<lambda>b. (fst x, b)) (mset bs)"
  by (induction bs arbitrary: st) simp_all

text \<open>
  What has been reported about a request is what the deferred function reports, once it has
  run, and nothing before.
\<close>

fun stage_reports :: "bool list \<Rightarrow> 'p gz_stage option \<Rightarrow> bool list" where
  "stage_reports bs (Some (GReturned tok)) = bs"
| "stage_reports bs _ = []"

definition gozero_inv :: "code_writer \<Rightarrow> bool \<Rightarrow> ('s, 'p) gozero_state \<Rightarrow> bool" where
  "gozero_inv cw pan st \<longleftrightarrow>
     (\<forall>i. image_mset snd (filter_mset (\<lambda>x. fst x = i) (gr_reports st))
        = mset (stage_reports (gozero_deferred cw pan) (gr_stage st i)))
     \<and> (\<forall>i tok v b. gr_stage st i = Some (GUnwinding tok v b) \<longrightarrow> v = cw \<and> b = pan)"

lemma filter_tagged:
  "image_mset snd (filter_mset (\<lambda>x. fst x = i) (image_mset (\<lambda>b. (k, b)) M)) = (if i = k then M else {#})"
  by (induction M) auto

lemma gozero_exec_inv:
  assumes "gozero_inv cw pan st" "gozero_exec al ps fl h ev st = Some st'"
    and "cw = gz_serve h []" "pan = (panics h \<noteq> None)"
  shows "gozero_inv cw pan st'"
proof -
  have rep: "image_mset snd (filter_mset (\<lambda>x. fst x = i) (gr_reports st))
      = mset (stage_reports (gozero_deferred cw pan) (gr_stage st i))" for i
    using assms(1) unfolding gozero_inv_def by blast
  have unw: "v = cw \<and> b = pan" if "gr_stage st i = Some (GUnwinding tok v b)" for i tok v b
    using assms(1) that unfolding gozero_inv_def by blast
  show ?thesis
  proof (cases ev)
    case (GAllow env i)
    obtain d s where d: "gozero_allow al env (gr_shedder st) = (d, s)" by fastforce
    define x where "x = (case d of None \<Rightarrow> GRefused | Some tok \<Rightarrow> GServing tok)"
    have "(x = GRefused \<or> (\<exists>tok. x = GServing tok)) \<and> gr_stage st i = None
        \<and> gr_stage st' = (gr_stage st)(i \<mapsto> x) \<and> gr_reports st' = gr_reports st"
      using assms(2) GAllow d by (cases d) (auto simp: x_def split: if_split_asm)
    with rep [of i] show ?thesis unfolding gozero_inv_def by (auto simp: rep dest: unw)
  next
    case (GServe i)
    then obtain tok where x: "gr_stage st i = Some (GServing tok)"
      "gr_stage st' = (gr_stage st)(i \<mapsto> GUnwinding tok cw pan)" "gr_reports st' = gr_reports st"
      using assms(2-4) by (auto split: option.splits gz_stage.splits)
    with rep [of i] show ?thesis unfolding gozero_inv_def by (auto simp: rep dest: unw)
  next
    case (GDefer i)
    with assms(2) obtain tok v b where s: "gr_stage st i = Some (GUnwinding tok v b)"
      "st' = fold (gozero_report ps fl (i, tok)) (gozero_deferred v b) (st\<lparr>gr_stage := (gr_stage st)(i \<mapsto> GReturned tok)\<rparr>)"
      by (auto split: option.splits gz_stage.splits)
    moreover have "v = cw" "b = pan" using unw [OF s(1)] by simp_all
    moreover have "image_mset snd (filter_mset (\<lambda>x. fst x = i) (gr_reports st)) = {#}" using rep [of i] s(1) by simp
    ultimately show ?thesis unfolding gozero_inv_def
      by (auto simp: gozero_reports_fold filter_tagged rep dest: unw)
  qed
qed

lemma gozero_runs_inv:
  "runs_to (gozero_exec al ps fl h) evs st = Some st' \<Longrightarrow> gozero_inv (gz_serve h []) (panics h \<noteq> None) st
    \<Longrightarrow> gozero_inv (gz_serve h []) (panics h \<noteq> None) st'"
proof (induction evs arbitrary: st)
  case (Cons ev evs)
  then obtain t where t: "gozero_exec al ps fl h ev st = Some t" "runs_to (gozero_exec al ps fl h) evs t = Some st'"
    by (auto split: option.splits)
  show ?case using gozero_exec_inv [OF Cons.prems(2) t(1) refl refl] by (rule Cons.IH [OF t(2)])
qed simp

text \<open>Every request has come and its \<open>ServeHTTP\<close> has returned; its decision is the one \<open>Allow\<close> took.\<close>

fun stage_decision :: "'p gz_stage option \<Rightarrow> 'p option option" where
  "stage_decision (Some GRefused) = Some None"
| "stage_decision (Some (GReturned tok)) = Some (Some tok)"
| "stage_decision _ = None"

definition gozero_answered :: "('env gz_event, 'p option) world \<Rightarrow> ('s, 'p) gozero_state \<Rightarrow> bool" where
  "gozero_answered w st \<longleftrightarrow> distinct (w_order w) \<and> dom (gr_stage st) = set (w_order w)
     \<and> (\<forall>i \<in> set (w_order w). stage_decision (gr_stage st i) = Some (w_decision w i))"

lemma tagged_count:
  "image_mset snd (filter_mset (\<lambda>x. fst x = i) (image_mset (\<lambda>i. (i, y)) M)) = replicate_mset (count M i) y"
  by (induction M) auto

lemma multiset_by_tag:
  "(\<And>i. image_mset snd (filter_mset (\<lambda>x. fst x = i) M) = image_mset snd (filter_mset (\<lambda>x. fst x = i) N)) \<Longrightarrow> M = N"
proof (rule multiset_eqI)
  fix x :: "'a \<times> 'b"
  assume eq: "\<And>i. image_mset snd (filter_mset (\<lambda>x. fst x = i) M) = image_mset snd (filter_mset (\<lambda>x. fst x = i) N)"
  have c: "count (image_mset snd (filter_mset (\<lambda>y. fst y = fst x) K)) (snd x) = count K x" for K :: "('a \<times> 'b) multiset"
    by (induction K) (auto simp: prod_eq_iff)
  show "count M x = count N x" using eq [of "fst x"] c [of M] c [of N] by metis
qed

text \<open>
  C16. The row of the go-zero shedder, whatever the shedder decides and however the requests
  interleave: once every request has returned, it counts as served the requests \<open>Allow\<close> let
  in, each of which has called \<open>Pass\<close> on its promise exactly once and never \<open>Fail\<close>, and as shed
  the others, which have reported nothing.
\<close>

theorem command_gozero_row:
  assumes "runs_to (gozero_exec al ps fl (sim_backend sc)) (w_events w)
      \<lparr>gr_shedder = gozero_new mk [opt 900], gr_stage = (\<lambda>_. None), gr_reports = {#}\<rparr> = Some st"
    and "gozero_answered w st" "issued_all w sc"
  shows "\<exists>r. run_gozero mk opt al ps fl w sc = Some ((''gozero'', r), st)
    \<and> r_served r = int (size (gr_reports st)) \<and> r_other r = 0 \<and> r_sent r = r_served r + r_shed r
    \<and> gr_reports st = image_mset (\<lambda>i. (i, True)) (filter_mset (\<lambda>i. w_decision w i \<noteq> None) (mset (w_order w)))"
proof -
  let ?h = "sim_backend sc :: unit handler_run"
  have inv: "gozero_inv (gz_serve ?h []) (panics ?h \<noteq> None) st"
    by (rule gozero_runs_inv [OF assms(1)]) (simp add: gozero_inv_def)
  have pass: "gozero_deferred (gz_serve ?h []) (panics ?h \<noteq> None) = [True]"
    by (simp add: gozero_deferred_def sim_backend_def gz_serve_eq serve_def new_code_writer_def cw_write_header_def)
  let ?A = "filter_mset (\<lambda>i. w_decision w i \<noteq> None) (mset (w_order w))"
  note ans = assms(2) [unfolded gozero_answered_def]
  have "image_mset snd (filter_mset (\<lambda>x. fst x = i) (gr_reports st))
      = image_mset snd (filter_mset (\<lambda>x. fst x = i) (image_mset (\<lambda>i. (i, True)) ?A))" for i
  proof -
    have "image_mset snd (filter_mset (\<lambda>x. fst x = i) (gr_reports st)) = mset (stage_reports [True] (gr_stage st i))"
      using inv unfolding pass gozero_inv_def by blast
    also have "\<dots> = replicate_mset (count ?A i) True"
    proof (cases "i \<in> set (w_order w)")
      case True
      then have "stage_decision (gr_stage st i) = Some (w_decision w i)" "count (mset (w_order w)) i = 1"
        using ans by (auto simp: distinct_count_atmost_1)
      then show ?thesis by (cases "gr_stage st i" rule: stage_decision.cases) (auto simp: eq_commute [of "Some _" "w_decision w i"])
    next
      case False
      then have "gr_stage st i = None" "count (mset (w_order w)) i = 0" using ans by auto
      then show ?thesis by simp
    qed
    also have "\<dots> = image_mset snd (filter_mset (\<lambda>x. fst x = i) (image_mset (\<lambda>i. (i, True)) ?A))"
      by (rule tagged_count [symmetric])
    finally show ?thesis .
  qed
  then have rep: "gr_reports st = image_mset (\<lambda>i. (i, True)) ?A" by (rule multiset_by_tag)
  obtain r where r: "sim_named ''gozero'' (\<lambda>d h. fst (gozero_handler d h)) w sc = Some (''gozero'', r)" "r_other r = 0"
    "r_served r = int (size ?A)" "r_sent r = r_served r + r_shed r"
    using sim_named_measured [OF gozero_shedder.shedder_axioms refl assms(3), of "''gozero''"] by blast
  have "size ?A = size (gr_reports st)" using rep by (metis size_image_mset)
  then show ?thesis using assms(1) r rep by (intro exI [of _ r]) (simp add: run_gozero_def)
qed

definition gozero_world :: "(unit gz_event, unit option) world" where
  "gozero_world = \<lparr>w_events = [GAllow () 0, GAllow () 1, GServe 0, GDefer 0],
     w_decision = (\<lambda>i. if i = 0 then Some () else None), w_latency = (\<lambda>_. 20 * millisecond), w_order = [1, 0],
     w_start = 0, w_ticks = [1250000, 2500000, 3000000000], w_end = 3 * second, w_closing = []\<rparr>"

theorem command_gozero_row_witness:
  "\<exists>r st. run_gozero (\<lambda>_. 1) id (\<lambda>_ n. (if 0 < n then Some () else None, n - 1 :: nat)) (\<lambda>_ n. n + 1) (\<lambda>_ n. n)
      gozero_world main_scenario = Some ((''gozero'', r), st) \<and> r_served r = 1 \<and> gr_reports st = {#(0, True)#}"
proof -
  let ?al = "\<lambda>_ n. (if 0 < n then Some () else None, n - 1 :: nat)"
  have "\<exists>st. runs_to (gozero_exec ?al (\<lambda>_ n. n + 1) (\<lambda>_ n. n) (sim_backend main_scenario)) (w_events gozero_world)
      \<lparr>gr_shedder = gozero_new (\<lambda>_. 1) [id (900 :: int)], gr_stage = (\<lambda>_. None), gr_reports = {#}\<rparr> = Some st
    \<and> gozero_answered gozero_world st \<and> gr_reports st = {#(0, True)#}"
    by (auto simp: gozero_world_def gozero_allow_def gozero_new_def gozero_deferred_def gozero_report_def gozero_answered_def
        sim_backend_def gz_serve_eq serve_def new_code_writer_def cw_write_header_def split: if_split_asm)
  then obtain st where st: "runs_to (gozero_exec ?al (\<lambda>_ n. n + 1) (\<lambda>_ n. n) (sim_backend main_scenario)) (w_events gozero_world)
      \<lparr>gr_shedder = gozero_new (\<lambda>_. 1) [id (900 :: int)], gr_stage = (\<lambda>_. None), gr_reports = {#}\<rparr> = Some st"
    "gozero_answered gozero_world st" "gr_reports st = {#(0, True)#}" by blast
  have i: "issued_all gozero_world main_scenario"
    by (simp add: issued_all_def gozero_world_def issued_def main_scenario_def time_defs)
  obtain r where "run_gozero (\<lambda>_. 1) id ?al (\<lambda>_ n. n + 1) (\<lambda>_ n. n) gozero_world main_scenario = Some ((''gozero'', r), st)"
    "r_served r = int (size (gr_reports st))"
    using command_gozero_row [where opt = id, OF st(1,2) i] by (elim exE conjE) (rule that)
  then show ?thesis using st(3) by (intro exI [of _ r] exI [of _ st]) simp
qed

subsection \<open>The row of the quarkus shedder\<close>

definition quarkus_answered :: "('r quarkus_event, bool) world \<Rightarrow> 'r quarkus \<Rightarrow> bool" where
  "quarkus_answered w q \<longleftrightarrow> mset (w_order w) = q_started q
     \<and> (\<forall>i \<in># q_started q. if w_decision w i then i \<in># q_finished q else i \<in># q_shed q)"

text \<open>
  The row of the quarkus shedder: when every request has been answered, it counts as served
  the requests that finished and as shed the ones the priorities shed, the detector counts none
  in flight any more, and its limit is still from 1 to the default maximum of 1000.
\<close>

theorem command_quarkus_row:
  assumes "run_quarkus lg (w_events w) (new_quarkus default_quarkus_config [] jitter) = Some q"
    and "quarkus_answered w q" "issued_all w sc"
  shows "\<exists>r. run_quarkus_row lg jitter w sc = Some ((''quarkus'', r), q)
    \<and> r_served r = int (size (q_finished q)) \<and> r_shed r = int (size (q_shed q)) \<and> r_other r = 0
    \<and> r_sent r = r_served r + r_shed r \<and> detector_requests (q_detector q) = 0
    \<and> 1 \<le> detector_limit (q_detector q) \<and> detector_limit (q_detector q) \<le> 1000"
proof -
  have inv: "quarkus_inv (cfg_max_limit default_quarkus_config) q"
    using run_quarkus_reach [OF assms(1)] by (rule default_quarkus.inv_reach)
  let ?W = "image_mset fst (q_loaded q) + q_passed q + image_mset fst (q_running q) + image_mset fst (q_leaving q)"
  have S: "q_started q = ?W + q_finished q + q_shed q"
    using inv by (simp add: quarkus_inv_def q_place_inv_def ac_simps)
  have U: "\<forall>i. count (q_started q) i \<le> 1" using inv unfolding quarkus_inv_def q_uniq_inv_def by blast
  have "\<forall>i \<in># q_started q. if \<not> w_decision w i then i \<in># q_shed q else i \<in># q_finished q"
    using assms(2) by (auto simp: quarkus_answered_def)
  then have v: "filter_mset (\<lambda>i. \<not> w_decision w i) (q_started q) = q_shed q"
    "filter_mset (\<lambda>i. \<not> \<not> w_decision w i) (q_started q) = q_finished q" "?W = {#}"
    using verdicts_partition [OF S U, of "\<lambda>i. \<not> w_decision w i"] by blast+
  have ord: "mset (w_order w) = q_started q" using assms(2) by (simp add: quarkus_answered_def)
  obtain r where r: "sim_named ''quarkus'' (\<lambda>d h. fst (q_handler d h)) w sc = Some (''quarkus'', r)" "r_other r = 0"
    "r_shed r = int (size (q_shed q))" "r_served r = int (size (q_finished q))" "r_sent r = r_served r + r_shed r"
    using sim_named_measured [OF quarkus_shedder.shedder_axioms ord assms(3), of "''quarkus''"]
    unfolding v(1,2) by blast
  have "q_running q = {#}" using v(3) by simp
  then have d: "detector_requests (q_detector q) = 0" "1 \<le> detector_limit (q_detector q)"
    "detector_limit (q_detector q) \<le> 1000"
    using inv by (simp_all add: quarkus_inv_def q_count_inv_def q_limit_inv_def detector_inv_def detector_limit_def
        detector_requests_def default_quarkus_config_def)
  show ?thesis using assms(1) r d by (intro exI [of _ r]) (simp add: run_quarkus_row_def)
qed

definition quarkus_world :: "(unit quarkus_event, bool) world" where
  "quarkus_world = \<lparr>w_events = [QLoad 0 (), QDecide (5000, Fin 1) (0, (), 0), QBegin 5 0, QLeave 25 (0, 5),
       QUpdate (Fin 0) (0, 20, 1)],
     w_decision = (\<lambda>_. True), w_latency = (\<lambda>_. 20 * millisecond), w_order = [0], w_start = 0,
     w_ticks = [1250000, 3000000000], w_end = 3 * second, w_closing = []\<rparr>"

theorem command_quarkus_row_witness:
  "\<exists>r q. run_quarkus_row lg_digits (Fin 0) quarkus_world main_scenario = Some ((''quarkus'', r), q) \<and> r_served r = 1"
proof -
  have "\<exists>q. run_quarkus lg_digits (w_events quarkus_world) (new_quarkus default_quarkus_config [] (Fin 0)) = Some q
      \<and> q_started q = {#0#} \<and> q_finished q = {#0#} \<and> q_shed q = {#}"
    by (simp add: quarkus_world_def quarkus_defs new_quarkus_def new_detector_def d_reset_jitter_def
        default_quarkus_config_def detector_requests_def detector_limit_def request_begin_def request_leave_def
        i64_idI time_sub_eq is_i64_def Let_def)
  then obtain q where q: "run_quarkus lg_digits (w_events quarkus_world) (new_quarkus default_quarkus_config [] (Fin 0)) = Some q"
    "q_started q = {#0#}" "q_finished q = {#0#}" by blast
  have a: "quarkus_answered quarkus_world q" "issued_all quarkus_world main_scenario"
    using q(2,3) by (simp_all add: quarkus_answered_def issued_all_def quarkus_world_def one_issued)
  from command_quarkus_row [OF q(1) a] q(3) show ?thesis by auto
qed

subsection \<open>What the command prints\<close>

lemma sim_named_name: "sim_named nm answer w sc = Some x \<Longrightarrow> fst x = nm"
  by (auto simp: sim_named_def)

lemma row_names:
  "run_queue_length G w sc = Some y \<Longrightarrow> fst (fst y) = ''queue-length''"
  "run_queue_timeout G w sc = Some y \<Longrightarrow> fst (fst y) = ''queue-timeout''"
  "run_queue_codel lifo c0 G v sc = Some z \<Longrightarrow> fst (fst z) = (if lifo then ''queue-adaptive-lifo'' else ''queue-codel'')"
  "run_gozero mk opt al ps fl u sc = Some g \<Longrightarrow> fst (fst g) = ''gozero''"
  "run_quarkus_row lg jitter x sc = Some k \<Longrightarrow> fst (fst k) = ''quarkus''"
  by (auto simp: run_queue_length_def run_queue_timeout_def measure_queue_def run_queue_codel_def measure_codel_def
      run_gozero_def run_quarkus_row_def bind_eq_Some_conv dest: sim_named_name)

lemma banner_eq: "main_banner main_scenario = ''scenario: 2s @ 800 rps, service 20ms'' @ [CHR 0x0A, CHR 0x0A]"
proof -
  have "duration_seconds (2 * second) = Fin 2"
    by (simp add: duration_seconds_def sdiv_nonneg smod_nonneg f64_of_int_exact)
  then have s: "f64_to_i64 (duration_seconds (2 * second)) = 2" using f64_to_i64_of_int [of 2] by (simp add: is_i64_def)
  have n: "show_int 2 = ''2''" "show_int 800 = ''800''" "show_nat 20 = ''20''"
    by (simp_all add: show_int_def show_nat_eval digit_chars)
  have d: "show_duration (20 * millisecond) = ''20ms''" using show_duration_ms [of 20] by (simp add: n)
  show ?thesis using s n d by (simp add: main_banner_def main_scenario_def)
qed

definition strategy_names :: "string list" where
  "strategy_names = [''queue-length'', ''queue-timeout'', ''queue-codel'', ''queue-adaptive-lifo'', ''gozero'', ''quarkus'']"

lemma strategy_fields: "list_all is_field strategy_names"
  by (simp add: strategy_names_def is_field_def is_space_def)

text \<open>
  What the command prints when the six measurements return: the scenario, an empty line,
  the table's header and one row for each strategy, in the order of the source and under its
  own name, each cut by blanks into its eight fields.
\<close>

theorem command_output:
  assumes "command_main G mk opt al ps fl lg jitter wl wt wc wa wg wq = Some out"
  shows "\<exists>rs. List.map fst rs = strategy_names
    \<and> List.map str_fields (split_on (CHR 0x0A) out)
      = [''scenario:'', ''2s'', ''@'', ''800'', ''rps,'', ''service'', ''20ms''] # [] # header_fields
        # List.map row_fields rs @ [[]]"
proof -
  obtain r1 r2 r3 r4 r5 r6 where r: "run_queue_length G wl main_scenario = Some r1"
    "run_queue_timeout G wt main_scenario = Some r2" "run_queue_codel False (fst wc) G (snd wc) main_scenario = Some r3"
    "run_queue_codel True (fst wa) G (snd wa) main_scenario = Some r4"
    "run_gozero mk opt al ps fl wg main_scenario = Some r5" "run_quarkus_row lg jitter wq main_scenario = Some r6"
    "out = main_banner main_scenario @ format_table [fst r1, fst r2, fst r3, fst r4, fst r5, fst r6]"
    using assms by (auto simp: command_main_def Let_def bind_eq_Some_conv)
  let ?rs = "[fst r1, fst r2, fst r3, fst r4, fst r5, fst r6]"
  have names: "List.map fst ?rs = strategy_names"
    using row_names(1) [OF r(1)] row_names(2) [OF r(2)] row_names(3) [OF r(3)] row_names(3) [OF r(4)]
      row_names(4) [OF r(5)] row_names(5) [OF r(6)]
    by (simp add: strategy_names_def)
  then have "list_all is_field (List.map fst ?rs)" using strategy_fields by simp
  then have f: "list_all (\<lambda>x. is_field (fst x)) ?rs" by (simp add: list_all_iff)
  let ?b = "''scenario: 2s @ 800 rps, service 20ms''"
  have nb: "CHR 0x0A \<notin> set ?b" by simp
  have "split_on (CHR 0x0A) out = ?b # [] # split_on (CHR 0x0A) (format_table ?rs)"
    unfolding r(7) banner_eq using split_on_cons [OF nb] split_on_cons [of "CHR 0x0A" "[]"] by simp
  moreover have "str_fields ?b = [''scenario:'', ''2s'', ''@'', ''800'', ''rps,'', ''service'', ''20ms'']"
    by (simp add: str_fields_def is_space_def)
  moreover have "List.map str_fields (split_on (CHR 0x0A) (format_table ?rs)) = header_fields # List.map row_fields ?rs @ [[]]"
    using f by (rule table_fields)
  ultimately show ?thesis using names by (intro exI [of _ ?rs]) (simp add: str_fields_nil)
qed


text \<open>A world in which no request is sent before the deadline.\<close>

definition quiet_world :: "'ev list \<Rightarrow> ('ev, 'd) world" where
  "quiet_world closing = \<lparr>w_events = [], w_decision = undefined, w_latency = (\<lambda>_. 0), w_order = [], w_start = 0,
     w_ticks = [3000000000], w_end = 3000000000, w_closing = closing\<rparr>"

lemma quiet_named: "sim_named nm answer (quiet_world closing) main_scenario \<noteq> None"
  by (simp add: sim_named_def quiet_world_def sim_run_def sim_ticker_def go_div_def new_ticker_def guarded_rps_def tally0_def percentile_def)

lemma quiet_pools:
  "run_events demo_ops (EvStop # [EvExit, EvExit, EvExit, EvExit] @ [EvStopped]) (new_pool queue_length_config) \<noteq> None"
  "run_events demo_ops (EvStop # [EvExit, EvExit, EvExit, EvExit] @ [EvStopped]) (new_pool queue_timeout_config) \<noteq> None"
  "run_codel demo_ops (CStop # [CWorker 0, CWorker 0, CWorker 0, CWorker 0] @ [CStopped]) (new_codel (queue_codel_config lifo) 0) \<noteq> None"
  by (simp_all add: queue_length_config_def queue_timeout_config_def queue_codel_config_def demo_defs lull_defs)

lemma quiet_events: "w_events (quiet_world closing) = []" "w_closing (quiet_world closing) = closing"
  by (simp_all add: quiet_world_def)

lemma quiet_rows:
  "run_queue_length demo_ops (quiet_world [EvExit, EvExit, EvExit, EvExit]) main_scenario \<noteq> None"
  "run_queue_timeout demo_ops (quiet_world [EvExit, EvExit, EvExit, EvExit]) main_scenario \<noteq> None"
  "run_queue_codel lifo 0 demo_ops (quiet_world [CWorker 0, CWorker 0, CWorker 0, CWorker 0]) main_scenario \<noteq> None"
  "run_gozero (\<lambda>_. ()) id (\<lambda>_ _. (Some (), ())) (\<lambda>_ _. ()) (\<lambda>_ _. ()) (quiet_world []) main_scenario \<noteq> None"
  "run_quarkus_row lg_digits (Fin 0) (quiet_world []) main_scenario \<noteq> None"
  using quiet_named quiet_pools
  by (auto simp: run_queue_length_def run_queue_timeout_def measure_queue_def run_queue_codel_def measure_codel_def
      run_gozero_def run_quarkus_row_def quiet_events bind_eq_None_conv simp del: run_events.simps(2) run_codel.simps(2))

theorem command_output_witness:
  "\<exists>out. command_main demo_ops (\<lambda>_. ()) id (\<lambda>_ _. (Some (), ())) (\<lambda>_ _. ()) (\<lambda>_ _. ()) lg_digits (Fin 0)
      (quiet_world [EvExit, EvExit, EvExit, EvExit]) (quiet_world [EvExit, EvExit, EvExit, EvExit])
      (0, quiet_world [CWorker 0, CWorker 0, CWorker 0, CWorker 0]) (0, quiet_world [CWorker 0, CWorker 0, CWorker 0, CWorker 0])
      (quiet_world [] :: (unit gz_event, unit option) world) (quiet_world [] :: (unit quarkus_event, bool) world) = Some out
    \<and> length (split_on (CHR 0x0A) out) = 10"
proof -
  let ?w = "quiet_world [EvExit, EvExit, EvExit, EvExit] :: (int \<times> int) pool_world"
  let ?c = "quiet_world [CWorker 0, CWorker 0, CWorker 0, CWorker 0] :: (int \<times> int) codel_world"
  let ?g = "quiet_world [] :: (unit gz_event, unit option) world"
  let ?q = "quiet_world [] :: (unit quarkus_event, bool) world"
  obtain r1 r2 r3 r4 r5 r6 where "run_queue_length demo_ops ?w main_scenario = Some r1"
    "run_queue_timeout demo_ops ?w main_scenario = Some r2" "run_queue_codel False 0 demo_ops ?c main_scenario = Some r3"
    "run_queue_codel True 0 demo_ops ?c main_scenario = Some r4"
    "run_gozero (\<lambda>_. ()) id (\<lambda>_ _. (Some (), ())) (\<lambda>_ _. ()) (\<lambda>_ _. ()) ?g main_scenario = Some r5"
    "run_quarkus_row lg_digits (Fin 0) ?q main_scenario = Some r6"
    using quiet_rows by (metis not_None_eq)
  then have "command_main demo_ops (\<lambda>_. ()) id (\<lambda>_ _. (Some (), ())) (\<lambda>_ _. ()) (\<lambda>_ _. ()) lg_digits (Fin 0)
      ?w ?w (0, ?c) (0, ?c) ?g ?q \<noteq> None"
    by (simp add: command_main_def del: not_None_eq)
  then obtain out where out: "command_main demo_ops (\<lambda>_. ()) id (\<lambda>_ _. (Some (), ())) (\<lambda>_ _. ()) (\<lambda>_ _. ()) lg_digits (Fin 0)
      ?w ?w (0, ?c) (0, ?c) ?g ?q = Some out" by blast
  obtain rs where rs: "List.map fst rs = strategy_names"
    "List.map str_fields (split_on (CHR 0x0A) out)
      = [''scenario:'', ''2s'', ''@'', ''800'', ''rps,'', ''service'', ''20ms''] # [] # header_fields
        # List.map row_fields rs @ [[]]"
    using command_output [OF out] by (elim exE conjE) (rule that)
  have "length (split_on (CHR 0x0A) out) = 4 + length rs" using arg_cong [OF rs(2), of length] by simp
  moreover have "length rs = 6" using arg_cong [OF rs(1), of length] by (simp add: strategy_names_def)
  ultimately show ?thesis using out by (intro exI [of _ out] conjI) simp_all
qed

end
