(* ===== verification/Overload.thy ===== *)
theory Overload
  imports CpuSampler Codel
begin

text \<open>
  The CPU path from the kernel's files to the client, as one: the machine of \<open>CpuMachine\<close>
  shows its files, the sampler reads them at every tick, the CPU gate reads the sampler, the
  pool asks the gate, and the middleware answers. A cgroup that uses all the CPU time it may
  makes it shed within 13 seconds, and an idle one makes it admit again within 34; the quota is
  none or one of whole CPUs, for which the readings are exact.
\<close>

subsection \<open>A machine over time\<close>

text \<open>
  The machine at the ticks of the sampler, and the usage between one tick and the next of the
  quota that was there at the start.
\<close>

fun path_ok :: "nat \<Rightarrow> machine \<Rightarrow> machine list \<Rightarrow> bool" where
  "path_ok n m [] \<longleftrightarrow> True"
| "path_ok n m (m' # ms) \<longleftrightarrow> machine_ok m' \<and> close_by n m m' \<and> path_ok n m' ms"

fun path_usage :: "machine \<Rightarrow> machine \<Rightarrow> machine list \<Rightarrow> nat list" where
  "path_usage m0 m [] = []"
| "path_usage m0 m (m' # ms) = spec_usage m0 m m' # path_usage m0 m' ms"

lemma path_readings:
  "tracks m0 m st \<Longrightarrow> machine_ok m0 \<Longrightarrow> whole_share m0 \<Longrightarrow> path_ok (cpu_count m0) m ms \<Longrightarrow>
     readings (List.map machine_sys ms) st = List.map int (path_usage m0 m ms)"
proof (induction ms arbitrary: m st)
  case (Cons m' ms)
  obtain u st' where u: "refresh_cpu (machine_sys m') st = Some (u, st')" "tracks m0 m' st'" "unat u = spec_usage m0 m m'"
    using tracked_refresh [OF Cons.prems(1,2), of m'] cpu_count_pos [OF Cons.prems(2)] Cons.prems(3,4) by auto
  with Cons.IH [OF u(2)] Cons.prems sint_reading [OF u(1)] show ?case by (simp del: of_nat_unat)
qed simp

lemma ticks_keep_sampling: "cpu_ticks_run syss s = Some s' \<Longrightarrow> sampling_on s \<Longrightarrow> sampling_on s'"
  by (induction syss arbitrary: s) (auto simp: cpu_tick_def split: option.splits)

text \<open>The smoothed value after the ticks, whatever reads it then.\<close>

lemma sampler_on_path:
  assumes "machine_ok m0" "whole_share m0" "path_ok (cpu_count m0) m0 ms"
  obtains s0 s where "start_cpu_sampler (machine_sys m0) new_sampler = Some s0"
    "cpu_ticks_run (List.map machine_sys ms) s0 = Some s"
    "usage_value s = fold (\<lambda>c p. smooth_usage p c) (List.map int (path_usage m0 m0 ms)) 0"
    "\<forall>sys. cpu_usage sys s = Some (usage_value s, s)"
proof -
  obtain u st where r: "refresh_cpu (machine_sys m0) cpu_state0 = Some (u, st)" "tracks m0 m0 st"
    using first_refresh [OF assms(1)] by blast
  define s0 where "s0 = new_sampler\<lparr>reader := st, sampling_on := True\<rparr>"
  have s0: "start_cpu_sampler (machine_sys m0) new_sampler = Some s0"
    using r(1) by (simp add: start_cpu_sampler_def s0_def) (simp add: new_sampler_def)
  have rd: "reader s0 = st" "usage_value s0 = 0" "sampling_on s0" by (simp_all add: s0_def new_sampler_def)
  obtain s where s: "cpu_ticks_run (List.map machine_sys ms) s0 = Some s"
    "usage_value s = fold (\<lambda>c p. smooth_usage p c) (readings (List.map machine_sys ms) (reader s0)) (usage_value s0)"
    using cpu_ticks_value by blast
  have "usage_value s = fold (\<lambda>c p. smooth_usage p c) (List.map int (path_usage m0 m0 ms)) 0"
    using s(2) path_readings [OF r(2) assms(1-3)] rd by simp
  moreover have "cpu_usage sys s = Some (usage_value s, s)" for sys
    using ticks_keep_sampling [OF s(1) rd(3)] by (simp add: cpu_usage_def)
  ultimately show thesis using that s0 s(1) by blast
qed

subsection \<open>Saturation and recovery\<close>

lemma path_usage_le: "u \<in> set (path_usage m0 m ms) \<Longrightarrow> u \<le> 1000"
  by (induction ms arbitrary: m) (auto simp: spec_usage_def)

lemma path_fold_range:
  assumes "path_usage m0 m ms = us @ vs"
  shows "0 \<le> fold (\<lambda>c p. smooth_usage p c) (List.map int us) 0 \<and> fold (\<lambda>c p. smooth_usage p c) (List.map int us) 0 \<le> 981"
proof -
  have "u \<le> 1000" if "u \<in> set us" for u using path_usage_le [of u m0 m ms] assms that by simp
  then have "\<forall>c \<in> set (List.map int us). 0 \<le> c \<and> c \<le> 1000" by auto
  then show ?thesis by (intro fold_ceiling) simp_all
qed

lemma idle_fold:
  assumes "0 \<le> p" "p \<le> 981"
  shows "(of_int (fold (\<lambda>c p. smooth_usage p c) (replicate n 0) p) :: rat) \<le> 981 * (19 / 20) ^ n + 1 / 50"
proof (induction n)
  case 0
  have "(of_int p :: rat) \<le> of_int 981" using assms by (simp only: of_int_le_iff)
  then show ?case by simp
next
  case (Suc n)
  let ?v = "fold (\<lambda>c p. smooth_usage p c) (replicate n 0) p"
  have v: "0 \<le> ?v" "?v \<le> 981" using fold_ceiling [of "replicate n 0" p] assms by auto
  have "fold (\<lambda>c p. smooth_usage p c) (replicate (Suc n) 0) p = smooth_usage ?v 0"
    by (simp only: replicate_append_same [symmetric] replicate_Suc fold_append) simp
  moreover have "of_int (smooth_usage ?v 0) \<le> 19/20 * of_int ?v + 1/20 * of_int 0 + (1/1000 :: rat)"
    using v by (intro smooth_usage_linear) simp_all
  moreover have "19/20 * of_int ?v + 1/20 * of_int 0 + (1/1000 :: rat) \<le> 981 * (19/20) ^ Suc n + 1/50"
    using Suc unfolding power_Suc by simp
  ultimately show ?case by simp
qed

lemma idle_value:
  assumes "0 \<le> p" "p \<le> 981" "136 \<le> n"
  shows "fold (\<lambda>c p. smooth_usage p c) (replicate n 0) p = 0"
proof -
  let ?v = "fold (\<lambda>c p. smooth_usage p c) (replicate n 0) p"
  have "(19 / 20 :: rat) ^ n \<le> (19 / 20) ^ 136" using assms(3) by (intro power_decreasing) simp_all
  also have "\<dots> < 98 / 98100" by (simp add: power_divide)
  finally have "(of_int ?v :: rat) < of_int 1" using idle_fold [OF assms(1,2), of n] by simp
  then have "?v < 1" by (simp only: of_int_less_iff)
  moreover have "0 \<le> ?v" using fold_ceiling [of "replicate n 0" p] assms by simp
  ultimately show ?thesis by simp
qed

subsection \<open>The gate of a pool that nobody switches\<close>

text \<open>
  The static CPU gate has no state but its switch: while nobody calls \<open>SetGateEnabled\<close>,
  the gate of a pool built from a threshold is the one \<open>gateFor\<close> chose.
\<close>

fun switches_gate :: "'env pool_event \<Rightarrow> bool" where
  "switches_gate (EvSetGate on) = True"
| "switches_gate _ = False"

fun c_switches_gate :: "'env codel_event \<Rightarrow> bool" where
  "c_switches_gate (CSetGate on) = True"
| "c_switches_gate _ = False"

lemma sum_ops_cpu [simp]:
  "g_allow (sum_ops G) e (Inr y) = (map_option Inr (fst (cpu_allow (snd e) y)), Inr y)"
  "g_done (sum_ops G) t b (Inr y) = Inr y"
  by (simp_all add: sum_ops_def Let_def cpu_allow_keeps noop_done_def split: sum.split)

lemma pool_keeps_cpu_gate:
  "gate p = Some (Inr y) \<Longrightarrow> \<not> switches_gate ev \<Longrightarrow> pool_exec (sum_ops G) ev p = Some q \<Longrightarrow> gate q = Some (Inr y)"
  by (cases ev)
    (auto simp: pool_defs Let_def split: if_split_asm list.splits option.splits prod.splits bool.splits)

lemma run_keeps_cpu_gate:
  "gate p = Some (Inr y) \<Longrightarrow> \<not> list_ex switches_gate evs \<Longrightarrow> run_events (sum_ops G) evs p = Some q
    \<Longrightarrow> gate q = Some (Inr y)"
  by (induction evs arbitrary: p) (auto split: option.splits intro: pool_keeps_cpu_gate)

lemma codel_worker_gate: "codel_worker now p = Some q \<Longrightarrow> c_gate q = c_gate p"
  by (auto simp: codel_worker_def codel_pick_def not_empty_wait_def split: if_split_asm list.splits option.splits prod.splits bool.splits)

lemma codel_keeps_cpu_gate:
  "c_gate p = Some (Inr y) \<Longrightarrow> \<not> c_switches_gate ev \<Longrightarrow> codel_exec (sum_ops G) ev p = Some q
    \<Longrightarrow> c_gate q = Some (Inr y)"
proof (cases ev)
  case (CWorker now)
  moreover assume "c_gate p = Some (Inr y)" "codel_exec (sum_ops G) ev p = Some q"
  ultimately show ?thesis using codel_worker_gate by fastforce
qed (auto simp: codel_submit_defs not_empty_defs codel_on_drop_def codel_begin_def codel_end_def codel_stop_def
    codel_stop_wait_def Let_def split: if_split_asm option.splits prod.splits bool.splits)

lemma run_codel_keeps_cpu_gate:
  "c_gate p = Some (Inr y) \<Longrightarrow> \<not> list_ex c_switches_gate evs \<Longrightarrow> run_codel (sum_ops G) evs p = Some q
    \<Longrightarrow> c_gate q = Some (Inr y)"
  by (induction evs arbitrary: p) (auto split: option.splits intro: codel_keeps_cpu_gate)

lemma cpu_gate_answers:
  "0 < th \<Longrightarrow> fst (cpu_allow u (new_cpu_threshold_gate th)) = (if th \<le> u then None else Some ())"
  by (simp add: cpu_allow_def new_cpu_threshold_gate_def)

text \<open>What such a pool answers to a submission, by the reading its gate gets.\<close>

lemma pool_gate_answers:
  assumes "gate p = Some (Inr (new_cpu_threshold_gate th))" "0 < th"
  shows "th \<le> u \<Longrightarrow> submit_gate (sum_ops G) (e, u) i p =
      returns i (Some ErrOverloaded) (p\<lparr>submitted := add_mset i (submitted p), rejected := rejected p + 1\<rparr>)"
    and "u < th \<Longrightarrow> submit_gate (sum_ops G) (e, u) i p =
      p\<lparr>submitted := add_mset i (submitted p), asking := add_mset i (asking p),
        tickets := (tickets p)(i := Some (Inr ()))\<rparr>"
  using assms by (cases p; simp add: submit_gate_def gate_allow_def cpu_gate_answers returns_def Let_def)+

lemma codel_gate_answers:
  assumes "c_gate p = Some (Inr (new_cpu_threshold_gate th))" "0 < th"
  shows "th \<le> u \<Longrightarrow> codel_gate (sum_ops G) (e, u) i p =
      c_returns i (Some ErrOverloaded) (p\<lparr>c_submitted := add_mset i (c_submitted p), c_rejected := c_rejected p + 1\<rparr>)"
    and "u < th \<Longrightarrow> codel_gate (sum_ops G) (e, u) i p =
      p\<lparr>c_submitted := add_mset i (c_submitted p), waiting := add_mset i (waiting p),
        c_tickets := (c_tickets p)(i := Some (Inr ()))\<rparr>"
  using assms by (cases p; simp add: codel_gate_def c_gate_allow_def cpu_gate_answers c_returns_def Let_def)+

subsection \<open>From the kernel's counters to the client\<close>

lemma new_pool_cpu_gate:
  "Gate cfg = None \<Longrightarrow> 0 < CpuThreshold cfg \<Longrightarrow> gate (new_pool cfg) = Some (Inr (new_cpu_threshold_gate (CpuThreshold cfg)))"
  by (simp add: new_pool_def gate_for_def Let_def)

lemma new_codel_cpu_gate:
  "CGate cfg = None \<Longrightarrow> 0 < CCpuThreshold cfg \<Longrightarrow>
     c_gate (new_codel cfg t0) = Some (Inr (new_cpu_threshold_gate (CCpuThreshold cfg)))"
  by (simp add: new_codel_def gate_for_def Let_def)

text \<open>
  C7. Overload reaches the client: on a machine whose kernel counters show the cgroup using for
  51 refresh intervals (under 13 seconds) all the CPU time it may, which is that of the whole
  machine or the share of it that a quota of whole CPUs leaves, whatever they showed before, the
  next
  request to either pool is refused at the gate when the threshold is 900 or lower and nobody
  has switched the gate off. The refusal takes no slot and no place in the buffer, it is counted
  as rejected, \<open>SubmitWait\<close> returns \<open>ErrOverloaded\<close>, and the middleware answers 503.
\<close>

theorem overload_reaches_client:
  assumes "machine_ok m0 \<and> whole_share m0" "path_ok (cpu_count m0) m0 ms" "path_usage m0 m0 ms = us @ replicate n 1000"
    and "12750 * millisecond \<le> int n * cpu_refresh_interval"
    and "Gate cfg = None" "0 < CpuThreshold cfg" "CpuThreshold cfg \<le> 900"
    and "run_events (sum_ops G) evs (new_pool cfg) = Some p" "\<not> list_ex switches_gate evs" "i \<notin># submitted p"
    and "CGate ccfg = None" "0 < CCpuThreshold ccfg" "CCpuThreshold ccfg \<le> 900"
    and "run_codel (sum_ops G) cevs (new_codel ccfg t0) = Some c" "\<not> list_ex c_switches_gate cevs" "j \<notin># c_submitted c"
  shows "\<exists>s0 s u q d. start_cpu_sampler (machine_sys m0) new_sampler = Some s0
    \<and> cpu_ticks_run (List.map machine_sys ms) s0 = Some s \<and> cpu_usage sys s = Some (u, s)
    \<and> pool_exec (sum_ops G) (EvSubmit (e, u) i) p = Some q
    \<and> sem q = sem p \<and> tasks q = tasks p \<and> rejected q = rejected p + 1
    \<and> submit_wait_returns i (Some ErrOverloaded) q
    \<and> codel_exec (sum_ops G) (CSubmit (e, u) j) c = Some d
    \<and> buf d = buf c \<and> c_rejected d = c_rejected c + 1
    \<and> codel_wait_returns j (Some ErrOverloaded) d
    \<and> pool_handler (Some ErrOverloaded) h = (shed_response, None)
    \<and> codel_handler (Some ErrOverloaded) h = (shed_response, None)"
proof -
  obtain s0 s where s: "start_cpu_sampler (machine_sys m0) new_sampler = Some s0"
    "cpu_ticks_run (List.map machine_sys ms) s0 = Some s"
    "usage_value s = fold (\<lambda>c p. smooth_usage p c) (List.map int (path_usage m0 m0 ms)) 0"
    "\<forall>sys. cpu_usage sys s = Some (usage_value s, s)"
    using sampler_on_path [OF conjunct1 [OF assms(1)] conjunct2 [OF assms(1)] assms(2)] by blast
  have "51 \<le> n" using assms(4) by (simp add: cpu_refresh_interval_def)
  then have u: "900 < usage_value s"
    using saturated_value [of "fold (\<lambda>c p. smooth_usage p c) (List.map int us) 0" n] path_fold_range [OF assms(3)]
    by (simp add: s(3) assms(3) map_replicate)
  let ?q = "submit_gate (sum_ops G) (e, usage_value s) i p"
  let ?d = "codel_gate (sum_ops G) (e, usage_value s) j c"
  have "gate p = Some (Inr (new_cpu_threshold_gate (CpuThreshold cfg)))"
    using run_keeps_cpu_gate [OF new_pool_cpu_gate] assms(5,6,8,9) by blast
  note q = pool_gate_answers(1) [OF this assms(6) order_trans [OF assms(7) less_imp_le [OF u]], of G e i]
  have "c_gate c = Some (Inr (new_cpu_threshold_gate (CCpuThreshold ccfg)))"
    using run_codel_keeps_cpu_gate [OF new_codel_cpu_gate] assms(11,12,14,15) by blast
  note d = codel_gate_answers(1) [OF this assms(12) order_trans [OF assms(13) less_imp_le [OF u]], of G e j]
  show ?thesis
    using s(1,2,4) assms(10,16)
    by (intro exI [of _ s0] exI [of _ s] exI [of _ "usage_value s"] exI [of _ ?q] exI [of _ ?d])
      (simp add: q d returns_def c_returns_def submit_wait_returns_def codel_wait_returns_def
        pool_handler_def codel_handler_def)
qed

text \<open>
  C8. And it passes: after 136 refresh intervals (34 seconds) in which the counters show the
  cgroup idle, however loaded the machine was before and with no quota or one of whole CPUs, the
  smoothed usage is 0, so that with any
  threshold both pools let the next request past the gate, as far as the semaphore and the lock.
\<close>

theorem overload_recovers:
  assumes "machine_ok m0 \<and> whole_share m0" "path_ok (cpu_count m0) m0 ms" "path_usage m0 m0 ms = us @ replicate n 0"
    and "34 * second \<le> int n * cpu_refresh_interval"
    and "Gate cfg = None" "0 < CpuThreshold cfg"
    and "run_events (sum_ops G) evs (new_pool cfg) = Some p" "\<not> list_ex switches_gate evs" "i \<notin># submitted p"
    and "CGate ccfg = None" "0 < CCpuThreshold ccfg"
    and "run_codel (sum_ops G) cevs (new_codel ccfg t0) = Some c" "\<not> list_ex c_switches_gate cevs" "j \<notin># c_submitted c"
  shows "\<exists>s0 s q d. start_cpu_sampler (machine_sys m0) new_sampler = Some s0
    \<and> cpu_ticks_run (List.map machine_sys ms) s0 = Some s \<and> cpu_usage sys s = Some (0, s)
    \<and> pool_exec (sum_ops G) (EvSubmit (e, 0) i) p = Some q
    \<and> asking q = add_mset i (asking p) \<and> results q = results p \<and> rejected q = rejected p
    \<and> codel_exec (sum_ops G) (CSubmit (e, 0) j) c = Some d
    \<and> waiting d = add_mset j (waiting c) \<and> c_results d = c_results c \<and> c_rejected d = c_rejected c"
proof -
  obtain s0 s where s: "start_cpu_sampler (machine_sys m0) new_sampler = Some s0"
    "cpu_ticks_run (List.map machine_sys ms) s0 = Some s"
    "usage_value s = fold (\<lambda>c p. smooth_usage p c) (List.map int (path_usage m0 m0 ms)) 0"
    "\<forall>sys. cpu_usage sys s = Some (usage_value s, s)"
    using sampler_on_path [OF conjunct1 [OF assms(1)] conjunct2 [OF assms(1)] assms(2)] by blast
  have "136 \<le> n" using assms(4) by (simp add: cpu_refresh_interval_def)
  then have u: "usage_value s = 0"
    using idle_value [of "fold (\<lambda>c p. smooth_usage p c) (List.map int us) 0" n] path_fold_range [OF assms(3)]
    by (simp add: s(3) assms(3) map_replicate)
  have "gate p = Some (Inr (new_cpu_threshold_gate (CpuThreshold cfg)))"
    using run_keeps_cpu_gate [OF new_pool_cpu_gate] assms(5,6,7,8) by blast
  note q = pool_gate_answers(2) [OF this assms(6,6), of G e i]
  have "c_gate c = Some (Inr (new_cpu_threshold_gate (CCpuThreshold ccfg)))"
    using run_codel_keeps_cpu_gate [OF new_codel_cpu_gate] assms(10,11,12,13) by blast
  note d = codel_gate_answers(2) [OF this assms(11,11), of G e j]
  show ?thesis using s(1,2) s(4) [unfolded u] assms(9,14) by (simp add: q d)
qed

text \<open>
  A machine with one CPU: \<open>b\<close> intervals in which the cgroup kept it busy, \<open>k\<close> in which
  it was idle.
\<close>

definition loaded :: "nat \<Rightarrow> nat \<Rightarrow> machine" where
  "loaded b k = \<lparr>m_cpus = [(0, 0)], m_usec = b * 250000, m_ticks = [b * 25, 0, 0, k * 25, 0, 0, 0], m_quota = None\<rparr>"

lemma loaded_ok: "b + k \<le> 1000 \<Longrightarrow> machine_ok (loaded b k)" "cpu_count (loaded b k) = 1" "whole_share (loaded b k)"
  "close_by 1 (loaded b k) (loaded (Suc b) k)" "spec_usage (loaded 0 0) (loaded b k) (loaded (Suc b) k) = 1000"
  "close_by 1 (loaded b k) (loaded b (Suc k))" "spec_usage (loaded 0 0) (loaded b k) (loaded b (Suc k)) = 0"
proof -
  have d: "(b * 250000 + 250000) * 1000 - b * 250000 * 1000 = 250000000"
    "(b * 25 + 25 + k * 25) * 10000000 - (b * 25 + k * 25) * 10000000 = 250000000"
    "(b * 25 + (k * 25 + 25)) * 10000000 - (b * 25 + k * 25) * 10000000 = 250000000" by simp_all
  have u: "spec_usage (loaded 0 0) m m' = min 1000 ((cgroup_ns m' - cgroup_ns m) * 1000 div (machine_ns m' - machine_ns m))" for m m'
    by (rule spec_usage_no_quota) (simp_all add: loaded_def cpu_count_def)
  show "b + k \<le> 1000 \<Longrightarrow> machine_ok (loaded b k)" by (simp add: machine_ok_def loaded_def range_ok_def)
  show "cpu_count (loaded b k) = 1" "whole_share (loaded b k)" by (simp_all add: cpu_count_def whole_share_def loaded_def)
  show "close_by 1 (loaded b k) (loaded (Suc b) k)" "spec_usage (loaded 0 0) (loaded b k) (loaded (Suc b) k) = 1000"
    "close_by 1 (loaded b k) (loaded b (Suc k))" "spec_usage (loaded 0 0) (loaded b k) (loaded b (Suc k)) = 0"
    using d by (simp_all add: close_by_def u) (simp_all add: loaded_def cgroup_ns_def machine_ns_def)
qed

lemma busy_path: "b + n \<le> 1000 \<Longrightarrow>
  path_ok 1 (loaded b 0) (List.map (\<lambda>i. loaded i 0) [Suc b..<Suc b + n])
  \<and> path_usage (loaded 0 0) (loaded b 0) (List.map (\<lambda>i. loaded i 0) [Suc b..<Suc b + n]) = replicate n 1000"
proof (induction n arbitrary: b)
  case (Suc n)
  have "[Suc b..<Suc b + Suc n] = Suc b # [Suc (Suc b)..<Suc (Suc b) + n]" by (simp add: upt_rec)
  with Suc.IH [of "Suc b"] Suc.prems show ?case by (simp add: loaded_ok del: One_nat_def)
qed simp

lemma idle_path: "b + k + n \<le> 1000 \<Longrightarrow>
  path_ok 1 (loaded b k) (List.map (loaded b) [Suc k..<Suc k + n])
  \<and> path_usage (loaded 0 0) (loaded b k) (List.map (loaded b) [Suc k..<Suc k + n]) = replicate n 0"
proof (induction n arbitrary: k)
  case (Suc n)
  have "[Suc k..<Suc k + Suc n] = Suc k # [Suc (Suc k)..<Suc (Suc k) + n]" by (simp add: upt_rec)
  with Suc.IH [of "Suc k"] Suc.prems show ?case by (simp add: loaded_ok del: One_nat_def)
qed simp

lemma path_append:
  "path_ok n m (xs @ ys) \<longleftrightarrow> path_ok n m xs \<and> path_ok n (last (m # xs)) ys"
  "path_usage m0 m (xs @ ys) = path_usage m0 m xs @ path_usage m0 (last (m # xs)) ys"
  by (induction xs arbitrary: m) auto

abbreviation rush :: "machine list" where "rush \<equiv> List.map (\<lambda>i. loaded i 0) [Suc 0..<Suc 0 + 60]"
abbreviation calm :: "machine list" where "calm \<equiv> List.map (loaded 60) [Suc 0..<Suc 0 + 136]"

lemma rush_calm: "path_ok 1 (loaded 0 0) rush" "path_usage (loaded 0 0) (loaded 0 0) rush = [] @ replicate 60 1000"
  "path_ok 1 (loaded 0 0) (rush @ calm)" "path_usage (loaded 0 0) (loaded 0 0) (rush @ calm) = replicate 60 1000 @ replicate 136 0"
proof -
  have l: "last (loaded 0 0 # rush) = loaded 60 0" by (simp add: last_map)
  show r: "path_ok 1 (loaded 0 0) rush" "path_usage (loaded 0 0) (loaded 0 0) rush = [] @ replicate 60 1000"
    using busy_path [of 0 60] by (simp_all only: append_Nil)
  show "path_ok 1 (loaded 0 0) (rush @ calm)" "path_usage (loaded 0 0) (loaded 0 0) (rush @ calm) = replicate 60 1000 @ replicate 136 0"
    using r idle_path [of 60 0 136] by (simp_all only: path_append l append_Nil)
qed

definition gated_cfg :: "cpu_gate config" where
  "gated_cfg = \<lparr>Workers = 2, QueueCapacity = 4, MaxWait = 0, CpuThreshold = 900, Gate = None\<rparr>"

definition gated_codel :: "cpu_gate codel_config" where
  "gated_codel = \<lparr>CWorkers = 2, Capacity = 4, Target = 0, Interval = 0, AdaptiveLIFO = True,
     CCpuThreshold = 900, CGate = None\<rparr>"

text \<open>Both pools with one request in the queue, admitted before the rush.\<close>

lemma gated_runs:
  "\<exists>p. run_events (sum_ops cpu_ops) [EvSubmit (0, 0) 0, EvAcquire 0, EvEnter 0] (new_pool gated_cfg) = Some p
    \<and> 1 \<notin># submitted p \<and> tasks p = [0]"
  "\<exists>c. run_codel (sum_ops cpu_ops) [CSubmit (0, 0) 0, CEnqueue 5 0] (new_codel gated_codel 0) = Some c
    \<and> 1 \<notin># c_submitted c \<and> List.map item_id (buf c) = [0]"
  by (simp_all add: gated_cfg_def gated_codel_def new_pool_def new_codel_def gate_for_def Let_def pool_defs
      codel_submit_defs cpu_gate_answers)

theorem overload_reaches_client_witness:
  "\<exists>s0 s u p q. start_cpu_sampler (machine_sys (loaded 0 0)) new_sampler = Some s0
    \<and> cpu_ticks_run (List.map machine_sys rush) s0 = Some s \<and> cpu_usage colon_sys s = Some (u, s)
    \<and> run_events (sum_ops cpu_ops) [EvSubmit (0, 0) 0, EvAcquire 0, EvEnter 0] (new_pool gated_cfg) = Some p
    \<and> pool_exec (sum_ops cpu_ops) (EvSubmit (0, u) 1) p = Some q \<and> tasks q = [0]
    \<and> submit_wait_returns 1 (Some ErrOverloaded) q"
proof -
  obtain p where p: "run_events (sum_ops cpu_ops) [EvSubmit (0, 0) 0, EvAcquire 0, EvEnter 0] (new_pool gated_cfg) = Some p"
    "1 \<notin># submitted p" "tasks p = [0]" using gated_runs(1) by blast
  obtain c where c: "run_codel (sum_ops cpu_ops) [CSubmit (0, 0) 0, CEnqueue 5 0] (new_codel gated_codel 0) = Some c"
    "1 \<notin># c_submitted c" using gated_runs(2) by blast
  have m: "machine_ok (loaded 0 0) \<and> whole_share (loaded 0 0)" "path_ok (cpu_count (loaded 0 0)) (loaded 0 0) rush"
    using loaded_ok(1) [of 0 0] rush_calm(1) by (simp_all add: loaded_ok(2,3))
  have t: "12750 * millisecond \<le> int 60 * cpu_refresh_interval" by (simp add: cpu_refresh_interval_def)
  have g: "Gate gated_cfg = None" "0 < CpuThreshold gated_cfg" "CpuThreshold gated_cfg \<le> 900"
    "CGate gated_codel = None" "0 < CCpuThreshold gated_codel" "CCpuThreshold gated_codel \<le> 900"
    by (simp_all add: gated_cfg_def gated_codel_def)
  have "\<not> list_ex switches_gate [EvSubmit (0, 0) 0, EvAcquire 0, EvEnter 0]"
    "\<not> list_ex c_switches_gate [CSubmit (0, 0) 0, CEnqueue 5 0]" by simp_all
  from overload_reaches_client [OF m rush_calm(2) t g(1-3) p(1) this(1) p(2) g(4-6) c(1) this(2) c(2), of colon_sys 0
      "\<lparr>calls = [], panics = None\<rparr> :: unit handler_run"]
    p(1,3) show ?thesis by (elim exE conjE) (intro exI conjI; simp?; assumption?)
qed

theorem overload_recovers_witness:
  "\<exists>s0 s p q. start_cpu_sampler (machine_sys (loaded 0 0)) new_sampler = Some s0
    \<and> cpu_ticks_run (List.map machine_sys (rush @ calm)) s0 = Some s \<and> cpu_usage colon_sys s = Some (0, s)
    \<and> run_events (sum_ops cpu_ops) [EvSubmit (0, 0) 0, EvAcquire 0, EvEnter 0] (new_pool gated_cfg) = Some p
    \<and> pool_exec (sum_ops cpu_ops) (EvSubmit (0, 0) 1) p = Some q \<and> 1 \<in># asking q"
proof -
  obtain p where p: "run_events (sum_ops cpu_ops) [EvSubmit (0, 0) 0, EvAcquire 0, EvEnter 0] (new_pool gated_cfg) = Some p"
    "1 \<notin># submitted p" using gated_runs(1) by blast
  obtain c where c: "run_codel (sum_ops cpu_ops) [CSubmit (0, 0) 0, CEnqueue 5 0] (new_codel gated_codel 0) = Some c"
    "1 \<notin># c_submitted c" using gated_runs(2) by blast
  have m: "machine_ok (loaded 0 0) \<and> whole_share (loaded 0 0)" "path_ok (cpu_count (loaded 0 0)) (loaded 0 0) (rush @ calm)"
    using loaded_ok(1) [of 0 0] rush_calm(3) by (simp_all only: loaded_ok(2,3))
  have t: "34 * second \<le> int 136 * cpu_refresh_interval" by (simp add: cpu_refresh_interval_def)
  have g: "Gate gated_cfg = None" "0 < CpuThreshold gated_cfg" "CGate gated_codel = None" "0 < CCpuThreshold gated_codel"
    by (simp_all add: gated_cfg_def gated_codel_def)
  have "\<not> list_ex switches_gate [EvSubmit (0, 0) 0, EvAcquire 0, EvEnter 0]"
    "\<not> list_ex c_switches_gate [CSubmit (0, 0) 0, CEnqueue 5 0]" by simp_all
  from overload_recovers [OF m rush_calm(4) t g(1,2) p(1) this(1) p(2) g(3,4) c(1) this(2) c(2), of colon_sys 0]
    p(1) show ?thesis by (metis add_mset_add_single union_iff multi_member_last)
qed

end
