(* ===== verification/Spec2Isabelle.thy ===== *)
theory Spec2Isabelle
  imports PoolSpec CodelSpec Windowed Lifo CpuSampler QuarkusShedder Gozero Sentinel
    Strategies SimTable Command Overload
begin

text \<open>
  A verification development for the load-shedding library, a Go module with several ways to
  refuse work before a service is overloaded. The paths below are relative to src/.

  \<^bold>\<open>The parts of the program.\<close>
  Package queue holds two worker pools: \<open>Pool\<close> (queue/pool.go), a bounded queue, and
  \<open>CodelPool\<close> (queue/codel.go), whose queue is governed by the CoDel law and which can serve
  the newest task first while it sheds. Both ask an admission gate first (queue/gate.go), the
  static one of which reads a CPU sampler (queue/cpu.go) over the cgroup files of Linux
  (queue/cpu_linux.go). Package concurrencylimits limits the requests in flight: four limit
  algorithms (vegas.go, gradient.go, gradient2.go, fixed.go) and one that batches samples for
  another (windowed.go) feed \<open>SimpleLimiter\<close> (limiter.go), which
  \<open>LifoBlockingLimiter\<close> (lifo.go) wraps with a backlog. Package quarkus combines a
  Vegas-like detector with priorities; gozero and sentinel adapt two libraries; simulate runs a
  load profile through any of them, and cmd/simulate runs six of them through one profile and
  prints a table. Each package has an HTTP middleware that answers 503.

  \<^bold>\<open>The theories.\<close>
  \<^item> Prelude: 64-bit integers as \<open>int\<close> with \<open>i64\<close> for the wrap-around, durations
    and times in nanoseconds, runs, reachable states, and the locales \<open>transition_system\<close>
    and \<open>draining\<close>, a component whose own steps run out (both pools, once
    stopped, and the blocking limiter).
  \<^item> F64: \<open>float64\<close> as rationals with infinities and NaN, rounded to nearest even by
    \<open>rne\<close>; the bounds and monotonicity of the operations, and the conversions to and
    from \<open>int64\<close>. The range of finite results is a hypothesis that the lemmas discharge
    (\<open>f64_bounds\<close>).
  \<^item> Http: responses as lists of calls on a \<open>ResponseWriter\<close>, \<open>codeWriter\<close>
    (queue/response_writer.go), and handlers that may panic.
  \<^item> Gate: the \<open>Gate\<close> interface as a record of its methods with the locale
    \<open>gate_contract\<close>, interpreted on the CPU gate here and on the go-zero gate in Gozero.
  \<^item> Pool: pool.go and runsafe.go. A state (record \<open>pool\<close>) for all goroutines that use the
    pool, one definition per statement that others can observe, and \<open>pool_step\<close>.
  \<^item> CodelLaw, Codel, CodelStop: \<open>shouldDrop\<close> alone; the pool around it in the style of
    Pool, with the condition variable \<open>notEmpty\<close> its workers sleep on (\<open>not_empty_wait\<close>,
    \<open>not_empty_signal\<close>, \<open>not_empty_broadcast\<close>: a sleeping worker takes no step before it
    is woken); and that its \<open>Stop\<close> returns and no wake-up is lost.
  \<^item> Executor, PoolSpec, CodelSpec: the abstract executor both pools promise to be, the locale
    \<open>executor_impl\<close> (every step shows an action of the executor or nothing) and its
    interpretation on the two pools. A run of the executor starts each accepted task once,
    within the bounds, and first in, first out where nothing is served newest first.
  \<^item> LimitSpec: the \<open>Limit\<close> interface as the locale \<open>rtt_limit\<close>, limit.go and
    fixed.go. Vegas, Gradient and Windowed: the algorithms, each an interpretation.
  \<^item> Limiter: limiter.go with every atomic operation a step, over any \<open>rtt_limit\<close>,
    and handler.go. Lifo: lifo.go over any limiter, every critical section a step.
  \<^item> GoText, CpuText, CpuLinux, CpuMachine, CpuSampler: the parts of strings, strconv, bufio
    and path that are used; the CPU list parser; the readers of both cgroup versions and
    \<open>refreshCpu\<close>; a cgroup v2 machine, with or without a quota, whose files the kernel
    shows; the sampler.
  \<^item> Overload: the path from the machine's counters through the reader, the sampler, the CPU gate
    and either pool to the response, as one.
  \<^item> Detector, Priority, QuarkusShedder: quarkus/detector.go and config.go, priority.go, and
    shedder.go with every atomic operation of \<open>Admit\<close> a step.
  \<^item> Gozero, Sentinel: gozero/gate.go and gozero.go, sentinel/shedder.go.
  \<^item> Simulate, SimTable: simulate/simulate.go, \<open>Run\<close> with its percentiles, and the table it
    is printed as, with the verbs of fmt and the printing and rounding of a \<open>Duration\<close>.
  \<^item> Strategies: the interface \<open>Shedder\<close> of the simulator as the locale \<open>shedder\<close>,
    interpreted on every middleware of the library, and a simulation of each pool against the
    pool's own counters.
  \<^item> Command: cmd/simulate/main.go: the configurations, the six measurements with the
    deferred \<open>Stop\<close>, and the output.

  \<^bold>\<open>What the lemmas show.\<close>
  For the pools: refinement of the executor, the gate callback exactly once, the budget, a send
  that never blocks or panics, order of service, and the termination of \<open>Stop\<close>. For the CoDel
  pool also that every caller gets its answer while the workers sleep and wake. For the CoDel
  law: a drop needs heads above target at every dequeue over at least an interval (the queue may
  have been empty in between, as \<open>codel_transient_drop\<close> shows), heads that stay above target
  over an interval are shed, and the next drop comes an interval or \<open>interval / sqrt count\<close>
  after the last. For the limit algorithms: the range of the limit for every sequence of
  samples, every value of the random numbers and every \<open>math.Log10\<close>, given options that leave
  the initial limit in the range (no algorithm clamps it), and what moves the limit.
  For the limiters: under every interleaving the number of admitted requests is bounded by the
  greatest limit and the count is exact; the backlog is served newest first, and every caller
  gets an answer. For the CPU reader: it returns on all contents of the files, reads back printed
  CPU lists, and computes the used share of what the quota of a cgroup allows it of its machine;
  and the range and the reaction of the smoothed value; a cgroup that uses all of that for 13
  seconds makes either pool answer 503, and one that is idle for 34 admits again. For quarkus: exact accounting, the
  maximum as a bound when \<open>Admit\<close> is not interleaved, monotonicity in the response time, and the
  order of shedding. For the simulator: its counts are those of the shedder it measures, it never
  panics, its table reads back and stays aligned, and the command returns and prints what it
  measured; in its scenario the CoDel pools shed by the control law alone.

  Some theorems record behaviour that the comments or docs deny: \<open>codel_transient_drop\<close>,
  \<open>gradient_exceeds_max\<close>, \<open>gradient2_max_ineffective\<close>,
  \<open>limiter_spurious_rejection\<close>, \<open>lifo_lost_wakeup\<close>,
  \<open>code_writer_swallows_status\<close>, \<open>machine_time_wraps\<close>, \<open>sampler_ceiling\<close>,
  \<open>sampler_fails_open\<close>, \<open>shed_at_the_ends\<close>, \<open>quarkus_overadmits\<close>,
  \<open>vegas_starts_above_max\<close>, \<open>gradient_starts_above_max\<close>, \<open>quarkus_starts_above_max\<close>
  and \<open>cpuset_reads_half\<close>.

  \<^bold>\<open>Modelling decisions and bounds.\<close>
  Goroutines interleave between the steps; a step is a critical section, an atomic operation or
  a channel operation, so that the memory model of Go gives no behaviour outside the model.
  Some steps join operations that one goroutine does in a row. In Pool a gate callback is one step
  with the counter next to it (\<open>submit_no_slot\<close>: \<open>done(false)\<close>, \<open>rejected.Add\<close> and the
  return; \<open>worker_end\<close>: \<open>done\<close> and \<open>active.Add(-1)\<close>), so no statement here is about a
  reading of \<open>Stats\<close> between the two. \<open>Acquire\<close> and \<open>finish\<close> of \<open>SimpleLimiter\<close>
  are taken apart into their atomic operations in Limiter, where the properties of the limiter
  alone are proved; the backlog of Lifo and one request through the middleware use them as one
  step (\<open>simple_acquire\<close>, \<open>simple_finish\<close>), which are runs of those operations
  (\<open>simple_acquire_steps\<close>, \<open>simple_finish_steps\<close>). A run of the simulator is computed from
  its ticks, after \<open>sim_ticker\<close> has divided by the rate and started the ticker, the two calls
  that can panic there.
  Clocks, random numbers, the environment of a gate and the results of third-party calls are
  inputs of the steps, so a theorem holds for all of them. Counters of requests, which count
  goroutines, are taken to stay below \<open>2^63\<close> (a step that would pass it is not taken in the
  limiters); counters of events are unbounded integers. Floating-point operations are rounded
  one by one: an architecture on which the compiler fuses a multiplication with an addition
  rounds \<open>startCpuSampler\<close> and the limits differently in the last place. Loops over data
  are structural recursion; the one loop over words that may not end, over a CPU range,
  is a \<open>partial_function\<close>, and \<open>cpu_refresh_returns\<close> states that a refresh ends. There is
  no fuel. \<open>math.Log10\<close> is a parameter with named facts (\<open>log10_like\<close>) where a theorem
  needs any. White space is ASCII white space, and one refresh of the CPU usage sees one view of
  the files. The names of the tasks are natural numbers, fresh for each call of
  \<open>Submit\<close>.

  \<^bold>\<open>Not modelled.\<close>
  The structured logging of the limiters and the log line of \<open>runSafe\<close>; a task that ends its
  goroutine with \<open>runtime.Goexit\<close>; spurious wake-ups of \<open>sync.Cond\<close>, which its
  documentation excludes; the libraries go-zero
  and Sentinel, which are parameters; the goroutine scheduler, so nothing is said about when a
  step is taken, only that it can be, and a measurement of the command has the steps of the
  goroutines, the ticks and the latencies as its input (record \<open>world\<close>). That a ticker ticks
  no earlier than its interval says is a named hypothesis (\<open>ticker_paced\<close>).
\<close>

end
